(* ===== verification/Wigo_Prelude.thy ===== *)
theory Wigo_Prelude
  imports Main "HOL-Library.Multiset"
begin

text \<open>
  Vocabulary shared by every component: the JavaScript values the models use (numbers that
  can be \<open>NaN\<close>, objects as association lists, arrays as lists with out-of-range reads
  written as \<^const>\<open>None\<close>), counters, and the generic list facts the component
  proofs rest on.  Strings are lists of 8-bit characters: a non-ASCII source string is its
  UTF-8 encoding.
\<close>

named_theorems app_defs \<open>definitions of the web client, unfolded by its step proofs\<close>
named_theorems dt_defs \<open>definitions of the table engine, unfolded by its step proofs\<close>

section \<open>Objects and arrays\<close>

type_synonym 'v js_obj = "(string \<times> 'v) list"

text \<open>\<open>obj[key]\<close> on an object literal: \<^const>\<open>None\<close> is \<open>undefined\<close>.\<close>

abbreviation js_get :: "'v js_obj \<Rightarrow> string \<Rightarrow> 'v option" where
  "js_get \<equiv> map_of"

text \<open>\<open>arr[i]\<close> for a number \<open>i\<close>: \<^const>\<open>None\<close> is \<open>undefined\<close>.\<close>

definition js_nth :: "'a list \<Rightarrow> int \<Rightarrow> 'a option" where
  "js_nth xs i = (if 0 \<le> i \<and> i < int (length xs) then Some (xs ! nat i) else None)"

text \<open>\<open>arr.indexOf(x)\<close>: the first index holding \<open>x\<close>, else -1.\<close>

fun js_index_from :: "int \<Rightarrow> 'a list \<Rightarrow> 'a \<Rightarrow> int" where
  "js_index_from i [] x = -1"
| "js_index_from i (y # ys) x = (if y = x then i else js_index_from (i + 1) ys x)"

definition js_indexOf :: "'a list \<Rightarrow> 'a \<Rightarrow> int" where
  "js_indexOf xs x = js_index_from 0 xs x"

lemma js_index_from_bounds:
  "x \<in> set xs \<Longrightarrow> i \<le> js_index_from i xs x \<and> js_index_from i xs x < i + int (length xs)"
proof (induction xs arbitrary: i)
  case (Cons y ys)
  show ?case
  proof (cases "y = x")
    case False
    with Cons.prems Cons.IH [of "i + 1"] show ?thesis by simp
  qed simp
qed simp

lemma js_index_from_absent: "x \<notin> set xs \<Longrightarrow> js_index_from i xs x = -1"
  by (induction xs arbitrary: i) auto

lemma js_index_from_nth:
  "x \<in> set xs \<Longrightarrow> xs ! nat (js_index_from i xs x - i) = x"
proof (induction xs arbitrary: i)
  case (Cons y ys)
  show ?case
  proof (cases "y = x")
    case False
    with Cons.prems have x: "x \<in> set ys" by simp
    from js_index_from_bounds [OF x, of "i + 1"]
    have "nat (js_index_from (i + 1) ys x - i) = Suc (nat (js_index_from (i + 1) ys x - (i + 1)))"
      by linarith
    with Cons.IH [OF x, of "i + 1"] False show ?thesis by simp
  qed simp
qed simp

lemma js_indexOf_absent [simp]: "x \<notin> set xs \<Longrightarrow> js_indexOf xs x = -1"
  by (simp add: js_indexOf_def js_index_from_absent)

lemma js_indexOf_present:
  "x \<in> set xs \<Longrightarrow> 0 \<le> js_indexOf xs x \<and> js_indexOf xs x < int (length xs)
    \<and> xs ! nat (js_indexOf xs x) = x"
  using js_index_from_bounds [of x xs 0] js_index_from_nth [of x xs 0]
  by (simp add: js_indexOf_def)

lemma js_indexOf_nonneg_iff: "0 \<le> js_indexOf xs x \<longleftrightarrow> x \<in> set xs"
  by (cases "x \<in> set xs") (auto dest: js_indexOf_present)

lemma js_nth_Some_iff: "js_nth xs i = Some x \<longleftrightarrow> 0 \<le> i \<and> nat i < length xs \<and> xs ! nat i = x"
  by (auto simp: js_nth_def)

section \<open>Numbers\<close>

text \<open>An integral JavaScript number, or \<open>NaN\<close>.\<close>

datatype js_num = Num int | NaN

fun js_inc :: "js_num \<Rightarrow> js_num" where
  "js_inc (Num n) = Num (n + 1)"
| "js_inc NaN = NaN"

text \<open>
  \<open>obj[key]++\<close>: a missing property reads as \<open>undefined\<close>, whose increment is \<open>NaN\<close>.
\<close>

definition bump :: "(string \<rightharpoonup> js_num) \<Rightarrow> string \<Rightarrow> (string \<rightharpoonup> js_num)" where
  "bump m k = m(k \<mapsto> (case m k of None \<Rightarrow> NaN | Some v \<Rightarrow> js_inc v))"

definition num_at :: "(string \<rightharpoonup> js_num) \<Rightarrow> string \<Rightarrow> int" where
  "num_at m k = (case m k of Some (Num n) \<Rightarrow> n | _ \<Rightarrow> 0)"

text \<open>\<open>!x\<close> for a string that may be undefined.\<close>

definition falsy_string :: "string option \<Rightarrow> bool" where
  "falsy_string x \<longleftrightarrow> x = None \<or> x = Some ''''"

section \<open>Decimal digits\<close>

definition digit_char :: "nat \<Rightarrow> char" where
  "digit_char d = char_of (48 + d)"

fun show_nat :: "nat \<Rightarrow> string" where
  "show_nat n = (if n < 10 then [digit_char n] else show_nat (n div 10) @ [digit_char (n mod 10)])"

declare show_nat.simps [simp del]

text \<open>The string a JavaScript integer concatenates as.\<close>

definition show_int :: "int \<Rightarrow> string" where
  "show_int i = (if i < 0 then CHR ''-'' # show_nat (nat (- i)) else show_nat (nat i))"

section \<open>Generic list facts\<close>

lemma count_filter_length: "length (filter (\<lambda>x. f x = y) xs) = count_list (map f xs) y"
  by (induction xs) auto

lemma sum_list_map_concat: "sum_list (map f (concat xss)) = sum_list (map (\<lambda>xs. sum_list (map f xs)) xss)"
  by (induction xss) auto

lemma digit_char_val: "d < 10 \<Longrightarrow> of_char (digit_char d) = 48 + d"
  by (simp add: digit_char_def)

lemma show_nat_nonempty: "show_nat n \<noteq> []"
  by (subst show_nat.simps) simp

text \<open>Reading decimal digits back.\<close>

definition is_digit :: "char \<Rightarrow> bool" where
  "is_digit c \<longleftrightarrow> 48 \<le> (of_char c :: nat) \<and> (of_char c :: nat) \<le> 57"

definition digit_val :: "char \<Rightarrow> nat" where
  "digit_val c = of_char c - 48"

definition read_digits :: "string \<Rightarrow> nat" where
  "read_digits s = foldl (\<lambda>n c. 10 * n + digit_val c) 0 s"

lemma is_digit_char: "d < 10 \<Longrightarrow> is_digit (digit_char d)"
  by (simp add: is_digit_def digit_char_def)

lemma digit_val_char: "d < 10 \<Longrightarrow> digit_val (digit_char d) = d"
  by (simp add: digit_val_def digit_char_def)

lemma show_nat_digits: "list_all is_digit (show_nat n)"
proof (induction n rule: show_nat.induct)
  case (1 n)
  then show ?case by (subst show_nat.simps) (simp add: is_digit_char)
qed

lemma read_show_nat: "read_digits (show_nat n) = n"
proof (induction n rule: show_nat.induct)
  case (1 n)
  show ?case
  proof (cases "n < 10")
    case True
    then show ?thesis by (subst show_nat.simps) (simp add: read_digits_def digit_val_char)
  next
    case False
    with 1 have IH: "foldl (\<lambda>n c. 10 * n + digit_val c) 0 (show_nat (n div 10)) = n div 10"
      by (simp add: read_digits_def)
    have "10 * (n div 10) + n mod 10 = n" by simp
    with False IH show ?thesis
      by (subst show_nat.simps) (simp add: read_digits_def digit_val_char)
  qed
qed

lemma show_nat_inj: "show_nat m = show_nat n \<Longrightarrow> m = n"
  by (metis read_show_nat)

section \<open>Splitting\<close>

text \<open>\<open>s.split(c)\<close> for a single character.\<close>

fun split_on :: "char \<Rightarrow> string \<Rightarrow> string list" where
  "split_on c [] = [[]]"
| "split_on c (x # xs) =
    (if x = c then [] # split_on c xs
     else case split_on c xs of [] \<Rightarrow> [[x]] | y # ys \<Rightarrow> (x # y) # ys)"

lemma split_on_nonempty: "split_on c s \<noteq> []"
  by (induction s) (auto split: list.splits)

lemma split_on_append_sep: "c \<notin> set s \<Longrightarrow> split_on c (s @ c # t) = s # split_on c t"
  by (induction s) (auto split: list.splits)

lemma split_on_single: "c \<notin> set s \<Longrightarrow> split_on c s = [s]"
  by (induction s) (auto split: list.splits)

lemma split_on_append: "split_on c (s @ c # t) = split_on c s @ split_on c t"
  by (induction s) (auto split: list.splits simp: split_on_nonempty)

section \<open>Errors\<close>

text \<open>
  What a JavaScript operation can raise: \<open>URIError\<close> for text that cannot be decoded, \<open>UrlError\<close> for an
  address outside the application.  \<open>Unsupported\<close> marks the values the model does not represent (array
  properties that are not indexes, objects with a \<open>length\<close>).
\<close>

datatype js_err = TypeError | URIError | UrlError | OutOfFuel | Unsupported

type_synonym 'a js_res = "js_err + 'a"

definition js_bind :: "'a js_res \<Rightarrow> ('a \<Rightarrow> 'b js_res) \<Rightarrow> 'b js_res" where
  "js_bind m f = (case m of Inl e \<Rightarrow> Inl e | Inr a \<Rightarrow> f a)"

lemma js_bind_simps [simp]: "js_bind (Inl e) f = Inl e" "js_bind (Inr a) f = f a"
  by (simp_all add: js_bind_def)

lemma js_bind_Inr_iff: "js_bind m f = Inr b \<longleftrightarrow> (\<exists>a. m = Inr a \<and> f a = Inr b)"
  by (cases m) auto

fun js_mapM :: "('a \<Rightarrow> 'b js_res) \<Rightarrow> 'a list \<Rightarrow> 'b list js_res" where
  "js_mapM f [] = Inr []"
| "js_mapM f (x # xs) = js_bind (f x) (\<lambda>y. js_bind (js_mapM f xs) (\<lambda>ys. Inr (y # ys)))"

fun js_foldM :: "('a \<Rightarrow> 's \<Rightarrow> 's js_res) \<Rightarrow> 'a list \<Rightarrow> 's \<Rightarrow> 's js_res" where
  "js_foldM f [] s = Inr s"
| "js_foldM f (x # xs) s = js_bind (f x s) (js_foldM f xs)"

lemma js_mapM_Inr_iff: "js_mapM f xs = Inr ys \<longleftrightarrow> list_all2 (\<lambda>x y. f x = Inr y) xs ys"
  by (induction xs arbitrary: ys) (auto simp: js_bind_Inr_iff list_all2_Cons1)

lemma js_mapM_cong [fundef_cong]:
  "xs = ys \<Longrightarrow> (\<And>x. x \<in> set ys \<Longrightarrow> f x = g x) \<Longrightarrow> js_mapM f xs = js_mapM g ys"
  by (induction xs arbitrary: ys) auto

end
