(* ===== verification/App_Levels.thy ===== *)
theory App_Levels
  imports Wigo_Prelude
begin

text \<open>
  Status levels of the web client (public/js/app.js): the classification of a probe, host or
  group status by \<open>getLevel\<close>, the five tables from level names to CSS classes, the log
  levels, and the Angular filters of the module \<open>wigo-filters\<close>.  A status is the integer
  of the server's JSON (field \<open>Status int\<close> of src/wigo/host.go and probe.go).
\<close>

section \<open>Tables\<close>

definition textLevels :: "string js_obj" where
  "textLevels = [(''OK'', ''text-success''), (''INFO'', ''text-primary''),
    (''WARNING'', ''text-warning''), (''CRITICAL'', ''text-danger''), (''ERROR'', ''text-dark'')]"

definition bgLevels :: "string js_obj" where
  "bgLevels = [(''OK'', ''bg-success''), (''INFO'', ''bg-primary''),
    (''WARNING'', ''bg-warning''), (''CRITICAL'', ''bg-danger''), (''ERROR'', ''bg-dark'')]"

definition badgeLevels :: "string js_obj" where
  "badgeLevels = [(''OK'', ''badge-success''), (''INFO'', ''badge-primary''),
    (''WARNING'', ''badge-warning''), (''CRITICAL'', ''badge-danger''), (''ERROR'', ''badge-dark'')]"

definition btnLevels :: "string js_obj" where
  "btnLevels = [(''OK'', ''btn-success''), (''INFO'', ''btn-primary''),
    (''WARNING'', ''btn-warning''), (''CRITICAL'', ''btn-danger''), (''ERROR'', ''btn-dark'')]"

definition statusRowLevels :: "string js_obj" where
  "statusRowLevels = [(''OK'', ''alert-success''), (''INFO'', ''alert-info''),
    (''WARNING'', ''alert-warning''), (''CRITICAL'', ''alert-danger''), (''ERROR'', ''alert-dark'')]"

definition logLevels :: "string list" where
  "logLevels = [''DEBUG'', ''OK'', ''INFO'', ''ERROR'', ''WARNING'', ''CRITICAL'', ''EMERGENCY'']"

definition logRowLevels :: "string js_obj" where
  "logRowLevels = [(''DEBUG'', ''''), (''OK'', ''alert-success''), (''INFO'', ''alert-info''),
    (''WARNING'', ''alert-warning''), (''CRITICAL'', ''alert-danger''), (''ERROR'', ''alert-dark''),
    (''EMERGENCY'', ''alert-dark'')]"

section \<open>Classification\<close>

definition getLevel :: "int \<Rightarrow> string" where
  "getLevel status =
    (if status < 100 then ''ERROR''
     else if status = 100 then ''OK''
     else if status < 200 then ''INFO''
     else if status < 300 then ''WARNING''
     else if status < 500 then ''CRITICAL''
     else ''ERROR'')"

section \<open>Filters\<close>

definition textLevelCssFilter :: "string \<Rightarrow> string option" where
  "textLevelCssFilter level = js_get textLevels level"

definition bgLevelCssFilter :: "string \<Rightarrow> string option" where
  "bgLevelCssFilter level = js_get bgLevels level"

definition btnLevelCssFilter :: "string \<Rightarrow> string option" where
  "btnLevelCssFilter level = js_get btnLevels level"

definition badgeLevelCssFilter :: "string \<Rightarrow> string option" where
  "badgeLevelCssFilter level = js_get badgeLevels level"

definition statusTableRowCssFilter :: "int \<Rightarrow> string option" where
  "statusTableRowCssFilter status = js_get statusRowLevels (getLevel status)"

text \<open>
  \<open>logRowLevels[logLevels[status - 1]]\<close>: an index out of range gives \<open>undefined\<close>, and
  \<open>logRowLevels[undefined]\<close> looks up the string \<open>"undefined"\<close>.
\<close>

definition logLevelTableRowCssFilter :: "int \<Rightarrow> string option" where
  "logLevelTableRowCssFilter status =
    js_get logRowLevels (case js_nth logLevels (status - 1) of None \<Rightarrow> ''undefined'' | Some l \<Rightarrow> l)"

record log_entry =
  log_Timestamp :: int
  log_Level :: int
  log_Group :: string
  log_Host :: string
  log_Probe :: string
  log_Message :: string

definition logLevelFilter :: "log_entry list \<Rightarrow> string \<Rightarrow> log_entry list" where
  "logLevelFilter logs minLevel =
    (let m = js_indexOf logLevels minLevel in filter (\<lambda>log. log_Level log \<ge> m + 1) logs)"

section \<open>Facts\<close>

text \<open>The keys every level table and every counter object has.\<close>

definition level_keys :: "string list" where
  "level_keys = [''OK'', ''INFO'', ''WARNING'', ''CRITICAL'', ''ERROR'']"

lemma distinct_level_keys: "distinct level_keys"
  by (simp add: level_keys_def)

lemma getLevel_in_keys: "getLevel s \<in> set level_keys"
  by (simp add: getLevel_def level_keys_def)

text \<open>Severity of a level: the intended order of the five names.\<close>

datatype severity = S_OK | S_Info | S_Warning | S_Critical | S_Error

fun sev_rank :: "severity \<Rightarrow> nat" where
  "sev_rank S_OK = 0" | "sev_rank S_Info = 1" | "sev_rank S_Warning = 2"
| "sev_rank S_Critical = 3" | "sev_rank S_Error = 4"

lemma sev_rank_inj: "sev_rank a = sev_rank b \<Longrightarrow> a = b"
  by (cases a; cases b) simp_all

instantiation severity :: linorder
begin
definition less_eq_severity :: "severity \<Rightarrow> severity \<Rightarrow> bool" where
  "a \<le> b \<longleftrightarrow> sev_rank a \<le> sev_rank b"
definition less_severity :: "severity \<Rightarrow> severity \<Rightarrow> bool" where
  "a < b \<longleftrightarrow> sev_rank a < sev_rank b"
instance
  by standard (auto simp: less_eq_severity_def less_severity_def dest: sev_rank_inj)
end

fun level_name :: "severity \<Rightarrow> string" where
  "level_name S_OK = ''OK''" | "level_name S_Info = ''INFO''" | "level_name S_Warning = ''WARNING''"
| "level_name S_Critical = ''CRITICAL''" | "level_name S_Error = ''ERROR''"

definition severity_of :: "int \<Rightarrow> severity" where
  "severity_of s =
    (if s < 100 \<or> s \<ge> 500 then S_Error
     else if s \<ge> 300 then S_Critical
     else if s \<ge> 200 then S_Warning
     else if s > 100 then S_Info
     else S_OK)"

lemma getLevel_severity: "getLevel s = level_name (severity_of s)"
  by (simp add: getLevel_def severity_of_def)

lemma level_name_inj: "level_name a = level_name b \<Longrightarrow> a = b"
  by (cases a; cases b) simp_all

lemma severity_of_mono: "100 \<le> s \<Longrightarrow> s \<le> t \<Longrightarrow> severity_of s \<le> severity_of t"
  by (auto simp: severity_of_def less_eq_severity_def)

section \<open>Properties\<close>

text \<open>a status above the OK value is never shown as less severe than a smaller one: along
  the integers from 100 on the level names follow the order OK, INFO, WARNING, CRITICAL, ERROR,
  and below 100 the level is ERROR.\<close>

theorem getLevel_monotone:
  assumes "100 \<le> s" "s \<le> t"
  shows "\<exists>a b. getLevel s = level_name a \<and> getLevel t = level_name b \<and> a \<le> b \<and>
    (\<forall>u < 100. getLevel u = level_name S_Error)"
proof (intro exI conjI)
  show "getLevel s = level_name (severity_of s)" "getLevel t = level_name (severity_of t)"
    by (fact getLevel_severity)+
  show "severity_of s \<le> severity_of t" using assms by (rule severity_of_mono)
  show "\<forall>u < 100. getLevel u = level_name S_Error" by (simp add: getLevel_def)
qed

theorem getLevel_monotone_witness:
  "\<exists>a b. getLevel 250 = level_name a \<and> getLevel 499 = level_name b \<and> a \<le> b \<and>
    (\<forall>u < 100. getLevel u = level_name S_Error)"
  by (rule getLevel_monotone) simp_all

lemma table_inj:
  "inj_on (js_get textLevels) (set level_keys)" "inj_on (js_get bgLevels) (set level_keys)"
  "inj_on (js_get badgeLevels) (set level_keys)" "inj_on (js_get btnLevels) (set level_keys)"
  "inj_on (js_get statusRowLevels) (set level_keys)"
  by (simp_all add: textLevels_def bgLevels_def badgeLevels_def btnLevels_def statusRowLevels_def level_keys_def)

lemma table_dom:
  "dom (js_get textLevels) = set level_keys" "dom (js_get bgLevels) = set level_keys"
  "dom (js_get badgeLevels) = set level_keys" "dom (js_get btnLevels) = set level_keys"
  "dom (js_get statusRowLevels) = set level_keys"
  by (auto simp: textLevels_def bgLevels_def badgeLevels_def btnLevels_def statusRowLevels_def
      level_keys_def dom_map_of_conv_image_fst)

text \<open>every status gets a style from each of the five level filters, and two statuses get
  the same style exactly when they have the same level.\<close>

theorem level_styles_faithful:
  "statusTableRowCssFilter s \<noteq> None \<and> textLevelCssFilter (getLevel s) \<noteq> None \<and>
   bgLevelCssFilter (getLevel s) \<noteq> None \<and> badgeLevelCssFilter (getLevel s) \<noteq> None \<and>
   btnLevelCssFilter (getLevel s) \<noteq> None \<and>
   (statusTableRowCssFilter s = statusTableRowCssFilter t \<longleftrightarrow> getLevel s = getLevel t) \<and>
   (textLevelCssFilter (getLevel s) = textLevelCssFilter (getLevel t) \<longleftrightarrow> getLevel s = getLevel t) \<and>
   (bgLevelCssFilter (getLevel s) = bgLevelCssFilter (getLevel t) \<longleftrightarrow> getLevel s = getLevel t) \<and>
   (badgeLevelCssFilter (getLevel s) = badgeLevelCssFilter (getLevel t) \<longleftrightarrow> getLevel s = getLevel t) \<and>
   (btnLevelCssFilter (getLevel s) = btnLevelCssFilter (getLevel t) \<longleftrightarrow> getLevel s = getLevel t)"
proof -
  note keys = getLevel_in_keys [of s] getLevel_in_keys [of t]
  have dom: "js_get m (getLevel s) \<noteq> None" if "dom (js_get m) = set level_keys" for m :: "string js_obj"
    using that keys(1) by (metis domIff)
  show ?thesis
    by (simp only: statusTableRowCssFilter_def textLevelCssFilter_def bgLevelCssFilter_def
        badgeLevelCssFilter_def btnLevelCssFilter_def dom table_dom table_inj [THEN inj_on_eq_iff, OF keys] simp_thms)
qed

lemma logLevels_index:
  assumes "1 \<le> i" "i \<le> 7"
  shows "\<exists>l. js_nth logLevels (i - 1) = Some l \<and> l \<in> set logLevels \<and> js_indexOf logLevels l = i - 1"
proof -
  from assms have "i = 1 \<or> i = 2 \<or> i = 3 \<or> i = 4 \<or> i = 5 \<or> i = 6 \<or> i = 7" by arith
  then show ?thesis by (auto simp: js_nth_def logLevels_def js_indexOf_def)
qed

text \<open>on logs whose levels are those of the server (1 to 7), the filter keeps, in their
  order, exactly the logs whose level name comes at or after the chosen one in the table, and
  filtering again by a second level is filtering once by the higher of the two.\<close>

theorem logLevelFilter_keeps:
  assumes "\<forall>log \<in> set logs. 1 \<le> log_Level log \<and> log_Level log \<le> 7"
  shows "logLevelFilter logs l = filter (\<lambda>log. js_indexOf logLevels l \<le>
      js_indexOf logLevels (the (js_nth logLevels (log_Level log - 1)))) logs \<and>
    logLevelFilter (logLevelFilter logs l) l' =
      logLevelFilter logs (if js_indexOf logLevels l \<le> js_indexOf logLevels l' then l' else l) \<and>
    (\<forall>log \<in> set (logLevelFilter logs l). logLevelTableRowCssFilter (log_Level log) \<noteq> None)"
proof (intro conjI)
  have idx: "js_indexOf logLevels (the (js_nth logLevels (log_Level log - 1))) = log_Level log - 1"
    if "log \<in> set logs" for log
    using logLevels_index [of "log_Level log"] assms that by auto
  show "logLevelFilter logs l = filter (\<lambda>log. js_indexOf logLevels l \<le>
      js_indexOf logLevels (the (js_nth logLevels (log_Level log - 1)))) logs"
    unfolding logLevelFilter_def Let_def by (intro filter_cong) (auto simp: idx)
  show "logLevelFilter (logLevelFilter logs l) l' =
      logLevelFilter logs (if js_indexOf logLevels l \<le> js_indexOf logLevels l' then l' else l)"
    by (auto simp: logLevelFilter_def Let_def intro!: filter_cong)
  have rows: "js_get logRowLevels l \<noteq> None" if "l \<in> set logLevels" for l
    using that by (auto simp: logLevels_def logRowLevels_def)
  show "\<forall>log \<in> set (logLevelFilter logs l). logLevelTableRowCssFilter (log_Level log) \<noteq> None"
  proof
    fix log assume "log \<in> set (logLevelFilter logs l)"
    then have "log \<in> set logs" by (auto simp: logLevelFilter_def Let_def)
    with assms logLevels_index [of "log_Level log"] rows
    show "logLevelTableRowCssFilter (log_Level log) \<noteq> None"
      by (auto simp: logLevelTableRowCssFilter_def)
  qed
qed

definition sample_log :: "int \<Rightarrow> log_entry" where
  "sample_log l = \<lparr>log_Timestamp = 0, log_Level = l, log_Group = ''g'', log_Host = ''h'', log_Probe = ''p'', log_Message = ''m''\<rparr>"

theorem logLevelFilter_keeps_witness:
  "filter (\<lambda>log. js_indexOf logLevels ''ERROR'' \<le>
      js_indexOf logLevels (the (js_nth logLevels (log_Level log - 1)))) [sample_log 2, sample_log 6] = [sample_log 6]"
  using logLevelFilter_keeps [of "[sample_log 2, sample_log 6]" "''ERROR''"]
  by (simp add: sample_log_def logLevelFilter_def Let_def js_indexOf_def logLevels_def)

end
