(* ===== verification/App_Counters.thy ===== *)
theory App_Counters
  imports App_Levels
begin

text \<open>
  The counter objects of the three status controllers: \<open>{"OK":0, ..., "ERROR":0}\<close> updated
  by \<open>counts[x.Level]++\<close> inside an \<open>_.each\<close> loop.  The interface a controller needs of a
  classification is that it only answers keys the counter object has; everything about the
  tallies is proved from that once, in the locale below.
\<close>

type_synonym counts = "string \<rightharpoonup> js_num"

text \<open>The object literal \<open>{"OK":0,"INFO":0,"WARNING":0,"CRITICAL":0,"ERROR":0}\<close>.\<close>

definition zero_counts :: counts where
  "zero_counts = map_of [(''OK'', Num 0), (''INFO'', Num 0), (''WARNING'', Num 0),
    (''CRITICAL'', Num 0), (''ERROR'', Num 0)]"

text \<open>A counter object is sound for a list of keys: exactly these keys, and no \<open>NaN\<close>.\<close>

definition counts_ok :: "string list \<Rightarrow> counts \<Rightarrow> bool" where
  "counts_ok ks c \<longleftrightarrow> dom c = set ks \<and> (\<forall>k \<in> set ks. c k \<noteq> Some NaN)"

text \<open>The loop \<open>_.each(xs, function(x) { counts[f(x)]++ })\<close>.\<close>

definition tally :: "('a \<Rightarrow> string) \<Rightarrow> 'a list \<Rightarrow> counts \<Rightarrow> counts" where
  "tally f xs c = fold (\<lambda>x m. bump m (f x)) xs c"

lemma tally_simps [simp]:
  "tally f [] c = c"
  "tally f (x # xs) c = tally f xs (bump c (f x))"
  by (simp_all add: tally_def)

lemma zero_counts_ok: "counts_ok level_keys zero_counts"
  by (auto simp: counts_ok_def zero_counts_def level_keys_def)

lemma num_at_zero [simp]: "num_at zero_counts k = 0"
  by (simp add: num_at_def zero_counts_def)

lemma counts_okE:
  assumes "counts_ok ks c" "k \<in> set ks"
  obtains n where "c k = Some (Num n)"
proof -
  from assms have "k \<in> dom c" and "c k \<noteq> Some NaN" by (auto simp: counts_ok_def)
  then show thesis using that by (auto simp: dom_def) (metis js_num.exhaust)
qed

lemma bump_ok:
  assumes "counts_ok ks c" "k \<in> set ks"
  shows "counts_ok ks (bump c k)"
proof (rule counts_okE [OF assms])
  fix n assume "c k = Some (Num n)"
  with assms show ?thesis by (auto simp: counts_ok_def bump_def)
qed

lemma num_at_bump:
  "counts_ok ks c \<Longrightarrow> k \<in> set ks \<Longrightarrow> num_at (bump c k) j = num_at c j + (if j = k then 1 else 0)"
  by (erule counts_okE) (auto simp: num_at_def bump_def)

locale level_classifier =
  fixes classify :: "'a \<Rightarrow> string"
    and keys :: "string list"
  assumes classify_keys: "classify x \<in> set keys"
    and distinct_keys: "distinct keys"
begin

lemma tally_ok: "counts_ok keys c \<Longrightarrow> counts_ok keys (tally classify xs c)"
  by (induction xs arbitrary: c) (simp_all add: bump_ok classify_keys)

lemma tally_num:
  "counts_ok keys c \<Longrightarrow>
    num_at (tally classify xs c) k = num_at c k + int (length (filter (\<lambda>x. classify x = k) xs))"
  by (induction xs arbitrary: c) (auto simp: bump_ok classify_keys num_at_bump [OF _ classify_keys])

text \<open>Every item is counted under exactly one key.\<close>

lemma sum_filter_keys:
  "(\<Sum>k\<leftarrow>keys. int (length (filter (\<lambda>x. classify x = k) xs))) = int (length xs)"
proof (induction xs)
  case (Cons x xs)
  have one: "(\<Sum>k\<leftarrow>keys. if classify x = k then 1 else 0) = (1::int)"
    using distinct_keys classify_keys [of x]
    by (simp add: sum_list_distinct_conv_sum_set)
  have "(\<Sum>k\<leftarrow>keys. int (length (filter (\<lambda>y. classify y = k) (x # xs)))) =
    (\<Sum>k\<leftarrow>keys. (if classify x = k then 1 else 0) + int (length (filter (\<lambda>y. classify y = k) xs)))"
    by (intro arg_cong [where f = sum_list] map_cong) auto
  with one Cons.IH show ?case by (simp add: sum_list_addf)
qed (simp add: sum_list_triv)

lemma tally_total:
  assumes "counts_ok keys c"
  shows "(\<Sum>k\<leftarrow>keys. num_at (tally classify xs c) k) =
    (\<Sum>k\<leftarrow>keys. num_at c k) + int (length xs)"
  using assms by (simp add: tally_num sum_list_addf sum_filter_keys)

end

text \<open>\<open>getLevel\<close>, on the status of any item, is such a classification.\<close>

interpretation status_level: level_classifier "\<lambda>x. getLevel (status x)" level_keys
  for status :: "'a \<Rightarrow> int"
  by unfold_locales (simp_all add: getLevel_in_keys distinct_level_keys)

end
