(* ===== verification/App_Status.thy ===== *)
theory App_Status
  imports App_Counters "HOL-Library.Multiset"
begin

text \<open>
  The status pages of the web client (public/js/app.js): \<open>HostsCtrl\<close>, \<open>GroupCtrl\<close> and
  \<open>HostCtrl\<close>.  Each keeps a scope that \<open>load\<close> resets before it sends requests; the answers
  arrive later, one callback each, in any order and possibly after another \<open>load\<close> (the
  refresh timer of \<open>wigo-refresh\<close> calls \<open>load\<close> again).  A state is the scope together with
  the requests still unanswered; \<open>$timeout($anchorScroll)\<close> only scrolls the page and is kept
  as a count of scheduled scrolls.  The payload of an answer is whatever the server sent.
\<close>

section \<open>Server objects and the fields the client adds\<close>

record probe =
  pr_Name :: string
  pr_Status :: int
  pr_Level :: "string option"

text \<open>A JSON field that may be \<open>null\<close> is an option; \<open>_.each(null, f)\<close> does nothing.\<close>

record host =
  ho_Name :: string
  ho_Status :: int
  ho_Probes :: "probe list option"
  ho_Level :: "string option"
  ho_counts :: "counts option"

record group =
  gr_Name :: string
  gr_Status :: int
  gr_Hosts :: "host list option"
  gr_Level :: "string option"
  gr_counts :: "counts option"

definition js_items :: "'a list option \<Rightarrow> 'a list" where
  "js_items xs = (case xs of None \<Rightarrow> [] | Some l \<Rightarrow> l)"

lemma js_items_simps [simp]:
  "js_items None = []" "js_items (Some l) = l" "js_items (map_option (map f) xs) = map f (js_items xs)"
  by (simp_all add: js_items_def split: option.splits)

definition level_probe :: "probe \<Rightarrow> probe" where
  "level_probe p = p\<lparr>pr_Level := Some (getLevel (pr_Status p))\<rparr>"

section \<open>HostsCtrl\<close>

record hosts_state =
  hc_title :: "string option"
  hc_groups :: "group list"
  hc_counts :: counts
  hc_lists :: nat            \<comment> \<open>unanswered \<open>all('groups').getList()\<close>\<close>
  hc_gets :: "string list"   \<comment> \<open>unanswered \<open>one('groups', name).get()\<close>\<close>
  hc_anchors :: nat

text \<open>The body of \<open>_.each(group.Hosts, function(host) { ... })\<close> on the scope's counts.\<close>

definition hosts_host :: "host \<Rightarrow> host" where
  "hosts_host h = h\<lparr>ho_Level := Some (getLevel (ho_Status h)),
    ho_Probes := map_option (map level_probe) (ho_Probes h)\<rparr>"

fun hosts_each :: "host list \<Rightarrow> counts \<times> counts \<Rightarrow> counts \<times> counts" where
  "hosts_each [] (scope, grp) = (scope, grp)"
| "hosts_each (h # hs) (scope, grp) =
    hosts_each hs (bump scope (getLevel (ho_Status h)), bump grp (getLevel (ho_Status h)))"

definition hosts_load :: "hosts_state \<Rightarrow> hosts_state" where
  "hosts_load s = s\<lparr>hc_groups := [], hc_counts := zero_counts, hc_lists := Suc (hc_lists s)\<rparr>"

definition hosts_on_list :: "string list \<Rightarrow> hosts_state \<Rightarrow> hosts_state" where
  "hosts_on_list names s = s\<lparr>hc_lists := hc_lists s - 1, hc_gets := hc_gets s @ names\<rparr>"

definition hosts_on_group :: "string \<Rightarrow> group \<Rightarrow> hosts_state \<Rightarrow> hosts_state" where
  "hosts_on_group name g s =
    (let (sc, gc) = hosts_each (js_items (gr_Hosts g)) (hc_counts s, zero_counts);
         g' = g\<lparr>gr_counts := Some gc, gr_Level := Some (getLevel (gr_Status g)),
                gr_Hosts := map_option (map hosts_host) (gr_Hosts g)\<rparr>
     in s\<lparr>hc_counts := sc, hc_groups := hc_groups s @ [g'], hc_gets := remove1 name (hc_gets s),
          hc_anchors := Suc (hc_anchors s)\<rparr>)"

text \<open>The controller's \<open>init\<close>: \<open>load\<close> first, then the title.\<close>

definition hosts_init :: hosts_state where
  "hosts_init = (hosts_load \<lparr>hc_title = None, hc_groups = [], hc_counts = Map.empty,
     hc_lists = 0, hc_gets = [], hc_anchors = 0\<rparr>)\<lparr>hc_title := Some ''Hosts''\<rparr>"

text \<open>A refresh, an answer to an outstanding request, or its failure (no callback).\<close>

inductive hosts_step :: "hosts_state \<Rightarrow> hosts_state \<Rightarrow> bool" where
  load: "hosts_step s (hosts_load s)"
| on_list: "0 < hc_lists s \<Longrightarrow> hosts_step s (hosts_on_list names s)"
| list_failed: "0 < hc_lists s \<Longrightarrow> hosts_step s (s\<lparr>hc_lists := hc_lists s - 1\<rparr>)"
| on_group: "name \<in> set (hc_gets s) \<Longrightarrow> hosts_step s (hosts_on_group name g s)"
| group_failed: "name \<in> set (hc_gets s) \<Longrightarrow>
    hosts_step s (s\<lparr>hc_gets := remove1 name (hc_gets s)\<rparr>)"

abbreviation hosts_reachable :: "hosts_state \<Rightarrow> bool" where
  "hosts_reachable s \<equiv> hosts_step\<^sup>*\<^sup>* hosts_init s"

lemmas hosts_defs = hosts_load_def hosts_on_list_def hosts_on_group_def hosts_init_def

lemma hosts_each_tally:
  "hosts_each hs (sc, gc) =
    (tally (\<lambda>h. getLevel (ho_Status h)) hs sc, tally (\<lambda>h. getLevel (ho_Status h)) hs gc)"
  by (induction hs arbitrary: sc gc) simp_all

text \<open>What a group shows after its callback.\<close>

definition shown_hosts :: "group \<Rightarrow> string \<Rightarrow> host list" where
  "shown_hosts g k = filter (\<lambda>h. ho_Level h = Some k) (js_items (gr_Hosts g))"

definition group_ok :: "group \<Rightarrow> bool" where
  "group_ok g \<longleftrightarrow> (\<exists>c. gr_counts g = Some c \<and> counts_ok level_keys c \<and>
     (\<forall>k. num_at c k = int (length (shown_hosts g k)))) \<and>
     gr_Level g = Some (getLevel (gr_Status g))"

definition hosts_inv :: "hosts_state \<Rightarrow> bool" where
  "hosts_inv s \<longleftrightarrow> counts_ok level_keys (hc_counts s) \<and> (\<forall>g \<in> set (hc_groups s). group_ok g) \<and>
     (\<forall>k. num_at (hc_counts s) k = (\<Sum>g\<leftarrow>hc_groups s. int (length (shown_hosts g k))))"

lemma hosts_inv_init: "hosts_inv hosts_init"
  by (simp add: hosts_inv_def hosts_defs zero_counts_ok)

lemma hosts_inv_on_group:
  assumes "hosts_inv s"
  shows "hosts_inv (hosts_on_group name g s)"
proof -
  let ?st = "\<lambda>h. getLevel (ho_Status h)"
  let ?hs = "js_items (gr_Hosts g)"
  let ?g = "g\<lparr>gr_counts := Some (tally ?st ?hs zero_counts), gr_Level := Some (getLevel (gr_Status g)),
    gr_Hosts := map_option (map hosts_host) (gr_Hosts g)\<rparr>"
  have shown: "length (shown_hosts ?g k) = length (filter (\<lambda>h. ?st h = k) ?hs)" for k
    by (simp add: shown_hosts_def hosts_host_def filter_map o_def)
  have "group_ok ?g"
    by (simp add: group_ok_def shown [simplified] status_level.tally_ok status_level.tally_num zero_counts_ok)
  moreover have "counts_ok level_keys (tally ?st ?hs (hc_counts s))"
    using assms by (simp add: hosts_inv_def status_level.tally_ok)
  ultimately show ?thesis
    using assms
    by (auto simp: hosts_inv_def hosts_on_group_def hosts_each_tally shown [simplified] status_level.tally_num)
qed

lemma hosts_inv_step: "hosts_step s t \<Longrightarrow> hosts_inv s \<Longrightarrow> hosts_inv t"
  by (induction rule: hosts_step.induct)
    (auto simp: hosts_inv_on_group, auto simp: hosts_inv_def hosts_load_def hosts_on_list_def zero_counts_ok)

lemma hosts_reachable_inv: "hosts_reachable s \<Longrightarrow> hosts_inv s"
  by (induction rule: rtranclp_induct) (auto simp: hosts_inv_init intro: hosts_inv_step)


subsection \<open>One load, and two overlapping loads\<close>

text \<open>The answers \<open>(name, group)\<close> to outstanding requests, in the order they arrive.\<close>

definition hosts_answers :: "(string \<times> group) list \<Rightarrow> hosts_state \<Rightarrow> hosts_state" where
  "hosts_answers gs s = fold (\<lambda>(name, g). hosts_on_group name g) gs s"

definition hosts_at :: "string \<Rightarrow> (string \<times> group) list \<Rightarrow> nat" where
  "hosts_at k gs = (\<Sum>(name, g)\<leftarrow>gs. length (filter (\<lambda>h. getLevel (ho_Status h) = k) (js_items (gr_Hosts g))))"

lemma hosts_at_simps [simp]:
  "hosts_at k [] = 0"
  "hosts_at k (a # gs) =
     length (filter (\<lambda>h. getLevel (ho_Status h) = k) (js_items (gr_Hosts (snd a)))) + hosts_at k gs"
  "hosts_at k (gs @ gs') = hosts_at k gs + hosts_at k gs'"
  by (simp_all add: hosts_at_def split_beta)

lemma hosts_answers_simps [simp]:
  "hosts_answers [] s = s"
  "hosts_answers (a # gs) s = hosts_answers gs (hosts_on_group (fst a) (snd a) s)"
  by (simp_all add: hosts_answers_def split_beta)

lemma hosts_on_group_fields [simp]:
  "hc_lists (hosts_on_group name g s) = hc_lists s"
  "hc_gets (hosts_on_group name g s) = remove1 name (hc_gets s)"
  "map gr_Name (hc_groups (hosts_on_group name g s)) = map gr_Name (hc_groups s) @ [gr_Name g]"
  "hc_counts (hosts_on_group name g s) =
     tally (\<lambda>h. getLevel (ho_Status h)) (js_items (gr_Hosts g)) (hc_counts s)"
  by (simp_all add: hosts_on_group_def hosts_each_tally)

lemma hosts_answers_run:
  assumes "mset (map fst gs) \<subseteq># mset (hc_gets s)"
  shows "hosts_step\<^sup>*\<^sup>* s (hosts_answers gs s)"
    and "hc_lists (hosts_answers gs s) = hc_lists s"
    and "mset (hc_gets (hosts_answers gs s)) = mset (hc_gets s) - mset (map fst gs)"
    and "map gr_Name (hc_groups (hosts_answers gs s)) = map gr_Name (hc_groups s) @ map (gr_Name \<circ> snd) gs"
    and "counts_ok level_keys (hc_counts s) \<Longrightarrow>
      num_at (hc_counts (hosts_answers gs s)) k = num_at (hc_counts s) k + int (hosts_at k gs)"
  using assms
proof (induction gs arbitrary: s)
  case (Cons a gs)
  {
    case 1
    then have "fst a \<in> set (hc_gets s)"
      by (metis insert_subset_eq_iff list.simps(9) mset.simps(2) set_mset_mset)
    then have "hosts_step s (hosts_on_group (fst a) (snd a) s)" by (rule hosts_step.on_group)
    moreover from 1 have "mset (map fst gs) \<subseteq># mset (hc_gets (hosts_on_group (fst a) (snd a) s))"
      by (simp add: insert_subset_eq_iff)
    ultimately show ?case using Cons.IH(1) by (auto intro: converse_rtranclp_into_rtranclp)
  next
    case 2
    then show ?case using Cons.IH(2) by (simp add: insert_subset_eq_iff)
  next
    case 3
    then show ?case using Cons.IH(3) by (simp add: insert_subset_eq_iff)
  next
    case 4
    then show ?case using Cons.IH(4) by (simp add: insert_subset_eq_iff)
  next
    case 5
    then show ?case using Cons.IH(5)
      by (simp add: insert_subset_eq_iff status_level.tally_ok status_level.tally_num)
  }
qed simp_all

definition quiescent :: "hosts_state \<Rightarrow> bool" where
  "quiescent s \<longleftrightarrow> hc_lists s = 0 \<and> hc_gets s = []"

lemma hosts_load_fields [simp]:
  "hc_lists (hosts_load s) = Suc (hc_lists s)" "hc_gets (hosts_load s) = hc_gets s"
  "hc_groups (hosts_load s) = []" "hc_counts (hosts_load s) = zero_counts"
  "hc_lists (hosts_on_list names s) = hc_lists s - 1" "hc_gets (hosts_on_list names s) = hc_gets s @ names"
  "hc_groups (hosts_on_list names s) = hc_groups s" "hc_counts (hosts_on_list names s) = hc_counts s"
  by (simp_all add: hosts_load_def hosts_on_list_def)

text \<open>\<open>n\<close> loads whose requests overlap, all answered with the same list of groups.\<close>

definition hosts_loads :: "nat \<Rightarrow> string list \<Rightarrow> hosts_state \<Rightarrow> hosts_state" where
  "hosts_loads n names s = (hosts_on_list names ^^ n) ((hosts_load ^^ n) s)"

lemma hosts_load_pow:
  "hosts_step\<^sup>*\<^sup>* s ((hosts_load ^^ n) s)"
  "hc_lists ((hosts_load ^^ n) s) = hc_lists s + n"
  "hc_gets ((hosts_load ^^ n) s) = hc_gets s"
  "0 < n \<Longrightarrow> hc_groups ((hosts_load ^^ n) s) = [] \<and> hc_counts ((hosts_load ^^ n) s) = zero_counts"
  by (induction n) (auto intro: hosts_step.load rtranclp.rtrancl_into_rtrancl)

lemma hosts_on_list_pow:
  "n \<le> hc_lists s \<Longrightarrow> hosts_step\<^sup>*\<^sup>* s ((hosts_on_list names ^^ n) s)
    \<and> hc_lists ((hosts_on_list names ^^ n) s) = hc_lists s - n
    \<and> mset (hc_gets ((hosts_on_list names ^^ n) s)) = mset (hc_gets s) + repeat_mset n (mset names)
    \<and> hc_groups ((hosts_on_list names ^^ n) s) = hc_groups s
    \<and> hc_counts ((hosts_on_list names ^^ n) s) = hc_counts s"
proof (induction n)
  case (Suc n)
  let ?t = "(hosts_on_list names ^^ n) s"
  from Suc have IH: "hosts_step\<^sup>*\<^sup>* s ?t" "0 < hc_lists ?t" by auto
  from IH(1) hosts_step.on_list [OF IH(2), of names] have "hosts_step\<^sup>*\<^sup>* s (hosts_on_list names ?t)"
    by (rule rtranclp.rtrancl_into_rtrancl)
  with Suc show ?case by auto
qed simp

lemma overlapping_loads:
  assumes "quiescent s" "0 < n" and "mset (map fst gs) = repeat_mset n (mset names)"
  defines "t \<equiv> hosts_answers gs (hosts_loads n names s)"
  shows "hosts_step\<^sup>*\<^sup>* s t" "quiescent t" "map gr_Name (hc_groups t) = map (gr_Name \<circ> snd) gs"
    "num_at (hc_counts t) k = int (hosts_at k gs)"
proof -
  let ?l = "(hosts_load ^^ n) s"
  let ?u = "hosts_loads n names s"
  note l = hosts_load_pow [where s = s and n = n]
  have "n \<le> hc_lists ?l" by (simp add: l)
  note on = hosts_on_list_pow [OF this, of names, folded hosts_loads_def]
  have u: "hosts_step\<^sup>*\<^sup>* s ?u" using l(1) on by (blast intro: rtranclp_trans)
  have "mset (map fst gs) \<subseteq># mset (hc_gets ?u)" using assms(3) on by simp
  note run = hosts_answers_run [OF this]
  show "hosts_step\<^sup>*\<^sup>* s t" using u run(1) unfolding t_def by (rule rtranclp_trans)
  show "quiescent t" using assms(1,3) run(2,3) on l by (simp add: quiescent_def t_def)
  show "map gr_Name (hc_groups t) = map (gr_Name \<circ> snd) gs"
    using run(4) on l(4) [OF assms(2)] by (simp add: t_def)
  show "num_at (hc_counts t) k = int (hosts_at k gs)"
    using run(5) on l(4) [OF assms(2)] by (simp add: t_def zero_counts_ok)
qed

subsection \<open>Answers in any order\<close>

text \<open>What can arrive: the list of groups, or one group for an outstanding request.\<close>

datatype hosts_answer = List_Answer "string list" | Group_Answer string group



definition listed :: "hosts_answer list \<Rightarrow> string list list" where
  "listed as = [names. List_Answer names \<leftarrow> as]"

definition answered :: "hosts_answer list \<Rightarrow> (string \<times> group) list" where
  "answered as = [(name, g). Group_Answer name g \<leftarrow> as]"

lemma answer_simps [simp]:
  "listed [] = []" "answered [] = []"
  "listed (List_Answer names # as) = names # listed as" "answered (List_Answer names # as) = answered as"
  "listed (Group_Answer n g # as) = listed as" "answered (Group_Answer n g # as) = (n, g) # answered as"
  by (simp_all add: listed_def answered_def)


section \<open>GroupCtrl\<close>

record group_state =
  gc_groupName :: "string option"
  gc_title :: string
  gc_hosts :: "host list"
  gc_counts :: "counts option"
  gc_group :: "group option"
  gc_gets :: nat
  gc_anchors :: nat

text \<open>\<open>'Group: ' + name\<close> with an undefined name.\<close>

definition js_concat_opt :: "string option \<Rightarrow> string" where
  "js_concat_opt x = (case x of None \<Rightarrow> ''undefined'' | Some v \<Rightarrow> v)"

definition group_load :: "group_state \<Rightarrow> group_state" where
  "group_load s =
    (let s1 = s\<lparr>gc_hosts := []\<rparr>
     in if falsy_string (gc_groupName s) then s1
        else s1\<lparr>gc_counts := Some zero_counts, gc_gets := Suc (gc_gets s)\<rparr>)"

text \<open>The controller's \<open>init\<close>, from the \<open>name\<close> of \<open>$location.search()\<close>.\<close>

definition group_init :: "string option \<Rightarrow> group_state" where
  "group_init name = group_load \<lparr>gc_groupName = name, gc_title = ''Group: '' @ js_concat_opt name,
     gc_hosts = [], gc_counts = None, gc_group = None, gc_gets = 0, gc_anchors = 0\<rparr>"

text \<open>One host of \<open>_.each(group.Hosts, ...)\<close>: its own counts, and the scope's.\<close>

definition group_host :: "host \<Rightarrow> host" where
  "group_host h = h\<lparr>ho_counts := Some (tally (\<lambda>p. getLevel (pr_Status p)) (js_items (ho_Probes h)) zero_counts),
     ho_Level := Some (getLevel (ho_Status h)),
     ho_Probes := map_option (map level_probe) (ho_Probes h)\<rparr>"

fun group_each :: "host list \<Rightarrow> counts \<Rightarrow> counts" where
  "group_each [] c = c"
| "group_each (h # hs) c = group_each hs (tally (\<lambda>p. getLevel (pr_Status p)) (js_items (ho_Probes h)) c)"

text \<open>
  The answer.  The counts are defined whenever a request is outstanding
  (\<open>group_inv\<close> below), so the case of undefined counts never arises.
\<close>

definition group_on_group :: "group \<Rightarrow> group_state \<Rightarrow> group_state" where
  "group_on_group g s =
    (let hs = js_items (gr_Hosts g);
         g' = g\<lparr>gr_Level := Some (getLevel (gr_Status g)), gr_Hosts := map_option (map group_host) (gr_Hosts g)\<rparr>
     in s\<lparr>gc_group := Some g', gc_counts := map_option (group_each hs) (gc_counts s),
          gc_hosts := gc_hosts s @ map group_host hs,
          gc_gets := gc_gets s - 1, gc_anchors := Suc (gc_anchors s)\<rparr>)"

inductive group_step :: "group_state \<Rightarrow> group_state \<Rightarrow> bool" where
  load: "group_step s (group_load s)"
| on_group: "0 < gc_gets s \<Longrightarrow> group_step s (group_on_group g s)"
| group_failed: "0 < gc_gets s \<Longrightarrow> group_step s (s\<lparr>gc_gets := gc_gets s - 1\<rparr>)"

abbreviation group_reachable :: "string option \<Rightarrow> group_state \<Rightarrow> bool" where
  "group_reachable name s \<equiv> group_step\<^sup>*\<^sup>* (group_init name) s"

definition shown_probes :: "host \<Rightarrow> string \<Rightarrow> probe list" where
  "shown_probes h k = filter (\<lambda>p. pr_Level p = Some k) (js_items (ho_Probes h))"

definition host_ok :: "host \<Rightarrow> bool" where
  "host_ok h \<longleftrightarrow> (\<exists>c. ho_counts h = Some c \<and> counts_ok level_keys c \<and>
     (\<forall>k. num_at c k = int (length (shown_probes h k)))) \<and>
     ho_Level h = Some (getLevel (ho_Status h))"

text \<open>
  Without a group name nothing is ever shown; with one, the counts are those of the probes
  of the hosts on the page.
\<close>

definition group_inv :: "group_state \<Rightarrow> bool" where
  "group_inv s \<longleftrightarrow>
    (if falsy_string (gc_groupName s) then gc_hosts s = [] \<and> gc_counts s = None \<and> gc_gets s = 0
     else (\<exists>c. gc_counts s = Some c \<and> counts_ok level_keys c \<and>
        (\<forall>k. num_at c k = (\<Sum>h\<leftarrow>gc_hosts s. int (length (shown_probes h k))))) \<and>
        (\<forall>h \<in> set (gc_hosts s). host_ok h))"

lemma shown_group_host:
  "length (shown_probes (group_host h) k) =
    length (filter (\<lambda>p. getLevel (pr_Status p) = k) (js_items (ho_Probes h)))"
  by (simp add: shown_probes_def group_host_def level_probe_def filter_map o_def)

lemma host_ok_group_host: "host_ok (group_host h)"
  unfolding host_ok_def shown_group_host
  by (simp add: group_host_def status_level.tally_ok status_level.tally_num zero_counts_ok)

lemma group_each_counts:
  "counts_ok level_keys c \<Longrightarrow> counts_ok level_keys (group_each hs c) \<and>
    num_at (group_each hs c) k = num_at c k + (\<Sum>h\<leftarrow>map group_host hs. int (length (shown_probes h k)))"
  by (induction hs arbitrary: c)
    (simp_all add: status_level.tally_ok status_level.tally_num shown_group_host)

lemma group_inv_init: "group_inv (group_init name)"
  by (simp add: group_inv_def group_init_def group_load_def Let_def zero_counts_ok)

lemma group_inv_on_group:
  assumes "group_inv s" "0 < gc_gets s"
  shows "group_inv (group_on_group g s)"
proof -
  let ?hs = "js_items (gr_Hosts g)"
  from assms obtain c where c: "gc_counts s = Some c" "counts_ok level_keys c" "\<not> falsy_string (gc_groupName s)"
    "\<And>k. num_at c k = (\<Sum>h\<leftarrow>gc_hosts s. int (length (shown_probes h k)))"
    "\<forall>h \<in> set (gc_hosts s). host_ok h"
    by (auto simp: group_inv_def split: if_splits)
  from group_each_counts [OF c(2), of ?hs] c show ?thesis
    by (auto simp: group_inv_def group_on_group_def Let_def host_ok_group_host)
qed

lemma group_inv_step: "group_step s t \<Longrightarrow> group_inv s \<Longrightarrow> group_inv t"
proof (induction rule: group_step.induct)
  case (load s)
  then show ?case by (auto simp: group_inv_def group_load_def Let_def zero_counts_ok split: if_splits)
next
  case (group_failed s)
  then show ?case by (auto simp: group_inv_def split: if_splits)
qed (simp add: group_inv_on_group)

lemma group_reachable_inv: "group_reachable name s \<Longrightarrow> group_inv s"
  by (induction rule: rtranclp_induct) (auto simp: group_inv_init intro: group_inv_step)

lemma group_step_name: "group_step s t \<Longrightarrow> gc_groupName t = gc_groupName s"
  by (induction rule: group_step.induct) (auto simp: group_load_def group_on_group_def Let_def)

lemma group_reachable_name: "group_reachable name s \<Longrightarrow> gc_groupName s = name"
  by (induction rule: rtranclp_induct)
    (auto simp: group_init_def group_load_def Let_def group_step_name)

section \<open>HostCtrl\<close>

record local_host =
  lh_Status :: int
  lh_Probes :: "probe list option"
  lh_Level :: "string option"

text \<open>The answer of \<open>/api/hosts/<name>\<close>: \<open>LocalHost\<close> may be missing.\<close>

record remote_wigo =
  rw_GlobalStatus :: int
  rw_GlobalLevel :: "string option"
  rw_LocalHost :: "local_host option"

record hostc_state =
  pc_hostName :: "string option"
  pc_title :: string
  pc_probes :: "probe list"
  pc_counts :: "counts option"
  pc_host :: "remote_wigo option"
  pc_gets :: nat
  pc_anchors :: nat

definition host_load :: "hostc_state \<Rightarrow> hostc_state" where
  "host_load s =
    (let s1 = s\<lparr>pc_probes := []\<rparr>
     in if falsy_string (pc_hostName s) then s1
        else s1\<lparr>pc_counts := Some zero_counts, pc_gets := Suc (pc_gets s)\<rparr>)"

definition host_init :: "string option \<Rightarrow> hostc_state" where
  "host_init name = host_load \<lparr>pc_hostName = name, pc_title = ''Host: '' @ js_concat_opt name,
     pc_probes = [], pc_counts = None, pc_host = None, pc_gets = 0, pc_anchors = 0\<rparr>"

text \<open>
  The answer.  Writing \<open>host.LocalHost.Level\<close> of a missing \<open>LocalHost\<close> raises a TypeError
  before anything else is touched: only the request is gone.
\<close>

definition host_on_host :: "remote_wigo \<Rightarrow> hostc_state \<Rightarrow> hostc_state" where
  "host_on_host r s =
    (case rw_LocalHost r of
       None \<Rightarrow> s\<lparr>pc_gets := pc_gets s - 1\<rparr>
     | Some lh \<Rightarrow>
        (let ps = js_items (lh_Probes lh);
             lh' = lh\<lparr>lh_Level := Some (getLevel (lh_Status lh)), lh_Probes := map_option (map level_probe) (lh_Probes lh)\<rparr>;
             r' = r\<lparr>rw_LocalHost := Some lh', rw_GlobalLevel := Some (getLevel (rw_GlobalStatus r))\<rparr>
         in s\<lparr>pc_host := Some r',
              pc_counts := map_option (tally (\<lambda>p. getLevel (pr_Status p)) ps) (pc_counts s),
              pc_probes := pc_probes s @ map level_probe ps,
              pc_gets := pc_gets s - 1, pc_anchors := Suc (pc_anchors s)\<rparr>))"

inductive host_step :: "hostc_state \<Rightarrow> hostc_state \<Rightarrow> bool" where
  load: "host_step s (host_load s)"
| on_host: "0 < pc_gets s \<Longrightarrow> host_step s (host_on_host r s)"
| host_failed: "0 < pc_gets s \<Longrightarrow> host_step s (s\<lparr>pc_gets := pc_gets s - 1\<rparr>)"

abbreviation host_reachable :: "string option \<Rightarrow> hostc_state \<Rightarrow> bool" where
  "host_reachable name s \<equiv> host_step\<^sup>*\<^sup>* (host_init name) s"

definition host_inv :: "hostc_state \<Rightarrow> bool" where
  "host_inv s \<longleftrightarrow>
    (if falsy_string (pc_hostName s) then pc_probes s = [] \<and> pc_counts s = None \<and> pc_gets s = 0
     else (\<exists>c. pc_counts s = Some c \<and> counts_ok level_keys c \<and>
        (\<forall>k. num_at c k = int (length (filter (\<lambda>p. pr_Level p = Some k) (pc_probes s))))) \<and>
        (\<forall>p \<in> set (pc_probes s). pr_Level p = Some (getLevel (pr_Status p))))"

lemma host_inv_init: "host_inv (host_init name)"
  by (simp add: host_inv_def host_init_def host_load_def Let_def zero_counts_ok)

lemma host_inv_on_host:
  assumes "host_inv s" "0 < pc_gets s"
  shows "host_inv (host_on_host r s)"
proof (cases "rw_LocalHost r")
  case None
  with assms show ?thesis by (auto simp: host_inv_def host_on_host_def split: if_splits)
next
  case (Some lh)
  from assms obtain c where c: "pc_counts s = Some c" "counts_ok level_keys c" "\<not> falsy_string (pc_hostName s)"
    "\<And>k. num_at c k = int (length (filter (\<lambda>p. pr_Level p = Some k) (pc_probes s)))"
    "\<forall>p \<in> set (pc_probes s). pr_Level p = Some (getLevel (pr_Status p))"
    by (auto simp: host_inv_def split: if_splits)
  with Some show ?thesis
    by (auto simp: host_inv_def host_on_host_def Let_def status_level.tally_ok status_level.tally_num
        level_probe_def filter_map o_def)
qed

lemma host_inv_step: "host_step s t \<Longrightarrow> host_inv s \<Longrightarrow> host_inv t"
proof (induction rule: host_step.induct)
  case (load s)
  then show ?case by (auto simp: host_inv_def host_load_def Let_def zero_counts_ok split: if_splits)
next
  case (host_failed s)
  then show ?case by (auto simp: host_inv_def split: if_splits)
qed (simp add: host_inv_on_host)

lemma host_reachable_inv: "host_reachable name s \<Longrightarrow> host_inv s"
  by (induction rule: rtranclp_induct) (auto simp: host_inv_init intro: host_inv_step)

lemma host_step_name: "host_step s t \<Longrightarrow> pc_hostName t = pc_hostName s"
  by (induction rule: host_step.induct)
    (auto simp: host_load_def host_on_host_def Let_def split: option.splits)

lemma host_reachable_name: "host_reachable name s \<Longrightarrow> pc_hostName s = name"
  by (induction rule: rtranclp_induct)
    (auto simp: host_init_def host_load_def Let_def host_step_name)

section \<open>Properties\<close>

text \<open>Sample data for the instances below.\<close>

definition sample_host :: "string \<Rightarrow> int \<Rightarrow> host" where
  "sample_host n st = \<lparr>ho_Name = n, ho_Status = st,
     ho_Probes = Some [\<lparr>pr_Name = ''load'', pr_Status = st, pr_Level = None\<rparr>],
     ho_Level = None, ho_counts = None\<rparr>"

definition sample_group :: "string \<Rightarrow> group" where
  "sample_group n = \<lparr>gr_Name = n, gr_Status = 350,
     gr_Hosts = Some [sample_host ''a'' 100, sample_host ''b'' 350], gr_Level = None, gr_counts = None\<rparr>"

lemmas sample_defs = sample_host_def sample_group_def

text \<open>C1: in every reachable state of the hosts page, whatever the server answered and in
  whatever order, each counter is a number and equals the hosts of that level the page shows,
  and each group on the page carries its own level and its own correct counters.\<close>

theorem hosts_page_counts:
  assumes "hosts_reachable s"
  shows "(\<forall>k \<in> set level_keys. \<exists>n. hc_counts s k = Some (Num n)) \<and>
    (\<forall>k. num_at (hc_counts s) k = (\<Sum>g\<leftarrow>hc_groups s. int (length (shown_hosts g k)))) \<and>
    (\<forall>g \<in> set (hc_groups s). gr_Level g = Some (getLevel (gr_Status g)) \<and>
       (\<exists>c. gr_counts g = Some c \<and> counts_ok level_keys c \<and> (\<forall>k. num_at c k = int (length (shown_hosts g k)))))"
  using hosts_reachable_inv [OF assms] unfolding hosts_inv_def group_ok_def by (auto elim: counts_okE)

theorem hosts_page_counts_witness:
  "(\<Sum>g\<leftarrow>hc_groups (hosts_on_group ''g'' (sample_group ''g'') (hosts_on_list [''g''] hosts_init)).
      int (length (shown_hosts g ''CRITICAL''))) = 1"
proof -
  let ?s = "hosts_on_list [''g''] hosts_init"
  have "hosts_step hosts_init ?s" by (rule hosts_step.on_list) (simp add: hosts_init_def)
  moreover have "hosts_step ?s (hosts_on_group ''g'' (sample_group ''g'') ?s)"
    by (rule hosts_step.on_group) (simp add: hosts_init_def)
  ultimately have "hosts_reachable (hosts_on_group ''g'' (sample_group ''g'') ?s)" by auto
  from hosts_page_counts [OF this] show ?thesis
    by (auto simp: sample_defs getLevel_def hosts_init_def zero_counts_def bump_def num_at_def dest!: spec [of _ "''CRITICAL''"])
qed

text \<open>C2: one load of the hosts page, all of whose requests are answered, in any order, ends
  in a quiet state that shows each listed group exactly once, and whose counter of a level is
  the number of hosts of that level in the answers.\<close>

theorem hosts_page_complete:
  assumes "quiescent s" and "mset (map fst gs) = mset names"
  defines "t \<equiv> hosts_answers gs (hosts_on_list names (hosts_load s))"
  shows "hosts_step\<^sup>*\<^sup>* s t \<and> quiescent t \<and> map gr_Name (hc_groups t) = map (gr_Name \<circ> snd) gs \<and>
    num_at (hc_counts t) k = int (hosts_at k gs)"
proof -
  have "t = hosts_answers gs (hosts_loads 1 names s)" by (simp add: t_def hosts_loads_def)
  with overlapping_loads [OF assms(1), where n = 1 and gs = gs and names = names] assms(2)
  show ?thesis by simp
qed

definition quiet_hosts :: hosts_state where
  "quiet_hosts = hosts_on_list [] hosts_init"

theorem hosts_page_complete_witness:
  "num_at (hc_counts (hosts_answers [(''h'', sample_group ''h''), (''g'', sample_group ''g'')]
      (hosts_on_list [''g'', ''h''] (hosts_load quiet_hosts)))) ''OK'' = 2"
proof -
  have "quiescent quiet_hosts" by (simp add: quiescent_def quiet_hosts_def hosts_init_def)
  from hosts_page_complete [OF this, of "[(''h'', sample_group ''h''), (''g'', sample_group ''g'')]" "[''g'', ''h'']" "''OK''"]
  show ?thesis by (simp add: sample_defs getLevel_def)
qed




text \<open>in every reachable state of a group page the counters are numbers equal to the
  probes of that level on the hosts shown, each host carries its level and its own counters;
  without a group name nothing is requested and nothing shown.\<close>

theorem group_page_counts:
  assumes "group_reachable name s"
  shows "if falsy_string name then gc_hosts s = [] \<and> gc_gets s = 0
    else (\<exists>c. gc_counts s = Some c \<and> counts_ok level_keys c \<and>
       (\<forall>k. num_at c k = (\<Sum>h\<leftarrow>gc_hosts s. int (length (shown_probes h k))))) \<and>
       (\<forall>h \<in> set (gc_hosts s). host_ok h)"
  using group_reachable_inv [OF assms] group_reachable_name [OF assms] by (simp add: group_inv_def)

theorem group_page_counts_witness:
  "\<exists>c. gc_counts (group_on_group (sample_group ''g'') (group_init (Some ''g''))) = Some c \<and> num_at c ''CRITICAL'' = 1"
proof -
  have "group_reachable (Some ''g'') (group_on_group (sample_group ''g'') (group_init (Some ''g'')))"
    by (intro r_into_rtranclp group_step.on_group)
      (simp add: group_init_def group_load_def falsy_string_def Let_def)
  from group_page_counts [OF this] show ?thesis
    by (auto simp: falsy_string_def group_on_group_def group_init_def group_load_def Let_def sample_defs
        group_host_def level_probe_def shown_probes_def getLevel_def)
qed

text \<open>in every reachable state of a host page each counter equals the probes of that level
  on the page, and each probe shown carries the level of its own status.\<close>

theorem host_page_counts:
  assumes "host_reachable name s" and "\<not> falsy_string name"
  shows "(\<exists>c. pc_counts s = Some c \<and> counts_ok level_keys c \<and>
      (\<forall>k. num_at c k = int (length (filter (\<lambda>p. pr_Level p = Some k) (pc_probes s))))) \<and>
    (\<forall>p \<in> set (pc_probes s). pr_Level p = Some (getLevel (pr_Status p)))"
  using host_reachable_inv [OF assms(1)] host_reachable_name [OF assms(1)] assms(2)
  by (simp add: host_inv_def)

definition sample_wigo :: remote_wigo where
  "sample_wigo = \<lparr>rw_GlobalStatus = 250, rw_GlobalLevel = None, rw_LocalHost = Some
     \<lparr>lh_Status = 250, lh_Probes = Some [\<lparr>pr_Name = ''load'', pr_Status = 250, pr_Level = None\<rparr>], lh_Level = None\<rparr>\<rparr>"

theorem host_page_counts_witness:
  "\<exists>c. pc_counts (host_on_host sample_wigo (host_init (Some ''h''))) = Some c \<and> num_at c ''WARNING'' = 1"
proof -
  have r: "host_reachable (Some ''h'') (host_on_host sample_wigo (host_init (Some ''h'')))"
    by (intro r_into_rtranclp host_step.on_host)
      (simp add: host_init_def host_load_def falsy_string_def Let_def)
  have "\<not> falsy_string (Some ''h'')" by (simp add: falsy_string_def)
  from host_page_counts [OF r this] show ?thesis
    by (auto simp: falsy_string_def host_on_host_def host_init_def host_load_def Let_def sample_wigo_def
        level_probe_def getLevel_def)
qed

end
