(* ===== verification/Rest_Client.thy ===== *)
theory Rest_Client
  imports Wigo_Prelude
begin

text \<open>
  Request paths of the Restangular service (public/bower_components/restangular): an element
  is the chain of \<open>one(route, id)\<close> and \<open>all(route)\<close> calls that made it, and
  \<open>Path.prototype.base\<close> folds the chain into a URL path, with each id encoded by
  \<open>encodeURIComponent\<close>.  Strings are UTF-8 bytes, so percent-encoding is byte-wise.
\<close>

section \<open>Percent encoding\<close>

definition unreserved :: "char \<Rightarrow> bool" where
  "unreserved c \<longleftrightarrow> c \<in> set ''ABCDEFGHIJKLMNOPQRSTUVWXYZabcdefghijklmnopqrstuvwxyz0123456789-_.!~*()''
     \<or> c = CHR 0x27"

definition hex_char :: "nat \<Rightarrow> char" where
  "hex_char d = (if d < 10 then char_of (48 + d) else char_of (55 + d))"

definition hex_val :: "char \<Rightarrow> nat option" where
  "hex_val c = (let n = of_char c in
     if 48 \<le> n \<and> n \<le> 57 then Some (n - 48)
     else if 65 \<le> n \<and> n \<le> 70 then Some (n - 55)
     else if 97 \<le> n \<and> n \<le> 102 then Some (n - 87)
     else None)"

definition encode_char :: "char \<Rightarrow> string" where
  "encode_char c = (if unreserved c then [c]
     else [CHR ''%'', hex_char (of_char c div 16), hex_char (of_char c mod 16)])"

definition encodeURIComponent :: "string \<Rightarrow> string" where
  "encodeURIComponent s = concat (map encode_char s)"

text \<open>Decoding, as the server does; \<^const>\<open>None\<close> on a malformed escape.\<close>

fun uri_decode :: "string \<Rightarrow> string option" where
  "uri_decode [] = Some []"
| "uri_decode (c # cs) =
    (if c = CHR ''%'' then
       (case cs of
          a # b # r \<Rightarrow>
            (case (hex_val a, hex_val b) of
               (Some x, Some y) \<Rightarrow> map_option (Cons (char_of (16 * x + y))) (uri_decode r)
             | _ \<Rightarrow> None)
        | _ \<Rightarrow> None)
     else map_option (Cons c) (uri_decode cs))"

lemma hex_val_hex_char: "d < 16 \<Longrightarrow> hex_val (hex_char d) = Some d"
  by (auto simp: hex_val_def hex_char_def Let_def)

lemma of_char_less: "of_char c < (256 :: nat)"
  by (metis nat_of_char_less_256)

lemma of_char_nibbles: "of_char c div 16 < (16 :: nat)" "of_char c mod 16 < (16 :: nat)"
  using of_char_less [of c] by (simp_all add: less_mult_imp_div_less)

lemma hex_char_not_slash:
  assumes "d < 16"
  shows "hex_char d \<noteq> CHR ''/''"
proof
  assume "hex_char d = CHR ''/''"
  with hex_val_hex_char [OF assms] show False by (simp add: hex_val_def)
qed

lemma uri_decode_encode_char: "uri_decode (encode_char c @ s) = map_option (Cons c) (uri_decode s)"
proof (cases "unreserved c")
  case True
  then have "c \<noteq> CHR ''%''" by (auto simp: unreserved_def)
  with True show ?thesis by (simp add: encode_char_def)
next
  case False
  have "16 * (of_char c div 16) + of_char c mod 16 = (of_char c :: nat)" by simp
  with False of_char_nibbles [of c] show ?thesis
    by (simp add: encode_char_def hex_val_hex_char)
qed

lemma uri_decode_encode: "uri_decode (encodeURIComponent s @ t) = map_option (append s) (uri_decode t)"
  by (induction s)
    (auto simp: encodeURIComponent_def uri_decode_encode_char option.map_comp o_def option.map_ident)

lemma encode_char_no_slash: "CHR ''/'' \<notin> set (encode_char c)"
proof (cases "unreserved c")
  case True
  then have "c \<noteq> CHR ''/''" by (auto simp: unreserved_def)
  with True show ?thesis by (simp add: encode_char_def)
next
  case False
  with of_char_nibbles [of c] show ?thesis
    by (simp add: encode_char_def hex_char_not_slash [symmetric])
qed

lemma encode_no_slash: "CHR ''/'' \<notin> set (encodeURIComponent s)"
  by (auto simp: encodeURIComponent_def encode_char_no_slash)

section \<open>Element chains and their URLs\<close>

record rest_elem =
  re_route :: string
  re_id :: "string option"
  re_collection :: bool

text \<open>The chain from the root to the element (\<open>parentsArray\<close>); the service itself is \<open>[]\<close>.\<close>

type_synonym rest_path = "rest_elem list"

definition rest_one :: "rest_path \<Rightarrow> string \<Rightarrow> string option \<Rightarrow> rest_path" where
  "rest_one parent route i = parent @ [\<lparr>re_route = route, re_id = i, re_collection = False\<rparr>]"

definition rest_all :: "rest_path \<Rightarrow> string \<Rightarrow> rest_path" where
  "rest_all parent route = parent @ [\<lparr>re_route = route, re_id = None, re_collection = True\<rparr>]"

definition isValidId :: "string option \<Rightarrow> bool" where
  "isValidId i \<longleftrightarrow> i \<noteq> Some '''' \<and> i \<noteq> None"

definition setBaseUrl :: "string \<Rightarrow> string" where
  "setBaseUrl u = (if u \<noteq> [] \<and> last u = CHR ''/'' then butlast u else u)"

definition elem_url :: "rest_elem \<Rightarrow> string" where
  "elem_url e = (if \<not> re_collection e \<and> isValidId (re_id e)
     then re_route e @ ''/'' @ encodeURIComponent (the (re_id e)) else re_route e)"

text \<open>\<open>acum.replace(/\/$/, "") + "/" + elemUrl\<close>, reduced over the chain.\<close>

definition path_base :: "string \<Rightarrow> rest_path \<Rightarrow> string" where
  "path_base baseUrl p = foldl (\<lambda>acum e. setBaseUrl acum @ ''/'' @ elem_url e) baseUrl p"

text \<open>The base URL that app.js configures.\<close>

definition api_base :: string where
  "api_base = setBaseUrl ''/api''"

section \<open>Segments\<close>

text \<open>The path segments an element contributes.\<close>

definition elem_segments :: "rest_elem \<Rightarrow> string list" where
  "elem_segments e = (if \<not> re_collection e \<and> isValidId (re_id e)
     then [re_route e, the (re_id e)] else [re_route e])"

definition plain_segment :: "string \<Rightarrow> bool" where
  "plain_segment s \<longleftrightarrow> s \<noteq> [] \<and> CHR ''/'' \<notin> set s"

definition plain_path :: "rest_path \<Rightarrow> bool" where
  "plain_path p \<longleftrightarrow> (\<forall>e \<in> set p. plain_segment (re_route e) \<and> CHR ''%'' \<notin> set (re_route e) \<and>
     (\<forall>i. re_id e = Some i \<longrightarrow> CHR ''/'' \<notin> set i))"

lemma encode_nonempty: "s \<noteq> [] \<Longrightarrow> encodeURIComponent s \<noteq> []"
  by (cases s) (auto simp: encodeURIComponent_def encode_char_def)

lemma elem_url_ends:
  assumes "plain_path [e]"
  shows "elem_url e \<noteq> []" "last (elem_url e) \<noteq> CHR ''/''"
proof -
  have route: "re_route e \<noteq> []" "CHR ''/'' \<notin> set (re_route e)"
    using assms by (auto simp: plain_path_def plain_segment_def)
  show "elem_url e \<noteq> []" using route by (auto simp: elem_url_def)
  show "last (elem_url e) \<noteq> CHR ''/''"
  proof (cases "\<not> re_collection e \<and> isValidId (re_id e)")
    case True
    then obtain i where i: "re_id e = Some i" "i \<noteq> []" by (auto simp: isValidId_def)
    have "last (encodeURIComponent i) \<noteq> CHR ''/''"
      using last_in_set [OF encode_nonempty [OF i(2)]] encode_no_slash [of i] by metis
    with True i encode_nonempty [OF i(2)] show ?thesis
      by (auto simp: elem_url_def)
  next
    case False
    have "last (re_route e) \<noteq> CHR ''/''"
      using last_in_set [OF route(1)] route(2) by metis
    with False show ?thesis by (auto simp: elem_url_def)
  qed
qed

lemma setBaseUrl_id: "s \<noteq> [] \<Longrightarrow> last s \<noteq> CHR ''/'' \<Longrightarrow> setBaseUrl s = s"
  by (simp add: setBaseUrl_def)

lemma path_base_concat:
  "b \<noteq> [] \<Longrightarrow> last b \<noteq> CHR ''/'' \<Longrightarrow> plain_path p \<Longrightarrow>
    path_base b p = b @ concat (map (\<lambda>e. ''/'' @ elem_url e) p)"
proof (induction p arbitrary: b)
  case (Cons e p)
  have e: "plain_path [e]" and p: "plain_path p" using Cons.prems(3) by (auto simp: plain_path_def)
  note ends = elem_url_ends [OF e]
  have "path_base b (e # p) = path_base (b @ ''/'' @ elem_url e) p"
    using Cons.prems by (simp add: path_base_def setBaseUrl_id)
  also have "\<dots> = (b @ ''/'' @ elem_url e) @ concat (map (\<lambda>e. ''/'' @ elem_url e) p)"
    using ends by (intro Cons.IH p) auto
  finally show ?case by simp
qed (simp add: path_base_def)

lemma uri_decode_plain: "CHR ''%'' \<notin> set s \<Longrightarrow> uri_decode (s @ t) = map_option (append s) (uri_decode t)"
  by (cases "uri_decode t"; induction s) auto

lemma uri_decode_elem_url:
  assumes "plain_path [e]"
  shows "uri_decode (elem_url e @ t) =
    map_option (append (concat (map (\<lambda>s. s @ ''/'') (butlast (elem_segments e))) @ last (elem_segments e)))
      (uri_decode t)"
proof -
  have r: "CHR ''%'' \<notin> set (re_route e)" using assms by (auto simp: plain_path_def)
  show ?thesis
    using r by (cases "uri_decode t")
      (auto simp: elem_url_def elem_segments_def uri_decode_plain uri_decode_encode)
qed

lemma uri_decode_path:
  "plain_path p \<Longrightarrow> uri_decode (concat (map (\<lambda>e. ''/'' @ elem_url e) p)) =
    Some (concat (map (\<lambda>s. ''/'' @ s) (concat (map elem_segments p))))"
proof (induction p)
  case (Cons e p)
  have e: "plain_path [e]" and p: "plain_path p" using Cons.prems by (auto simp: plain_path_def)
  show ?case using Cons.IH [OF p]
    by (auto simp: uri_decode_elem_url [OF e] elem_segments_def)
qed simp

lemma split_on_segments:
  "\<forall>s \<in> set ss. c \<notin> set s \<Longrightarrow> split_on c (concat (map (\<lambda>s. c # s) ss)) = [] # ss"
proof (induction ss)
  case (Cons s ss)
  then show ?case
    by (cases ss) (auto simp: split_on_append_sep split_on_single)
qed simp

lemma elem_segments_plain: "plain_path p \<Longrightarrow> s \<in> set (concat (map elem_segments p)) \<Longrightarrow> CHR ''/'' \<notin> set s"
  by (auto simp: plain_path_def plain_segment_def elem_segments_def isValidId_def split: if_splits)

text \<open>The server, decoding the path and splitting it at slashes, finds the chain's own segments.\<close>

lemma path_segments:
  assumes "plain_path p"
  shows "map_option (split_on (CHR ''/'')) (uri_decode (path_base api_base p)) =
    Some ([] # ''api'' # concat (map elem_segments p))"
proof -
  have "path_base api_base p = ''/api'' @ concat (map (\<lambda>e. ''/'' @ elem_url e) p)"
    using path_base_concat [of "''/api''", OF _ _ assms] by (simp add: api_base_def setBaseUrl_id)
  then have "uri_decode (path_base api_base p) =
      Some (concat (map (\<lambda>s. CHR ''/'' # s) (''api'' # concat (map elem_segments p))))"
    using uri_decode_plain [of "''/api''"] uri_decode_path [OF assms] by simp
  moreover have "\<forall>s \<in> set (''api'' # concat (map elem_segments p)). CHR ''/'' \<notin> set s"
    using elem_segments_plain [OF assms] by auto
  ultimately show ?thesis by (simp only: split_on_segments option.simps)
qed

section \<open>Properties\<close>

text \<open>for every chain of routes and ids without slashes in the ids, the URL the client
  builds decodes, and splits at slashes, to exactly the chain's segments below \<open>/api\<close>: no id,
  whatever characters it has, can add, drop or alter a path segment.  \<open>encodeURIComponent\<close>
  itself is inverted by decoding on every string.\<close>

theorem url_segments_roundtrip:
  assumes "plain_path p"
  shows "map_option (split_on (CHR ''/'')) (uri_decode (path_base api_base p)) =
      Some ([] # ''api'' # concat (map elem_segments p)) \<and>
    uri_decode (encodeURIComponent s) = Some s"
  using path_segments [OF assms] uri_decode_encode [of s "[]"] by simp

theorem url_segments_roundtrip_witness:
  "map_option (split_on (CHR ''/'')) (uri_decode (path_base api_base
      (rest_all (rest_one [] ''hosts'' (Some ''a?b%2F c'')) ''logs''))) =
    Some [[], ''api'', ''hosts'', ''a?b%2F c'', ''logs'']"
proof -
  have "plain_path (rest_all (rest_one [] ''hosts'' (Some ''a?b%2F c'')) ''logs'')"
    by (simp add: plain_path_def rest_all_def rest_one_def plain_segment_def)
  from url_segments_roundtrip [OF this] show ?thesis
    by (simp add: rest_all_def rest_one_def elem_segments_def isValidId_def)
qed

end
