(* ===== verification/Api_Server.thy ===== *)
theory Api_Server
  imports Rest_Client "HOL-Library.Word"
begin

text \<open>
  The part of the server the web client talks to: the route table of src/wigo.go and the
  log search handler of src/wigo/http.go.  The router itself (martini) is a third-party
  package: the table is data here, the router a parameter, and \<open>martini_router\<close> states what is
  relied on: which paths a pattern matches, and with which parameters.
\<close>

datatype verb = GET | POST

datatype handler =
    H_Root | H_Status | HttpLogsHandler | HttpLogsIndexesHandler | HttpGroupsHandler
  | HttpRemotesHandler | HttpRemotesStatusHandler | HttpRemotesProbesHandler
  | HttpRemotesProbesStatusHandler | HttpAuthorityListHandler | HttpAuthorityAllowHandler
  | HttpAuthorityRevokeHandler

definition api_routes :: "(verb \<times> string \<times> handler) list" where
  "api_routes =
    [(GET, ''/api'', H_Root),
     (GET, ''/api/status'', H_Status),
     (GET, ''/api/logs'', HttpLogsHandler),
     (GET, ''/api/logs/indexes'', HttpLogsIndexesHandler),
     (GET, ''/api/groups'', HttpGroupsHandler),
     (GET, ''/api/groups/:group'', HttpGroupsHandler),
     (GET, ''/api/groups/:group/logs'', HttpLogsHandler),
     (GET, ''/api/groups/:group/probes/:probe/logs'', HttpLogsHandler),
     (GET, ''/api/hosts'', HttpRemotesHandler),
     (GET, ''/api/hosts/:hostname'', HttpRemotesHandler),
     (GET, ''/api/hosts/:hostname/status'', HttpRemotesStatusHandler),
     (GET, ''/api/hosts/:hostname/logs'', HttpLogsHandler),
     (GET, ''/api/hosts/:hostname/probes'', HttpRemotesProbesHandler),
     (GET, ''/api/hosts/:hostname/probes/:probe'', HttpRemotesProbesHandler),
     (GET, ''/api/hosts/:hostname/probes/:probe/status'', HttpRemotesProbesStatusHandler),
     (GET, ''/api/hosts/:hostname/probes/:probe/logs'', HttpLogsHandler),
     (GET, ''/api/probes/:probe/logs'', HttpLogsHandler),
     (GET, ''/api/authority/hosts'', HttpAuthorityListHandler),
     (POST, ''/api/authority/hosts/:uuid/allow'', HttpAuthorityAllowHandler),
     (POST, ''/api/authority/hosts/:uuid/revoke'', HttpAuthorityRevokeHandler)]"

section \<open>The router\<close>

text \<open>The segments of a pattern, with its \<open>:name\<close> segments replaced by their values.\<close>

definition fill_segment :: "string js_obj \<Rightarrow> string \<Rightarrow> string" where
  "fill_segment params s = (case s of
       [] \<Rightarrow> []
     | c # name \<Rightarrow> if c = CHR '':'' then (case js_get params name of None \<Rightarrow> s | Some v \<Rightarrow> v) else s)"

definition fill_pattern :: "string js_obj \<Rightarrow> string \<Rightarrow> string list" where
  "fill_pattern params pattern = map (fill_segment params) (split_on (CHR ''/'') pattern)"

definition is_param :: "string \<Rightarrow> bool" where
  "is_param s \<longleftrightarrow> s \<noteq> [] \<and> hd s = CHR '':''"

definition segment_names :: "string list \<Rightarrow> string list" where
  "segment_names ss = map tl (filter is_param ss)"

text \<open>A parameter stands for a nonempty text without slash, number sign and question mark.\<close>

definition param_text :: "string \<Rightarrow> bool" where
  "param_text v \<longleftrightarrow> v \<noteq> [] \<and> CHR ''/'' \<notin> set v \<and> CHR ''#'' \<notin> set v \<and> CHR ''?'' \<notin> set v"

text \<open>From a pattern and a decoded path to the parameters.\<close>

type_synonym router = "string \<Rightarrow> string \<Rightarrow> string js_obj option"

text \<open>A pattern matches a path whose segments are its own with the parameters put in, and nothing
  else but the same with a slash at the end.\<close>

definition martini_router :: "router \<Rightarrow> bool" where
  "martini_router R \<longleftrightarrow> (\<forall>pattern path params. distinct (segment_names (split_on (CHR ''/'') pattern)) \<longrightarrow>
     (map fst params = segment_names (split_on (CHR ''/'') pattern) \<and> list_all (param_text \<circ> snd) params \<and>
        split_on (CHR ''/'') path = fill_pattern params pattern \<longrightarrow> R pattern path = Some params) \<and>
     (R pattern path = Some params \<longrightarrow> list_all (param_text \<circ> snd) params \<and>
        (split_on (CHR ''/'') path = fill_pattern params pattern \<or>
         split_on (CHR ''/'') path = fill_pattern params pattern @ [[]])))"

text \<open>The first route of the table whose verb and pattern match.\<close>

fun dispatch :: "router \<Rightarrow> (verb \<times> string \<times> handler) list \<Rightarrow> verb \<Rightarrow> string \<Rightarrow> (handler \<times> string js_obj) option" where
  "dispatch R [] v path = None"
| "dispatch R ((v', pattern, h) # rs) v path =
    (if v' = v then (case R pattern path of Some params \<Rightarrow> Some (h, params) | None \<Rightarrow> dispatch R rs v path)
     else dispatch R rs v path)"

definition served_by :: "router \<Rightarrow> verb \<Rightarrow> string \<Rightarrow> string js_obj \<Rightarrow> handler \<Rightarrow> bool" where
  "served_by R v path params h \<longleftrightarrow> (case uri_decode path of
      None \<Rightarrow> False
    | Some p \<Rightarrow> dispatch R api_routes v p = Some (h, params))"

text \<open>Segments a pattern could match, whatever its parameters.\<close>

fun segments_fit :: "string list \<Rightarrow> string list \<Rightarrow> bool" where
  "segments_fit [] [] = True"
| "segments_fit (s # ss) (x # xs) = ((is_param s \<or> s = x) \<and> segments_fit ss xs)"
| "segments_fit ss xs = False"

lemma fill_fits: "segments_fit ss (map (fill_segment params) ss)"
  by (induction ss) (auto simp: fill_segment_def is_param_def split: list.splits)

lemma routes_distinct: "list_all (\<lambda>(v, pattern, h). distinct (segment_names (split_on (CHR ''/'') pattern))) api_routes"
  by code_simp

lemma dispatch_params:
  assumes "dispatch R rs v path = Some (h, params)"
  shows "\<exists>pattern. (v, pattern, h) \<in> set rs \<and> R pattern path = Some params"
  using assms by (induction rs) (auto split: if_splits option.splits)

lemma dispatch_only:
  assumes "(v, pattern, h) \<in> set rs" "R pattern path = Some params"
    and "list_all (\<lambda>(v', pattern', h'). v' = v \<and> R pattern' path \<noteq> None \<longrightarrow> pattern' = pattern \<and> h' = h) rs"
  shows "dispatch R rs v path = Some (h, params)"
  using assms by (induction rs) (auto split: option.splits if_splits)

lemma served_params:
  assumes "martini_router R" "served_by R v path params h"
  shows "list_all (param_text \<circ> snd) params"
proof -
  from assms(2) obtain p pattern where "(v, pattern, h) \<in> set api_routes" "R pattern p = Some params"
    by (auto simp: served_by_def dest: dispatch_params split: option.splits)
  moreover from this routes_distinct have "distinct (segment_names (split_on (CHR ''/'') pattern))"
    by (auto simp: list_all_iff)
  ultimately show ?thesis using assms(1) unfolding martini_router_def by blast
qed

text \<open>A route serves what fills it, when no other route of the table could.\<close>

lemma served_byI:
  assumes "martini_router R" "(v, pattern, h) \<in> set api_routes"
    and path: "map_option (split_on (CHR ''/'')) (uri_decode path) = Some (fill_pattern params pattern)"
    and params: "map fst params = segment_names (split_on (CHR ''/'') pattern)" "list_all (param_text \<circ> snd) params"
    and last: "last (fill_pattern params pattern) \<noteq> []"
    and only: "list_all (\<lambda>(v', pattern', h'). v' = v \<and> segments_fit (split_on (CHR ''/'') pattern') (fill_pattern params pattern)
      \<longrightarrow> pattern' = pattern \<and> h' = h) api_routes"
  shows "served_by R v path params h"
proof -
  from path obtain p where p: "uri_decode path = Some p" "split_on (CHR ''/'') p = fill_pattern params pattern" by auto
  have distinct: "distinct (segment_names (split_on (CHR ''/'') q))" if "(w, q, k) \<in> set api_routes" for w q k
    using routes_distinct that by (auto simp: list_all_iff)
  have "R pattern p = Some params"
    using assms(1) distinct [OF assms(2)] params p(2) unfolding martini_router_def by blast
  moreover have "pattern' = pattern \<and> h' = h" if r: "(v, pattern', h') \<in> set api_routes" "R pattern' p = Some ps" for pattern' h' ps
  proof -
    have "split_on (CHR ''/'') p = fill_pattern ps pattern' \<or> split_on (CHR ''/'') p = fill_pattern ps pattern' @ [[]]"
      using assms(1) distinct [OF r(1)] r(2) unfolding martini_router_def by blast
    with last p(2) have "fill_pattern params pattern = fill_pattern ps pattern'" by auto
    then have "segments_fit (split_on (CHR ''/'') pattern') (fill_pattern params pattern)"
      using fill_fits [of "split_on (CHR ''/'') pattern'" ps] by (simp add: fill_pattern_def)
    with only r(1) show ?thesis by (auto simp: list_all_iff)
  qed
  ultimately have "dispatch R api_routes v p = Some (h, params)"
    by (intro dispatch_only [OF assms(2)]) (auto simp: list_all_iff)
  with p show ?thesis by (simp add: served_by_def)
qed

text \<open>A router of this kind, for the examples.\<close>

fun match_segments :: "string list \<Rightarrow> string list \<Rightarrow> string js_obj option" where
  "match_segments [] [] = Some []"
| "match_segments (s # ss) (x # xs) =
    (if is_param s then (if param_text x then map_option (Cons (tl s, x)) (match_segments ss xs) else None)
     else if s = x then match_segments ss xs else None)"
| "match_segments ss xs = None"

definition plain_router :: router where
  "plain_router pattern path = match_segments (split_on (CHR ''/'') pattern) (split_on (CHR ''/'') path)"

lemma segment_names_simps [simp]:
  "segment_names [] = []" "segment_names (s # ss) = (if is_param s then tl s # segment_names ss else segment_names ss)"
  by (simp_all add: segment_names_def)

lemma fill_segment_simps:
  "\<not> is_param s \<Longrightarrow> fill_segment ps s = s" "is_param s \<Longrightarrow> fill_segment ((tl s, v) # ps) s = v"
  by (auto simp: fill_segment_def is_param_def split: list.splits)

lemma fill_segment_other: "is_param s \<longrightarrow> tl s \<noteq> n \<Longrightarrow> fill_segment ((n, v) # ps) s = fill_segment ps s"
  by (auto simp: fill_segment_def is_param_def split: list.splits)

lemma fill_segments_other:
  "n \<notin> set (segment_names ss) \<Longrightarrow> map (fill_segment ((n, v) # ps)) ss = map (fill_segment ps) ss"
  by (auto simp: segment_names_def intro!: fill_segment_other)

lemma match_filled:
  "distinct (segment_names ss) \<Longrightarrow> map fst ps = segment_names ss \<Longrightarrow> list_all (param_text \<circ> snd) ps \<Longrightarrow>
    match_segments ss (map (fill_segment ps) ss) = Some ps"
proof (induction ss arbitrary: ps)
  case (Cons s ss)
  show ?case
  proof (cases "is_param s")
    case True
    with Cons.prems obtain v qs where ps: "ps = (tl s, v) # qs" by (cases ps) auto
    with True Cons show ?thesis by (simp add: fill_segment_simps fill_segments_other)
  qed (use Cons in \<open>simp add: fill_segment_simps\<close>)
qed simp

lemma match_fills:
  "match_segments ss xs = Some ps \<Longrightarrow> distinct (segment_names ss) \<Longrightarrow>
    map fst ps = segment_names ss \<and> list_all (param_text \<circ> snd) ps \<and> xs = map (fill_segment ps) ss"
proof (induction ss xs arbitrary: ps rule: match_segments.induct)
  case (2 s ss x xs)
  show ?case
  proof (cases "is_param s")
    case True
    with 2 obtain qs where "ps = (tl s, x) # qs" "param_text x" "match_segments ss xs = Some qs" by (auto split: if_splits)
    with True 2 show ?thesis by (simp add: fill_segment_simps fill_segments_other)
  qed (use 2 in \<open>auto simp: fill_segment_simps split: if_splits\<close>)
qed auto

lemma plain_router: "martini_router plain_router"
  unfolding martini_router_def plain_router_def fill_pattern_def using match_filled match_fills by auto

section \<open>HttpLogsHandler\<close>

text \<open>Go's \<open>strconv.Atoi\<close>: an optional sign and decimal digits, within 64 bits.\<close>

definition atoi :: "string \<Rightarrow> int option" where
  "atoi s =
    (let (neg, ds) = (case s of
        [] \<Rightarrow> (False, [])
      | c # r \<Rightarrow> if c = CHR ''-'' then (True, r) else if c = CHR ''+'' then (False, r) else (False, s));
         v = (if neg then - int (read_digits ds) else int (read_digits ds))
     in if ds \<noteq> [] \<and> list_all is_digit ds \<and> - (2 ^ 63) \<le> v \<and> v < 2 ^ 63 then Some v else None)"

record log_search =
  ls_probe :: string
  ls_hostname :: string
  ls_group :: string
  ls_limit :: "64 word"
  ls_offset :: "64 word"

definition query_first :: "string js_obj \<Rightarrow> string \<Rightarrow> string" where
  "query_first pq k = (case js_get pq k of None \<Rightarrow> '''' | Some v \<Rightarrow> v)"

definition query_int :: "string js_obj \<Rightarrow> string \<Rightarrow> int \<Rightarrow> int" where
  "query_int pq k dflt = (case js_get pq k of None \<Rightarrow> dflt
     | Some v \<Rightarrow> (case atoi v of None \<Rightarrow> dflt | Some i \<Rightarrow> i))"

text \<open>
  The handler up to \<open>SearchLogs\<close>: an HTTP error, or the arguments of the search.  The
  remote wigos and their probes are parameters; \<open>params\<close> holds the values the router took
  from the path, \<open>pq\<close> the parsed query string.
\<close>

definition http_logs_handler ::
  "(string \<Rightarrow> 'w option) \<Rightarrow> ('w \<Rightarrow> string \<Rightarrow> bool) \<Rightarrow> string js_obj \<Rightarrow> string js_obj \<Rightarrow>
     (nat \<times> string) + log_search" where
  "http_logs_handler find_remote has_probe params pq =
    (let hostname = query_first pq ''hostname'';
         probeName = query_first pq ''probe'';
         grp = query_first pq ''group'';
         limit = query_int pq ''limit'' 100;
         offset = query_int pq ''offset'' 0;
         ok = Inr \<lparr>ls_probe = probeName, ls_hostname = hostname, ls_group = grp,
                ls_limit = word_of_int limit, ls_offset = word_of_int offset\<rparr>
     in if hostname \<noteq> [] then
          (case find_remote hostname of
             None \<Rightarrow> Inl (404, ''Remote wigo '' @ hostname @ '' not found'')
           | Some w \<Rightarrow>
               if probeName \<noteq> [] \<and> \<not> has_probe w probeName
               then Inl (404, ''Probe '' @ probeName @ '' not found in remote wigo '' @ hostname)
               else ok)
        else ok)"

lemma atoi_show_nat:
  assumes "n < 2 ^ 63"
  shows "atoi (show_nat n) = Some (int n)"
proof -
  obtain c r where s: "show_nat n = c # r" by (cases "show_nat n") (auto simp: show_nat_nonempty)
  with show_nat_digits [of n] have "is_digit c" by simp
  then have "c \<noteq> CHR ''-''" "c \<noteq> CHR ''+''" by (auto simp: is_digit_def)
  moreover have "int n < 2 ^ 63" using assms by simp
  ultimately show ?thesis
    using s show_nat_digits [of n] read_show_nat [of n] by (auto simp: atoi_def Let_def)
qed

lemma atoi_show_int: "0 \<le> i \<Longrightarrow> i < 2 ^ 63 \<Longrightarrow> atoi (show_int i) = Some i"
  using atoi_show_nat [of "nat i"] by (simp add: show_int_def nat_less_iff)

lemma http_logs_handler_no_host:
  "query_first pq ''hostname'' = '''' \<Longrightarrow>
   http_logs_handler find_remote has_probe params pq =
     Inr \<lparr>ls_probe = query_first pq ''probe'', ls_hostname = '''', ls_group = query_first pq ''group'',
          ls_limit = word_of_int (query_int pq ''limit'' 100), ls_offset = word_of_int (query_int pq ''offset'' 0)\<rparr>"
  by (simp add: http_logs_handler_def)

end
