(* ===== verification/Pager_Spec.thy ===== *)
theory Pager_Spec
  imports Wigo_Prelude
begin

text \<open>
  The contract of a paged view: an offset that moves by whole pages.  The log page of the
  web client and the table engine both provide it; the facts below are proved once from the
  contract and reach both by interpretation.
\<close>

locale pager =
  fixes ok :: "'s \<Rightarrow> bool"
    and offset :: "'s \<Rightarrow> int"
    and size :: "'s \<Rightarrow> int"
    and prev :: "'s \<Rightarrow> 's"
    and nxt :: "'s \<Rightarrow> 's"
  assumes size_pos: "ok s \<Longrightarrow> 0 < size s"
    and offset_nonneg: "ok s \<Longrightarrow> 0 \<le> offset s"
    and offset_aligned: "ok s \<Longrightarrow> size s dvd offset s"
    and ok_prev: "ok s \<Longrightarrow> ok (prev s)"
    and ok_next: "ok s \<Longrightarrow> ok (nxt s)"
    and size_prev: "ok s \<Longrightarrow> size (prev s) = size s"
    and size_next: "ok s \<Longrightarrow> size (nxt s) = size s"
    and offset_prev: "ok s \<Longrightarrow> offset (prev s) = max 0 (offset s - size s)"
    and offset_next: "ok s \<Longrightarrow> offset (nxt s) = offset s \<or> offset (nxt s) = offset s + size s"
begin

definition page :: "'s \<Rightarrow> int" where
  "page s = offset s div size s"

lemma page_offset: "ok s \<Longrightarrow> offset s = page s * size s"
  using offset_aligned by (simp add: page_def)

lemma page_nonneg: "ok s \<Longrightarrow> 0 \<le> page s"
  using offset_nonneg size_pos by (simp add: page_def pos_imp_zdiv_nonneg_iff)

lemma page_prev: "ok s \<Longrightarrow> page (prev s) = max 0 (page s - 1)"
proof -
  assume s: "ok s"
  note p = page_nonneg [OF s] and q = size_pos [OF s]
  show ?thesis
  proof (cases "page s = 0")
    case True
    then have "offset s = 0" using page_offset [OF s] by simp
    with True q show ?thesis by (simp add: page_def offset_prev [OF s] size_prev [OF s])
  next
    case False
    with p have "1 \<le> page s" by simp
    then have "size s \<le> page s * size s" using q by (simp add: mult_le_cancel_right1)
    then have "offset (prev s) = (page s - 1) * size s"
      using page_offset [OF s] by (simp add: offset_prev [OF s] left_diff_distrib)
    with q False p show ?thesis
      by (simp add: page_def [of "prev s"] size_prev [OF s])
  qed
qed

text \<open>Going back undoes a step forward that moved.\<close>

lemma prev_next:
  assumes "ok s" "offset (nxt s) \<noteq> offset s"
  shows "offset (prev (nxt s)) = offset s"
  using offset_prev [OF ok_next [OF assms(1)]] offset_next [OF assms(1)] assms
    offset_nonneg [OF assms(1)] size_next [OF assms(1)] by auto

lemma ok_prevs: "ok s \<Longrightarrow> ok ((prev ^^ n) s)"
  by (induction n) (auto intro: ok_prev)

lemma page_prevs: "ok s \<Longrightarrow> page ((prev ^^ n) s) = max 0 (page s - int n)"
  by (induction n) (auto simp: page_prev ok_prevs page_nonneg max_def)

text \<open>Enough steps back reach the first page, whatever the start.\<close>

lemma prevs_reach_start:
  assumes "ok s"
  shows "offset ((prev ^^ nat (page s)) s) = 0"
proof -
  have "page ((prev ^^ nat (page s)) s) = 0"
    using page_prevs [OF assms] page_nonneg [OF assms] by simp
  then show ?thesis using page_offset [OF ok_prevs [OF assms]] by simp
qed

end

end
