(* ===== verification/App_Logs.thy ===== *)
theory App_Logs
  imports App_Status Api_Server Pager_Spec
begin

text \<open>
  The log page (\<open>LogsCtrl\<close> of public/js/app.js): a menu of filters mirrored in the URL, a
  page of 100 entries, and one pair of requests per \<open>load\<close>.
\<close>

record request =
  rq_verb :: verb
  rq_path :: string
  rq_params :: "string js_obj"

record log_menu =
  m_level :: string
  m_group :: "string option"
  m_host :: "string option"
  m_probe :: "string option"

record log_indexes =
  ix_probes :: "string list"
  ix_hosts :: "string list"
  ix_groups :: "string list"

record logs_state =
  lc_title :: "string option"
  lc_menu :: log_menu
  lc_offset :: int
  lc_limit :: int
  lc_logs :: "log_entry list option"
  lc_indexes :: "log_indexes option"
  lc_search :: "string js_obj"        \<comment> \<open>\<open>$location.search()\<close>\<close>
  lc_pending :: "request list"        \<comment> \<open>log requests not answered yet, oldest first\<close>
  lc_index_pending :: nat

text \<open>\<open>if ($scope.menu.x)\<close> for a string that may be undefined.\<close>

abbreviation truthy :: "string option \<Rightarrow> bool" where
  "truthy x \<equiv> \<not> falsy_string x"

definition logs_path :: "log_menu \<Rightarrow> rest_path" where
  "logs_path m =
    (let p = (if truthy (m_host m) then rest_one [] ''hosts'' (m_host m)
              else if truthy (m_group m) then rest_one [] ''groups'' (m_group m) else []);
         q = (if truthy (m_probe m) then rest_one p ''probes'' (m_probe m) else p)
     in rest_all q ''logs'')"

definition logs_request :: "logs_state \<Rightarrow> request" where
  "logs_request s = \<lparr>rq_verb = GET, rq_path = path_base api_base (logs_path (lc_menu s)),
     rq_params = [(''offset'', show_int (lc_offset s)), (''limit'', show_int (lc_limit s))]\<rparr>"

definition indexes_request :: request where
  "indexes_request = \<lparr>rq_verb = GET,
     rq_path = path_base api_base (rest_one (rest_all [] ''logs'') ''indexes'' None), rq_params = []\<rparr>"

definition logs_load :: "logs_state \<Rightarrow> logs_state" where
  "logs_load s = s\<lparr>lc_pending := lc_pending s @ [logs_request s],
     lc_index_pending := Suc (lc_index_pending s)\<rparr>"

text \<open>The controller's body and \<open>init\<close>, for the search part of the URL it starts with.\<close>

definition logs_init :: "string js_obj \<Rightarrow> logs_state" where
  "logs_init search = logs_load
    \<lparr>lc_title = Some ''Logs'',
     lc_menu = \<lparr>m_level = ''OK'', m_group = js_get search ''group'', m_host = js_get search ''host'',
       m_probe = js_get search ''probe''\<rparr>,
     lc_offset = 0, lc_limit = 100, lc_logs = None, lc_indexes = None, lc_search = search,
     lc_pending = [], lc_index_pending = 0\<rparr>"

text \<open>\<open>$location.search(obj)\<close> drops the properties that are null or undefined.\<close>

definition search_of :: "(string \<times> string option) list \<Rightarrow> string js_obj" where
  "search_of kvs = [(k, v). (k, Some v) \<leftarrow> kvs]"

definition updateUrl :: "logs_state \<Rightarrow> logs_state" where
  "updateUrl s = s\<lparr>lc_search := search_of
     [(''group'', m_group (lc_menu s)), (''host'', m_host (lc_menu s)), (''probe'', m_probe (lc_menu s))]\<rparr>"

definition set_group :: "string option \<Rightarrow> logs_state \<Rightarrow> logs_state" where
  "set_group g s = updateUrl (logs_load (s\<lparr>lc_menu := (lc_menu s)\<lparr>m_group := g\<rparr>\<rparr>))"

definition set_host :: "string option \<Rightarrow> logs_state \<Rightarrow> logs_state" where
  "set_host h s = updateUrl (logs_load (s\<lparr>lc_menu := (lc_menu s)\<lparr>m_host := h\<rparr>\<rparr>))"

definition set_probe :: "string option \<Rightarrow> logs_state \<Rightarrow> logs_state" where
  "set_probe p s = updateUrl (logs_load (s\<lparr>lc_menu := (lc_menu s)\<lparr>m_probe := p\<rparr>\<rparr>))"

text \<open>\<open>delete $scope.menu.x\<close>: the property reads as undefined from then on.\<close>

definition remove_group :: "logs_state \<Rightarrow> logs_state" where
  "remove_group s = updateUrl (logs_load (s\<lparr>lc_menu := (lc_menu s)\<lparr>m_group := None\<rparr>\<rparr>))"

definition remove_host :: "logs_state \<Rightarrow> logs_state" where
  "remove_host s = updateUrl (logs_load (s\<lparr>lc_menu := (lc_menu s)\<lparr>m_host := None\<rparr>\<rparr>))"

definition remove_probe :: "logs_state \<Rightarrow> logs_state" where
  "remove_probe s = updateUrl (logs_load (s\<lparr>lc_menu := (lc_menu s)\<lparr>m_probe := None\<rparr>\<rparr>))"

definition logs_prev :: "logs_state \<Rightarrow> logs_state" where
  "logs_prev s = (if lc_offset s < lc_limit s then s
     else logs_load (s\<lparr>lc_offset := lc_offset s - lc_limit s\<rparr>))"

definition logs_next :: "logs_state \<Rightarrow> logs_state" where
  "logs_next s = logs_load (s\<lparr>lc_offset := lc_offset s + lc_limit s\<rparr>)"

definition logs_on_logs :: "request \<Rightarrow> log_entry list \<Rightarrow> logs_state \<Rightarrow> logs_state" where
  "logs_on_logs r ls s = s\<lparr>lc_logs := Some ls, lc_pending := remove1 r (lc_pending s)\<rparr>"

definition logs_on_indexes :: "log_indexes \<Rightarrow> logs_state \<Rightarrow> logs_state" where
  "logs_on_indexes ix s = s\<lparr>lc_indexes := Some ix, lc_index_pending := lc_index_pending s - 1\<rparr>"

text \<open>The steps of the page.  Choosing a level in the menu only changes the view (\<open>ng-model="menu.level"\<close>).\<close>

inductive logs_own_step :: "logs_state \<Rightarrow> logs_state \<Rightarrow> bool" where
  load: "logs_own_step s (logs_load s)"
| set_group: "logs_own_step s (set_group g s)"
| set_host: "logs_own_step s (set_host h s)"
| set_probe: "logs_own_step s (set_probe p s)"
| remove_group: "logs_own_step s (remove_group s)"
| remove_host: "logs_own_step s (remove_host s)"
| remove_probe: "logs_own_step s (remove_probe s)"
| prev: "logs_own_step s (logs_prev s)"
| nxt: "logs_own_step s (logs_next s)"
| level: "logs_own_step s (s\<lparr>lc_menu := (lc_menu s)\<lparr>m_level := l\<rparr>\<rparr>)"
| on_logs: "r \<in> set (lc_pending s) \<Longrightarrow> logs_own_step s (logs_on_logs r ls s)"
| on_indexes: "0 < lc_index_pending s \<Longrightarrow> logs_own_step s (logs_on_indexes ix s)"

text \<open>The menu operations, which write the URL.\<close>

inductive logs_menu_step :: "logs_state \<Rightarrow> logs_state \<Rightarrow> bool" where
  set_group: "logs_menu_step s (set_group g s)"
| set_host: "logs_menu_step s (set_host h s)"
| set_probe: "logs_menu_step s (set_probe p s)"
| remove_group: "logs_menu_step s (remove_group s)"
| remove_host: "logs_menu_step s (remove_host s)"
| remove_probe: "logs_menu_step s (remove_probe s)"

text \<open>The browser's Back and Forward, or a URL typed in: the route has \<open>reloadOnSearch: false\<close> and the controller does
  not listen, so only the search object of \<open>$location\<close> changes.\<close>

definition url_changed :: "string js_obj \<Rightarrow> logs_state \<Rightarrow> logs_state" where
  "url_changed search s = s\<lparr>lc_search := search\<rparr>"

inductive logs_step :: "logs_state \<Rightarrow> logs_state \<Rightarrow> bool" where
  own: "logs_own_step s t \<Longrightarrow> logs_step s t"
| history: "logs_step s (url_changed search s)"

lemmas logs_defs = logs_load_def logs_init_def updateUrl_def set_group_def set_host_def set_probe_def
  remove_group_def remove_host_def remove_probe_def logs_prev_def logs_next_def logs_on_logs_def
  logs_on_indexes_def

abbreviation logs_reachable :: "string js_obj \<Rightarrow> logs_state \<Rightarrow> bool" where
  "logs_reachable search s \<equiv> logs_step\<^sup>*\<^sup>* (logs_init search) s"

section \<open>Invariants\<close>

definition logs_ok :: "logs_state \<Rightarrow> bool" where
  "logs_ok s \<longleftrightarrow> lc_limit s = 100 \<and> 0 \<le> lc_offset s \<and> lc_limit s dvd lc_offset s"

lemma logs_ok_init: "logs_ok (logs_init search)"
  by (simp add: logs_ok_def logs_defs)

lemma logs_ok_own: "logs_own_step s t \<Longrightarrow> logs_ok s \<Longrightarrow> logs_ok t"
  by (induction rule: logs_own_step.induct) (auto simp: logs_ok_def logs_defs)

lemma logs_ok_step: "logs_step s t \<Longrightarrow> logs_ok s \<Longrightarrow> logs_ok t"
  by (induction rule: logs_step.induct) (blast intro: logs_ok_own, auto simp: logs_ok_def url_changed_def)

lemma logs_reachable_ok: "logs_reachable search s \<Longrightarrow> logs_ok s"
  by (induction rule: rtranclp_induct) (auto simp: logs_ok_init intro: logs_ok_step)

interpretation logs_pager: pager logs_ok lc_offset lc_limit logs_prev logs_next
proof unfold_locales
  fix s assume ok: "logs_ok s"
  then show "lc_offset (logs_prev s) = max 0 (lc_offset s - lc_limit s)"
    by (auto simp: logs_ok_def logs_defs elim!: dvdE)
qed (auto simp: logs_ok_def logs_defs)

section \<open>Requests and the server's routes\<close>

text \<open>The path parameters the route of the request carries: a host wins over a group.\<close>

definition menu_params :: "log_menu \<Rightarrow> string js_obj" where
  "menu_params m =
    (if truthy (m_host m) then [(''hostname'', the (m_host m))]
     else if truthy (m_group m) then [(''group'', the (m_group m))] else []) @
    (if truthy (m_probe m) then [(''probe'', the (m_probe m))] else [])"

lemma truthyE:
  assumes "truthy x"
  obtains v where "x = Some v" "v \<noteq> []" "isValidId x"
  using assms that by (cases x) (auto simp: falsy_string_def isValidId_def)












text \<open>What the handler searches for, whatever the path parameters are.\<close>

lemma logs_request_search:
  assumes "logs_ok s" "lc_offset s < 2 ^ 63"
  shows "http_logs_handler find_remote has_probe params (rq_params (logs_request s)) =
    Inr \<lparr>ls_probe = '''', ls_hostname = '''', ls_group = '''', ls_limit = 100,
         ls_offset = word_of_int (lc_offset s)\<rparr>"
proof -
  have "query_first (rq_params (logs_request s)) k = ''''" if "k \<noteq> ''offset''" "k \<noteq> ''limit''" for k
    using that by (simp add: query_first_def logs_request_def)
  moreover have "query_int (rq_params (logs_request s)) ''limit'' 100 = 100"
    using assms(1) by (simp add: query_int_def logs_request_def logs_ok_def atoi_show_int)
  moreover have "query_int (rq_params (logs_request s)) ''offset'' 0 = lc_offset s"
    using assms by (simp add: query_int_def logs_request_def logs_ok_def atoi_show_int)
  ultimately show ?thesis by (subst http_logs_handler_no_host) simp_all
qed

section \<open>Menu and URL\<close>

lemma search_of_simps [simp]:
  "search_of [] = []"
  "search_of ((k, v) # r) = (case v of None \<Rightarrow> search_of r | Some x \<Rightarrow> (k, x) # search_of r)"
  by (simp_all add: search_of_def split: option.splits)

text \<open>The menu entries the URL of a state stands for.\<close>

definition url_menu :: "string js_obj \<Rightarrow> string option \<times> string option \<times> string option" where
  "url_menu u = (js_get u ''group'', js_get u ''host'', js_get u ''probe'')"

definition in_url :: "logs_state \<Rightarrow> bool" where
  "in_url s \<longleftrightarrow> url_menu (lc_search s) = (m_group (lc_menu s), m_host (lc_menu s), m_probe (lc_menu s))"

lemma in_url_update: "in_url (updateUrl s)"
  by (auto simp: in_url_def url_menu_def updateUrl_def split: option.splits)

lemma in_url_menu: "logs_menu_step s t \<Longrightarrow> in_url t"
  by (induction rule: logs_menu_step.induct)
    (simp_all add: set_group_def set_host_def set_probe_def remove_group_def remove_host_def remove_probe_def in_url_update)

lemma in_url_own: "logs_own_step s t \<Longrightarrow> in_url s \<Longrightarrow> in_url t"
  by (induction rule: logs_own_step.induct)
    (auto simp: set_group_def set_host_def set_probe_def remove_group_def remove_host_def remove_probe_def
      in_url_update, auto simp: in_url_def logs_defs)

lemma in_url_init: "in_url (logs_init search)"
  by (simp add: in_url_def url_menu_def logs_defs)

lemma in_url_owns: "logs_own_step\<^sup>*\<^sup>* s t \<Longrightarrow> in_url s \<Longrightarrow> in_url t"
  by (induction rule: rtranclp_induct) (auto intro: in_url_own)

lemma logs_owns: "logs_own_step\<^sup>*\<^sup>* s t \<Longrightarrow> logs_step\<^sup>*\<^sup>* s t"
  by (induction rule: rtranclp_induct) (auto intro: logs_step.own rtranclp.rtrancl_into_rtrancl)

lemma logs_menu_own: "logs_menu_step s t \<Longrightarrow> logs_own_step s t"
  by (induction rule: logs_menu_step.induct) (auto intro: logs_own_step.intros)

section \<open>Properties\<close>

lemma truthy_simps [simp]: "falsy_string None" "falsy_string (Some v) \<longleftrightarrow> v = []"
  by (simp_all add: falsy_string_def)



text \<open>C6: whatever host, group and probe the menu has, and whatever the route's parameters
  are, the handler of the log page's request searches the logs with empty host, group and probe:
  it reads them from the query string only, where the client never puts them.  The page and its
  size do arrive.\<close>

theorem logs_search_ignores_menu:
  assumes "logs_reachable search s" and "lc_offset s < 2 ^ 63"
  shows "http_logs_handler find_remote has_probe (menu_params (lc_menu s)) (rq_params (logs_request s)) =
    Inr \<lparr>ls_probe = '''', ls_hostname = '''', ls_group = '''', ls_limit = 100, ls_offset = word_of_int (lc_offset s)\<rparr>"
  using logs_request_search [OF logs_reachable_ok [OF assms(1)] assms(2)] .

theorem logs_search_ignores_menu_witness:
  "http_logs_handler (\<lambda>h. None) (\<lambda>w p. False) (menu_params (lc_menu (set_host (Some ''db1'') (logs_init []))))
     (rq_params (logs_request (set_host (Some ''db1'') (logs_init [])))) =
   Inr \<lparr>ls_probe = '''', ls_hostname = '''', ls_group = '''', ls_limit = 100, ls_offset = word_of_int 0\<rparr>"
proof -
  have r: "logs_reachable [] (set_host (Some ''db1'') (logs_init []))" by (intro r_into_rtranclp logs_step.own logs_own_step.set_host)
  have o: "lc_offset (set_host (Some ''db1'') (logs_init [])) = 0" by (simp add: logs_defs)
  have "lc_offset (set_host (Some ''db1'') (logs_init [])) < 2 ^ 63" by (simp add: o)
  from logs_search_ignores_menu [OF r this, of "\<lambda>h. None" "\<lambda>w p. False"] show ?thesis
    by (simp only: o)
qed

text \<open>C7: in every reachable state of the log page the offset is a nonnegative multiple of the
  page size; going back after going forward returns to the same page; and going back once per
  page reaches the newest logs.\<close>

theorem logs_paging:
  assumes "logs_reachable search s"
  shows "0 \<le> lc_offset s \<and> lc_limit s = 100 \<and> lc_offset s = lc_offset s div 100 * 100 \<and>
    lc_offset (logs_prev (logs_next s)) = lc_offset s \<and>
    lc_offset ((logs_prev ^^ nat (lc_offset s div 100)) s) = 0"
proof -
  note ok = logs_reachable_ok [OF assms]
  then have lim: "lc_limit s = 100" by (simp add: logs_ok_def)
  have "lc_offset (logs_next s) \<noteq> lc_offset s" by (simp add: logs_defs lim)
  note facts = logs_pager.prev_next [OF ok this] logs_pager.prevs_reach_start [OF ok, unfolded logs_pager.page_def lim]
    logs_pager.offset_nonneg [OF ok] logs_pager.page_offset [OF ok, unfolded logs_pager.page_def lim] lim
  show ?thesis by (intro conjI facts)
qed

theorem logs_paging_witness:
  "lc_offset ((logs_prev ^^ 2) (logs_next (logs_next (logs_init [])))) = 0"
proof -
  have "logs_reachable [] (logs_next (logs_next (logs_init [])))"
    by (meson converse_rtranclp_into_rtranclp logs_step.own logs_own_step.nxt rtranclp.rtrancl_refl)
  moreover have "lc_offset (logs_next (logs_next (logs_init []))) = 200" by (simp add: logs_defs)
  moreover have "nat (200 div 100) = 2" by simp
  ultimately show ?thesis using logs_paging [of "[]" "logs_next (logs_next (logs_init []))"] by metis
qed

text \<open>C8: once the menu was used, and until the browser changes the URL itself, the URL and the menu agree on
  group, host and probe, whatever the page does and however often the browser changed the URL before; and a page
  opened at that URL sends as its first request what this page would send for its first entries.  The same holds of a
  page just opened.\<close>

theorem logs_url_restores_menu:
  assumes "logs_reachable search s" "logs_menu_step s t \<or> t = logs_init search" "logs_own_step\<^sup>*\<^sup>* t u"
  shows "logs_reachable search u \<and>
    url_menu (lc_search u) = (m_group (lc_menu u), m_host (lc_menu u), m_probe (lc_menu u)) \<and>
    lc_pending (logs_init (lc_search u)) = [logs_request (u\<lparr>lc_offset := 0\<rparr>)]"
proof -
  have "logs_reachable search t"
    using assms(1,2) by (auto intro: rtranclp.rtrancl_into_rtrancl logs_step.own logs_menu_own)
  with logs_owns [OF assms(3)] have r: "logs_reachable search u" by auto
  have "in_url t" using assms(2) in_url_menu in_url_init by blast
  from in_url_owns [OF assms(3) this] have u: "in_url u" .
  from logs_reachable_ok [OF r] have "lc_limit u = 100" by (simp add: logs_ok_def)
  with u r show ?thesis
    by (auto simp: in_url_def url_menu_def logs_init_def logs_load_def logs_request_def logs_path_def)
qed

text \<open>Back to a URL with another group, then a choice of a probe: the URL has the menu's group again.\<close>

theorem logs_url_restores_menu_witness:
  "url_menu (lc_search (logs_next (set_probe (Some ''load'') (url_changed [(''group'', ''old'')]
     (remove_host (logs_init [(''host'', ''a''), (''group'', ''g'')])))))) = (Some ''g'', None, Some ''load'')"
proof -
  let ?s = "url_changed [(''group'', ''old'')] (remove_host (logs_init [(''host'', ''a''), (''group'', ''g'')]))"
  let ?t = "set_probe (Some ''load'') ?s"
  have "logs_reachable [(''host'', ''a''), (''group'', ''g'')] ?s"
    by (meson converse_rtranclp_into_rtranclp logs_step.own logs_own_step.remove_host logs_step.history rtranclp.rtrancl_refl)
  from logs_url_restores_menu [OF this, of ?t "logs_next ?t"]
  have "url_menu (lc_search (logs_next ?t)) =
      (m_group (lc_menu (logs_next ?t)), m_host (lc_menu (logs_next ?t)), m_probe (lc_menu (logs_next ?t)))"
    by (auto intro: logs_menu_step.set_probe logs_own_step.nxt)
  then show ?thesis by (simp add: logs_defs url_changed_def)
qed

text \<open>Going back does not bring the menu back: page and URL then disagree.\<close>

theorem history_leaves_menu:
  "\<exists>s. logs_reachable [(''group'', ''g'')] s \<and> m_group (lc_menu s) = None \<and> js_get (lc_search s) ''group'' = Some ''g''"
proof (intro exI conjI)
  let ?s = "url_changed [(''group'', ''g'')] (remove_group (logs_init [(''group'', ''g'')]))"
  show "logs_reachable [(''group'', ''g'')] ?s"
    by (meson converse_rtranclp_into_rtranclp logs_step.own logs_own_step.remove_group logs_step.history rtranclp.rtrancl_refl)
  show "m_group (lc_menu ?s) = None" "js_get (lc_search ?s) ''group'' = Some ''g''"
    by (simp_all add: logs_defs url_changed_def)
qed

end
