(* ===== verification/App_Authority.thy ===== *)
theory App_Authority
  imports App_Logs "HOL-Library.AList"
begin

text \<open>
  Client authorisation end to end: \<open>AuthorityCtrl\<close> of public/js/app.js, and the waiting and
  allowed lists of the server's \<open>Authority\<close> (src/wigo/authority.go) that its requests act
  on.  Go maps are association lists with distinct keys.
\<close>

section \<open>The server's lists\<close>

record authority =
  au_waiting :: "string js_obj"     \<comment> \<open>uuid to host name\<close>
  au_allowed :: "string js_obj"
  au_tokens :: "string js_obj"      \<comment> \<open>token to uuid\<close>
  au_remotes :: "string list"       \<comment> \<open>uuids in \<open>RemoteWigos\<close>\<close>
  au_max_waiting :: nat

text \<open>Each operation returns Go's \<open>error\<close> as a value.\<close>

definition AddClientToWaitingList :: "string \<Rightarrow> string \<Rightarrow> authority \<Rightarrow> string option \<times> authority" where
  "AddClientToWaitingList uuid hostname a =
    (if js_get (au_waiting a) uuid = None then
       (if length (au_waiting a) < au_max_waiting a
        then (None, a\<lparr>au_waiting := AList.update uuid hostname (au_waiting a)\<rparr>)
        else (Some ''Authority : Too many wainting clients'', a))
     else (None, a))"

definition AllowClient :: "string \<Rightarrow> authority \<Rightarrow> string option \<times> authority" where
  "AllowClient uuid a =
    (case js_get (au_waiting a) uuid of
       Some hostname \<Rightarrow> (None, a\<lparr>au_waiting := AList.delete uuid (au_waiting a),
         au_allowed := AList.update uuid hostname (au_allowed a)\<rparr>)
     | None \<Rightarrow> (Some (''Authority : Invalid uuid '' @ uuid), a))"

definition RevokeClient :: "string \<Rightarrow> authority \<Rightarrow> string option \<times> authority" where
  "RevokeClient uuid a =
    (None, a\<lparr>au_waiting := AList.delete uuid (au_waiting a), au_allowed := AList.delete uuid (au_allowed a),
       au_tokens := filter (\<lambda>(t, u). u \<noteq> uuid) (au_tokens a),
       au_remotes := filter (\<lambda>u. u \<noteq> uuid) (au_remotes a)\<rparr>)"

text \<open>\<open>GetToken\<close> with the outcome of \<open>uuid.NewV4\<close>: a token, or an error that is dropped.\<close>

definition GetToken :: "string option \<Rightarrow> string \<Rightarrow> authority \<Rightarrow> (string \<times> string option) \<times> authority" where
  "GetToken newv4 clientUuid a =
    (case newv4 of
       Some token \<Rightarrow> ((token, None),
         a\<lparr>au_tokens := AList.update token clientUuid (filter (\<lambda>(t, u). u \<noteq> clientUuid) (au_tokens a))\<rparr>)
     | None \<Rightarrow> (('''', None), a))"

definition VerifyToken :: "string \<Rightarrow> string \<Rightarrow> authority \<Rightarrow> string option" where
  "VerifyToken uuid token a =
    (let e = ''Authority : Invalid token '' @ token @ '' for client with uuid '' @ uuid
     in case js_get (au_tokens a) token of
          Some u \<Rightarrow> if uuid \<noteq> u then Some e else None
        | None \<Rightarrow> Some e)"

definition RevokeToken :: "string \<Rightarrow> string \<Rightarrow> authority \<Rightarrow> string option \<times> authority" where
  "RevokeToken uuid token a =
    (let e = ''Authority : Invalid token '' @ token @ '' for client with uuid '' @ uuid
     in case js_get (au_tokens a) token of
          Some u \<Rightarrow> if uuid = u then (None, a\<lparr>au_tokens := AList.delete token (au_tokens a)\<rparr>) else (Some e, a)
        | None \<Rightarrow> (Some e, a))"

inductive authority_step :: "authority \<Rightarrow> authority \<Rightarrow> bool" where
  add: "authority_step a (snd (AddClientToWaitingList u h a))"
| allow: "authority_step a (snd (AllowClient u a))"
| revoke: "authority_step a (snd (RevokeClient u a))"
| get_token: "authority_step a (snd (GetToken t u a))"
| revoke_token: "authority_step a (snd (RevokeToken u t a))"

lemmas authority_defs = AddClientToWaitingList_def AllowClient_def RevokeClient_def GetToken_def
  RevokeToken_def

text \<open>
  Keys are distinct, the waiting list is bounded, and a client holds at most one token.
\<close>

definition authority_inv :: "authority \<Rightarrow> bool" where
  "authority_inv a \<longleftrightarrow> distinct (map fst (au_waiting a)) \<and> distinct (map fst (au_allowed a)) \<and>
     distinct (map fst (au_tokens a)) \<and> length (au_waiting a) \<le> au_max_waiting a \<and>
     (\<forall>t u t'. (t, u) \<in> set (au_tokens a) \<longrightarrow> (t', u) \<in> set (au_tokens a) \<longrightarrow> t = t')"

lemma length_update_new: "k \<notin> fst ` set al \<Longrightarrow> length (AList.update k v al) = Suc (length al)"
  by (induction al) auto

lemma length_delete_le: "length (AList.delete k al) \<le> length al"
  by (simp add: AList.delete_eq)

lemma distinct_map_filter_fst: "distinct (map fst al) \<Longrightarrow> distinct (map fst (filter P al))"
  by (induction al) auto

lemma set_update_distinct:
  "distinct (map fst al) \<Longrightarrow> set (AList.update k v al) = insert (k, v) {kv \<in> set al. fst kv \<noteq> k}"
  by (induction al) force+

lemma delete_keys_set: "fst ` set (AList.delete k al) = fst ` set al - {k}"
  by (auto simp: AList.delete_eq image_iff)

lemma set_delete_subset: "set (AList.delete k al) \<subseteq> set al"
  by (auto simp: AList.delete_eq)

lemma authority_inv_step: "authority_step a b \<Longrightarrow> authority_inv a \<Longrightarrow> authority_inv b"
proof (induction rule: authority_step.induct)
  case (add a u h)
  then show ?case
    by (auto simp: authority_inv_def authority_defs distinct_update map_of_eq_None_iff length_update_new)
next
  case (allow a u)
  then show ?case using length_delete_le [of u "au_waiting a"]
    by (auto simp: authority_inv_def authority_defs distinct_update distinct_delete split: option.splits)
next
  case (revoke a u)
  then show ?case using length_delete_le [of u "au_waiting a"]
    by (auto simp: authority_inv_def authority_defs distinct_delete distinct_map_filter_fst)
next
  case (get_token a t u)
  then show ?case
    by (auto simp: authority_inv_def authority_defs distinct_update distinct_map_filter_fst
        set_update_distinct split: option.splits)
next
  case (revoke_token a u t)
  then show ?case using set_delete_subset [of t "au_tokens a"]
    by (auto simp: authority_inv_def authority_defs distinct_delete Let_def split: option.splits if_splits; blast)
qed

section \<open>The page\<close>

record auth_state =
  ac_title :: "string option"
  ac_waiting :: "(string \<times> string) list"   \<comment> \<open>uuid and hostname of each row\<close>
  ac_allowed :: "(string \<times> string) list"
  ac_loads :: nat                              \<comment> \<open>unanswered \<open>GET .../authority/hosts\<close>\<close>
  ac_batches :: "request list list"            \<comment> \<open>POSTs of each \<open>$q.all\<close>, not answered yet\<close>

definition authority_elem :: rest_path where
  "authority_elem = rest_one [] ''authority'' None"

definition allow_request :: "string \<Rightarrow> request" where
  "allow_request uuid = \<lparr>rq_verb = POST,
     rq_path = path_base api_base (rest_one (rest_one authority_elem ''hosts'' (Some uuid)) ''allow'' None),
     rq_params = []\<rparr>"

definition revoke_request :: "string \<Rightarrow> request" where
  "revoke_request uuid = \<lparr>rq_verb = POST,
     rq_path = path_base api_base (rest_one (rest_one authority_elem ''hosts'' (Some uuid)) ''revoke'' None),
     rq_params = []\<rparr>"

definition auth_load :: "auth_state \<Rightarrow> auth_state" where
  "auth_load s = s\<lparr>ac_waiting := [], ac_allowed := [], ac_loads := Suc (ac_loads s)\<rparr>"

definition auth_init :: auth_state where
  "auth_init = auth_load \<lparr>ac_title = Some ''Allowed clients'', ac_waiting = [], ac_allowed = [],
     ac_loads = 0, ac_batches = []\<rparr>"

definition auth_on_hosts :: "string js_obj \<Rightarrow> string js_obj \<Rightarrow> auth_state \<Rightarrow> auth_state" where
  "auth_on_hosts waiting allowed s = s\<lparr>ac_waiting := ac_waiting s @ waiting,
     ac_allowed := ac_allowed s @ allowed, ac_loads := ac_loads s - 1\<rparr>"

definition auth_submit :: "request list \<Rightarrow> auth_state \<Rightarrow> auth_state" where
  "auth_submit rs s = s\<lparr>ac_batches := ac_batches s @ [rs]\<rparr>"

definition auth_allow :: "string \<Rightarrow> auth_state \<Rightarrow> auth_state" where
  "auth_allow uuid s = auth_submit [allow_request uuid] s"

definition auth_revoke :: "string \<Rightarrow> auth_state \<Rightarrow> auth_state" where
  "auth_revoke uuid s = auth_submit [revoke_request uuid] s"

definition auth_allow_all :: "auth_state \<Rightarrow> auth_state" where
  "auth_allow_all s = auth_submit (map (\<lambda>(uuid, h). allow_request uuid) (ac_waiting s)) s"

definition auth_revoke_all :: "auth_state \<Rightarrow> auth_state" where
  "auth_revoke_all s = auth_submit (map (\<lambda>(uuid, h). revoke_request uuid) (ac_allowed s)) s"

text \<open>One POST of a batch succeeds; a batch with none left reloads the page; a failure ends it.\<close>

definition auth_posted :: "request list \<Rightarrow> request \<Rightarrow> auth_state \<Rightarrow> auth_state" where
  "auth_posted b r s = s\<lparr>ac_batches := remove1 r b # remove1 b (ac_batches s)\<rparr>"

definition auth_all_done :: "auth_state \<Rightarrow> auth_state" where
  "auth_all_done s = auth_load (s\<lparr>ac_batches := remove1 [] (ac_batches s)\<rparr>)"

inductive auth_step :: "auth_state \<Rightarrow> auth_state \<Rightarrow> bool" where
  load: "auth_step s (auth_load s)"
| on_hosts: "0 < ac_loads s \<Longrightarrow> auth_step s (auth_on_hosts w a s)"
| load_failed: "0 < ac_loads s \<Longrightarrow> auth_step s (s\<lparr>ac_loads := ac_loads s - 1\<rparr>)"
| allow: "auth_step s (auth_allow uuid s)"
| revoke: "auth_step s (auth_revoke uuid s)"
| allow_all: "auth_step s (auth_allow_all s)"
| revoke_all: "auth_step s (auth_revoke_all s)"
| posted: "b \<in> set (ac_batches s) \<Longrightarrow> r \<in> set b \<Longrightarrow> auth_step s (auth_posted b r s)"
| all_done: "[] \<in> set (ac_batches s) \<Longrightarrow> auth_step s (auth_all_done s)"
| failed: "b \<in> set (ac_batches s) \<Longrightarrow> auth_step s (s\<lparr>ac_batches := remove1 b (ac_batches s)\<rparr>)"

section \<open>Requests reach their handlers\<close>

lemma authority_fill:
  "fill_pattern [(''uuid'', u)] ''/api/authority/hosts/:uuid/allow'' =
     [[], ''api'', ''authority'', ''hosts'', u, ''allow'']"
  "fill_pattern [(''uuid'', u)] ''/api/authority/hosts/:uuid/revoke'' =
     [[], ''api'', ''authority'', ''hosts'', u, ''revoke'']"
  by (simp_all add: fill_pattern_def fill_segment_def)

lemma authority_path_plain:
  assumes "param_text u" and "route = ''allow'' \<or> route = ''revoke''"
  shows "map_option (split_on (CHR ''/'')) (uri_decode (path_base api_base
     (rest_one (rest_one authority_elem ''hosts'' (Some u)) route None))) =
     Some [[], ''api'', ''authority'', ''hosts'', u, route]"
proof -
  have "plain_path (rest_one (rest_one authority_elem ''hosts'' (Some u)) route None)"
    using assms by (auto simp: plain_path_def plain_segment_def param_text_def rest_one_def authority_elem_def)
  from path_segments [OF this] assms(1) show ?thesis
    by (simp add: rest_one_def authority_elem_def elem_segments_def isValidId_def param_text_def)
qed

lemma authority_names: "segment_names (split_on (CHR ''/'') ''/api/authority/hosts/:uuid/allow'') = [''uuid'']"
  "segment_names (split_on (CHR ''/'') ''/api/authority/hosts/:uuid/revoke'') = [''uuid'']"
  by code_simp+

lemma allow_request_served:
  assumes "martini_router R" "param_text u"
  shows "served_by R (rq_verb (allow_request u)) (rq_path (allow_request u)) [(''uuid'', u)] HttpAuthorityAllowHandler"
proof -
  have "rq_verb (allow_request u) = POST" by (simp add: allow_request_def)
  moreover have "served_by R POST (rq_path (allow_request u)) [(''uuid'', u)] HttpAuthorityAllowHandler"
    using authority_path_plain [OF assms(2), of "''allow''"] assms(2)
    by (intro served_byI [OF assms(1), of _ "''/api/authority/hosts/:uuid/allow''"])
      (simp_all add: allow_request_def authority_fill authority_names api_routes_def is_param_def)
  ultimately show ?thesis by simp
qed

lemma revoke_request_served:
  assumes "martini_router R" "param_text u"
  shows "served_by R (rq_verb (revoke_request u)) (rq_path (revoke_request u)) [(''uuid'', u)] HttpAuthorityRevokeHandler"
proof -
  have "rq_verb (revoke_request u) = POST" by (simp add: revoke_request_def)
  moreover have "served_by R POST (rq_path (revoke_request u)) [(''uuid'', u)] HttpAuthorityRevokeHandler"
    using authority_path_plain [OF assms(2), of "''revoke''"] assms(2)
    by (intro served_byI [OF assms(1), of _ "''/api/authority/hosts/:uuid/revoke''"])
      (simp_all add: revoke_request_def authority_fill authority_names api_routes_def is_param_def)
  ultimately show ?thesis by simp
qed

section \<open>Allowing all waiting clients\<close>

text \<open>The server handles the requests of a batch one after the other, in the order they come in.\<close>

definition allow_clients :: "string list \<Rightarrow> authority \<Rightarrow> authority" where
  "allow_clients us a = fold (\<lambda>u a. snd (AllowClient u a)) us a"

lemma allow_clients_lists:
  "distinct us \<Longrightarrow> set us \<subseteq> fst ` set (au_waiting a) \<Longrightarrow>
    js_get (au_waiting (allow_clients us a)) = (\<lambda>u. if u \<in> set us then None else js_get (au_waiting a) u) \<and>
    js_get (au_allowed (allow_clients us a)) =
      (\<lambda>u. if u \<in> set us then js_get (au_waiting a) u else js_get (au_allowed a) u)"
proof (induction us arbitrary: a)
  case (Cons u us)
  from Cons.prems have "u \<in> fst ` set (au_waiting a)" by simp
  then obtain h where h: "js_get (au_waiting a) u = Some h"
    by (metis map_of_eq_None_iff not_None_eq)
  let ?b = "snd (AllowClient u a)"
  have b: "au_waiting ?b = AList.delete u (au_waiting a)" "au_allowed ?b = AList.update u h (au_allowed a)"
    by (simp_all add: AllowClient_def h)
  have "set us \<subseteq> fst ` set (au_waiting ?b)"
    using Cons.prems by (auto simp: b delete_keys_set)
  with Cons.IH [of ?b] Cons.prems show ?case
    by (auto simp: allow_clients_def b delete_conv' update_conv' h fun_eq_iff)
qed (simp add: allow_clients_def)

lemma map_of_None_Nil: "map_of al = Map.empty \<Longrightarrow> al = []"
  by (cases al) (auto simp: fun_eq_iff split: if_splits)

lemma allow_all_waiting:
  assumes "authority_inv a" and "mset us = mset (map fst (au_waiting a))"
  shows "au_waiting (allow_clients us a) = []"
    and "js_get (au_allowed (allow_clients us a)) = js_get (au_allowed a) ++ js_get (au_waiting a)"
proof -
  have us: "distinct us" "set us = fst ` set (au_waiting a)"
    using mset_eq_imp_distinct_iff [OF assms(2)] mset_eq_setD [OF assms(2)] assms(1)
    by (simp_all add: authority_inv_def)
  note l = allow_clients_lists [OF us(1) equalityD1 [OF us(2)]]
  have "js_get (au_waiting (allow_clients us a)) = Map.empty"
    using l us(2) by (auto simp: fun_eq_iff map_of_eq_None_iff)
  then show "au_waiting (allow_clients us a) = []" by (rule map_of_None_Nil)
  show "js_get (au_allowed (allow_clients us a)) = js_get (au_allowed a) ++ js_get (au_waiting a)"
  proof
    fix u
    show "js_get (au_allowed (allow_clients us a)) u = (js_get (au_allowed a) ++ js_get (au_waiting a)) u"
    proof (cases "js_get (au_waiting a) u")
      case None
      then have "u \<notin> set us" using us(2) by (simp add: map_of_eq_None_iff)
      with None l show ?thesis by (simp add: map_add_def)
    next
      case (Some h)
      then have "u \<in> set us" using us(2) by (metis map_of_eq_None_iff option.discI)
      with Some l show ?thesis by (simp add: map_add_def)
    qed
  qed
qed

section \<open>Properties\<close>

text \<open>C11: every operation of the server's \<open>Authority\<close> keeps the keys of its three maps distinct,
  the waiting list within its bound, and at most one token per client; after \<open>RevokeClient\<close> no
  token of the client verifies, and a token just issued verifies for its client only.\<close>

theorem authority_tokens:
  assumes "authority_step\<^sup>*\<^sup>* a b" and "authority_inv a"
  shows "authority_inv b \<and>
    VerifyToken u t (snd (RevokeClient u b)) \<noteq> None \<and>
    (VerifyToken v t (snd (GetToken (Some t) u b)) = None \<longleftrightarrow> v = u)"
proof -
  from assms have inv: "authority_inv b"
    by (induction rule: rtranclp_induct) (auto intro: authority_inv_step)
  have "(t, u) \<notin> set (au_tokens (snd (RevokeClient u b)))" by (simp add: RevokeClient_def)
  then have "js_get (au_tokens (snd (RevokeClient u b))) t \<noteq> Some u" by (meson map_of_SomeD)
  then have "VerifyToken u t (snd (RevokeClient u b)) \<noteq> None"
    by (auto simp: VerifyToken_def Let_def split: option.splits)
  moreover have "VerifyToken v t (snd (GetToken (Some t) u b)) = None \<longleftrightarrow> v = u"
    by (auto simp: VerifyToken_def GetToken_def Let_def update_conv')
  ultimately show ?thesis using inv by simp
qed

definition empty_authority :: authority where
  "empty_authority = \<lparr>au_waiting = [], au_allowed = [], au_tokens = [], au_remotes = [], au_max_waiting = 2\<rparr>"

theorem authority_tokens_witness:
  "authority_inv (snd (AllowClient ''u1'' (snd (AddClientToWaitingList ''u1'' ''h'' empty_authority))))"
proof -
  have "authority_step\<^sup>*\<^sup>* empty_authority (snd (AllowClient ''u1'' (snd (AddClientToWaitingList ''u1'' ''h'' empty_authority))))"
    by (meson converse_rtranclp_into_rtranclp authority_step.add authority_step.allow rtranclp.rtrancl_refl)
  moreover have "authority_inv empty_authority" by (simp add: authority_inv_def empty_authority_def)
  ultimately show ?thesis by (rule authority_tokens [THEN conjunct1])
qed

lemma auth_loaded:
  "auth_on_hosts w al (auth_load s) = s\<lparr>ac_waiting := w, ac_allowed := al\<rparr>"
  by (simp add: auth_on_hosts_def auth_load_def)

text \<open>C10: "allow all" on a page that shows the server's lists sends one request per waiting
  client, each routed to the allow handler with that client's uuid; and the server, handling
  them in any order, ends with an empty waiting list and every waiting client allowed.  (Uuids have no slash, number
  sign or question mark; the router is any that matches patterns as martini does.)\<close>

theorem allow_all_allows_waiting:
  assumes "martini_router R" and "authority_inv a" and "\<forall>u \<in> fst ` set (au_waiting a). param_text u"
    and "ac_waiting s = au_waiting a" and "mset us = mset (map fst (ac_waiting s))"
  shows "\<exists>b. ac_batches (auth_allow_all s) = ac_batches s @ [b] \<and>
      b = map allow_request (map fst (au_waiting a)) \<and>
      (\<forall>u \<in> set us. allow_request u \<in> set b \<and>
         served_by R (rq_verb (allow_request u)) (rq_path (allow_request u)) [(''uuid'', u)] HttpAuthorityAllowHandler) \<and>
      au_waiting (allow_clients us a) = [] \<and>
      js_get (au_allowed (allow_clients us a)) = js_get (au_allowed a) ++ js_get (au_waiting a)"
proof -
  have us: "mset us = mset (map fst (au_waiting a))" using assms(4,5) by simp
  then have set_us: "set us = fst ` set (au_waiting a)" by (metis mset_eq_setD set_map)
  note all = allow_all_waiting [OF assms(2) us]
  show ?thesis
    using assms(1,3,4) all set_us
    by (auto simp: auth_allow_all_def auth_submit_def case_prod_beta intro!: allow_request_served)
qed

definition two_waiting :: authority where
  "two_waiting = empty_authority\<lparr>au_waiting := [(''u1'', ''h1''), (''u2'', ''h2'')]\<rparr>"

theorem allow_all_allows_waiting_witness:
  "au_waiting (allow_clients [''u2'', ''u1''] two_waiting) = [] \<and>
   js_get (au_allowed (allow_clients [''u2'', ''u1''] two_waiting)) ''u1'' = Some ''h1''"
proof -
  have "authority_inv two_waiting" by (simp add: authority_inv_def two_waiting_def empty_authority_def)
  moreover have "\<forall>u \<in> fst ` set (au_waiting two_waiting). param_text u"
    by (simp add: two_waiting_def param_text_def)
  moreover have "ac_waiting (auth_on_hosts (au_waiting two_waiting) [] auth_init) = au_waiting two_waiting"
    by (simp add: auth_on_hosts_def auth_init_def auth_load_def)
  moreover have "mset [''u2'', ''u1''] = mset (map fst (ac_waiting (auth_on_hosts (au_waiting two_waiting) [] auth_init)))"
    by (simp add: auth_on_hosts_def auth_init_def auth_load_def two_waiting_def)
  ultimately show ?thesis
    using allow_all_allows_waiting [OF plain_router, of two_waiting "auth_on_hosts (au_waiting two_waiting) [] auth_init" "[''u2'', ''u1'']"]
    by (auto simp: two_waiting_def empty_authority_def)
qed

end
