(* ===== verification/App_Services.thy ===== *)
theory App_Services
  imports App_Status
begin

text \<open>
  The services of the web client (public/js/app.js): the refresh timer \<open>$refresh\<close>, the
  navigation helper \<open>$goto\<close> with the route table it leads to, and the modal dialogs
  \<open>$dialog\<close>.
\<close>

section \<open>The refresh timer\<close>

text \<open>
  Angular's \<open>$timeout\<close> as the service uses it: a call registers a timer under a fresh id,
  \<open>cancel\<close> removes it when it has not fired.  Only the service's own timers are kept; ids are
  shared with the other users of \<open>$timeout\<close>, which may take some in between.
\<close>

record refresh_state =
  rf_interval :: int                 \<comment> \<open>seconds\<close>
  rf_timeout :: "nat option"         \<comment> \<open>\<open>module.timeout\<close>, the last promise\<close>
  rf_next :: nat                     \<comment> \<open>next timer id\<close>
  rf_timers :: "(nat \<times> int) list"    \<comment> \<open>pending timers of the service: id and delay (ms)\<close>
  rf_refresh :: nat                  \<comment> \<open>\<open>module.refresh\<close>: which controller's \<open>load\<close>\<close>
  rf_calls :: "nat list"             \<comment> \<open>the \<open>load\<close>s run so far, newest first\<close>

definition timeout_start :: "int \<Rightarrow> refresh_state \<Rightarrow> refresh_state" where
  "timeout_start delay s = s\<lparr>rf_timeout := Some (rf_next s), rf_next := Suc (rf_next s),
     rf_timers := (rf_next s, delay) # rf_timers s\<rparr>"

definition timeout_cancel :: "nat \<Rightarrow> refresh_state \<Rightarrow> refresh_state" where
  "timeout_cancel t s = s\<lparr>rf_timers := filter (\<lambda>(i, d). i \<noteq> t) (rf_timers s)\<rparr>"

definition setRefreshInterval :: "int \<Rightarrow> refresh_state \<Rightarrow> refresh_state" where
  "setRefreshInterval interval s =
    (let s1 = (case rf_timeout s of None \<Rightarrow> s | Some t \<Rightarrow> timeout_cancel t s)
     in if interval \<noteq> 0 then timeout_start (interval * 1000) (s1\<lparr>rf_interval := interval\<rparr>) else s1)"

definition refresh_init :: "nat \<Rightarrow> refresh_state \<Rightarrow> refresh_state" where
  "refresh_init load s = setRefreshInterval 60 (s\<lparr>rf_refresh := load\<rparr>)"

text \<open>A timer fires: the callback refreshes, then arms the next timer.\<close>

definition refresh_fire :: "nat \<Rightarrow> refresh_state \<Rightarrow> refresh_state" where
  "refresh_fire t s =
    (let s1 = timeout_cancel t s;
         s2 = s1\<lparr>rf_calls := rf_refresh s1 # rf_calls s1\<rparr>
     in timeout_start (rf_interval s2 * 1000) s2)"

definition refresh_start :: refresh_state where
  "refresh_start = \<lparr>rf_interval = 0, rf_timeout = None, rf_next = 0, rf_timers = [],
     rf_refresh = 0, rf_calls = []\<rparr>"

inductive refresh_step :: "refresh_state \<Rightarrow> refresh_state \<Rightarrow> bool" where
  init: "refresh_step s (refresh_init load s)"
| set: "refresh_step s (setRefreshInterval n s)"
| fire: "(t, d) \<in> set (rf_timers s) \<Longrightarrow> refresh_step s (refresh_fire t s)"
| other: "rf_next s \<le> n \<Longrightarrow> refresh_step s (s\<lparr>rf_next := n\<rparr>)"

lemmas refresh_defs = timeout_start_def timeout_cancel_def setRefreshInterval_def refresh_init_def
  refresh_fire_def

definition refresh_inv :: "refresh_state \<Rightarrow> bool" where
  "refresh_inv s \<longleftrightarrow>
    (rf_timers s = [] \<or>
     (\<exists>t. rf_timeout s = Some t \<and> rf_interval s \<noteq> 0 \<and> rf_timers s = [(t, rf_interval s * 1000)])) \<and>
    (\<forall>t. rf_timeout s = Some t \<longrightarrow> t < rf_next s)"

lemma refresh_inv_set: "refresh_inv s \<Longrightarrow> refresh_inv (setRefreshInterval n s)"
  by (auto simp: refresh_inv_def refresh_defs Let_def split: option.splits)

lemma refresh_inv_step: "refresh_step s t \<Longrightarrow> refresh_inv s \<Longrightarrow> refresh_inv t"
proof (induction rule: refresh_step.induct)
  case (init s load)
  then have "refresh_inv (s\<lparr>rf_refresh := load\<rparr>)" by (simp add: refresh_inv_def)
  then show ?case unfolding refresh_init_def by (rule refresh_inv_set)
next
  case (set s n)
  then show ?case by (rule refresh_inv_set)
next
  case (fire t d s)
  then show ?case by (auto simp: refresh_inv_def refresh_defs Let_def)
next
  case (other s n)
  then show ?case by (fastforce simp: refresh_inv_def)
qed

lemma refresh_inv_start: "refresh_inv refresh_start"
  by (simp add: refresh_inv_def refresh_start_def)

lemma refresh_reachable_inv: "refresh_step\<^sup>*\<^sup>* refresh_start s \<Longrightarrow> refresh_inv s"
  by (induction rule: rtranclp_induct) (auto simp: refresh_inv_start intro: refresh_inv_step)

text \<open>Steps other than choosing an interval.\<close>

inductive refresh_run :: "refresh_state \<Rightarrow> refresh_state \<Rightarrow> bool" where
  fire: "(t, d) \<in> set (rf_timers s) \<Longrightarrow> refresh_run s (refresh_fire t s)"
| other: "rf_next s \<le> n \<Longrightarrow> refresh_run s (s\<lparr>rf_next := n\<rparr>)"

definition armed :: "int \<Rightarrow> refresh_state \<Rightarrow> bool" where
  "armed n s \<longleftrightarrow> rf_interval s = n \<and> (\<exists>t. rf_timeout s = Some t \<and> rf_timers s = [(t, n * 1000)])"

lemma armed_set: "refresh_inv s \<Longrightarrow> n \<noteq> 0 \<Longrightarrow> armed n (setRefreshInterval n s)"
  by (auto simp: refresh_inv_def armed_def refresh_defs Let_def split: option.splits)

lemma armed_run: "refresh_run s t \<Longrightarrow> armed n s \<Longrightarrow> armed n t"
  by (induction rule: refresh_run.induct) (auto simp: armed_def refresh_defs Let_def)

lemma armed_runs: "refresh_run\<^sup>*\<^sup>* s t \<Longrightarrow> armed n s \<Longrightarrow> armed n t"
  by (induction rule: rtranclp_induct) (auto intro: armed_run)

lemma set_zero_stops: "refresh_inv s \<Longrightarrow> rf_timers (setRefreshInterval 0 s) = []"
  by (auto simp: refresh_inv_def refresh_defs Let_def split: option.splits)

section \<open>Routes and navigation\<close>

datatype controller = HostsCtrl | GroupCtrl | HostCtrl | LogsCtrl | AuthorityCtrl

definition app_routes :: "(string \<times> controller \<times> string) list" where
  "app_routes =
    [(''/'', HostsCtrl, ''partials/hosts.html''),
     (''/group'', GroupCtrl, ''partials/group.html''),
     (''/host'', HostCtrl, ''partials/host.html''),
     (''/logs'', LogsCtrl, ''partials/logs.html''),
     (''/authority'', AuthorityCtrl, ''partials/authority.html'')]"

text \<open>The route of a path: each route has a redirection from its path with the trailing slash added or dropped,
  and \<open>otherwise\<close> redirects to \<open>/\<close>.\<close>

definition app_route :: "string \<Rightarrow> controller \<times> string" where
  "app_route path = (case map_of (app_routes @ map (\<lambda>(p, r). (if last p = CHR ''/'' then butlast p else p @ ''/'', r)) app_routes) path of
      Some r \<Rightarrow> r
    | None \<Rightarrow> (HostsCtrl, ''partials/hosts.html''))"

record location =
  lo_path :: string
  lo_search :: "string js_obj"
  lo_hash :: string
  lo_reloads :: nat
  lo_scrolls :: nat

text \<open>\<open>$location.search(key, value)\<close>: an undefined value deletes the key.\<close>

definition loc_search :: "string \<Rightarrow> string option \<Rightarrow> location \<Rightarrow> location" where
  "loc_search k v l = l\<lparr>lo_search := (case v of
      None \<Rightarrow> filter (\<lambda>(k', w). k' \<noteq> k) (lo_search l)
    | Some x \<Rightarrow> (k, x) # filter (\<lambda>(k', w). k' \<noteq> k) (lo_search l))\<rparr>"

definition loc_path :: "string \<Rightarrow> location \<Rightarrow> location" where
  "loc_path p l = l\<lparr>lo_path := (case p of c # r \<Rightarrow> if c = CHR ''/'' then p else CHR ''/'' # p | [] \<Rightarrow> ''/'')\<rparr>"

definition loc_hash :: "string \<Rightarrow> location \<Rightarrow> location" where
  "loc_hash h l = l\<lparr>lo_hash := h\<rparr>"

text \<open>\<open>hash(undefined)\<close> only reads the hash; \<open>hash(null)\<close> empties it.\<close>

definition loc_hash_opt :: "string option \<Rightarrow> location \<Rightarrow> location" where
  "loc_hash_opt h l = (case h of None \<Rightarrow> l | Some x \<Rightarrow> loc_hash x l)"

definition route_reload :: "location \<Rightarrow> location" where
  "route_reload l = l\<lparr>lo_reloads := Suc (lo_reloads l)\<rparr>"

definition goto_group :: "string option \<Rightarrow> location \<Rightarrow> location" where
  "goto_group g l = route_reload (loc_hash '''' (loc_path ''group'' (loc_search ''name'' g l)))"

definition goto_host :: "string option \<Rightarrow> location \<Rightarrow> location" where
  "goto_host h l = route_reload (loc_hash '''' (loc_path ''host'' (loc_search ''name'' h l)))"

definition goto_probe :: "string option \<Rightarrow> string option \<Rightarrow> location \<Rightarrow> location" where
  "goto_probe h p l = route_reload (loc_hash_opt p (loc_path ''host'' (loc_search ''name'' h l)))"

definition goto_anchor :: "string option \<Rightarrow> location \<Rightarrow> location" where
  "goto_anchor a l = (loc_hash_opt a l)\<lparr>lo_scrolls := Suc (lo_scrolls l)\<rparr>"

lemmas goto_defs = goto_group_def goto_host_def goto_probe_def goto_anchor_def loc_search_def
  loc_path_def loc_hash_def loc_hash_opt_def route_reload_def

lemma js_get_filter_key: "js_get (filter (\<lambda>(k', w). k' \<noteq> k) u) j = (if j = k then None else js_get u j)"
  by (induction u) auto

section \<open>Dialogs\<close>

text \<open>
  \<open>$rootScope.dialogs\<close> holds the scopes of the open dialogs.  \<open>$modal.open\<close> instantiates its
  controller later, once the template is there: the dialogs on their way are kept apart.
\<close>

record dialog_state =
  dg_dialogs :: "nat list"         \<comment> \<open>\<open>$rootScope.dialogs\<close>\<close>
  dg_opening :: "int list"         \<comment> \<open>status of the data of dialogs on their way\<close>
  dg_closed :: "nat list"          \<comment> \<open>scopes whose modal was closed, newest first\<close>
  dg_titles :: "(nat \<times> string) list"

text \<open>\<open>_.without(array, x)\<close> of underscore.js.\<close>

definition js_without :: "'a list \<Rightarrow> 'a \<Rightarrow> 'a list" where
  "js_without xs x = filter (\<lambda>y. y \<noteq> x) xs"

definition dialog_close :: "nat \<Rightarrow> dialog_state \<Rightarrow> dialog_state" where
  "dialog_close d s = s\<lparr>dg_dialogs := js_without (dg_dialogs s) d, dg_closed := d # dg_closed s\<rparr>"

text \<open>\<open>openDialog\<close>: the loop runs over the array as it was, while \<open>close\<close> replaces it.\<close>

definition openDialog :: "int \<Rightarrow> dialog_state \<Rightarrow> dialog_state" where
  "openDialog status s =
    (let s1 = fold dialog_close (dg_dialogs s) s;
         s2 = s1\<lparr>dg_dialogs := []\<rparr>
     in s2\<lparr>dg_opening := dg_opening s2 @ [status]\<rparr>)"

text \<open>\<open>alert(data)\<close>: nothing without data; \<open>options\<close> is always an object.\<close>

definition dialog_alert :: "int option \<Rightarrow> dialog_state \<Rightarrow> dialog_state" where
  "dialog_alert data s = (case data of None \<Rightarrow> s | Some status \<Rightarrow> openDialog status s)"

definition dialog_title :: "int \<Rightarrow> string" where
  "dialog_title status = (if status \<noteq> 100 then ''Oops !'' else ''Success !'')"

text \<open>\<open>AlertDialogController\<close> of the first dialog on its way, with a new scope.\<close>

definition dialog_controller :: "nat \<Rightarrow> dialog_state \<Rightarrow> dialog_state" where
  "dialog_controller d s = (case dg_opening s of
      [] \<Rightarrow> s
    | st # r \<Rightarrow> s\<lparr>dg_opening := r, dg_dialogs := dg_dialogs s @ [d], dg_titles := (d, dialog_title st) # dg_titles s\<rparr>)"

lemma fold_dialog_close:
  "dg_closed (fold dialog_close ds s) = rev ds @ dg_closed s"
  "dg_opening (fold dialog_close ds s) = dg_opening s"
  "dg_titles (fold dialog_close ds s) = dg_titles s"
  "dg_dialogs (fold dialog_close ds s) = filter (\<lambda>d. d \<notin> set ds) (dg_dialogs s)"
  by (induction ds arbitrary: s) (auto simp: dialog_close_def js_without_def conj_commute)

section \<open>Properties\<close>

text \<open>C9: whatever controllers, interval choices and timer firings happen, the service never has
  two refresh timers pending; choosing an interval other than zero leaves one timer with that
  interval, which every later firing renews and no other user of timers disturbs; choosing zero
  stops the refresh.\<close>

theorem refresh_single_timer:
  assumes "refresh_step\<^sup>*\<^sup>* refresh_start s"
  shows "length (rf_timers s) \<le> 1 \<and>
    (n \<noteq> 0 \<longrightarrow> (\<forall>t. refresh_run\<^sup>*\<^sup>* (setRefreshInterval n s) t \<longrightarrow> armed n t)) \<and>
    rf_timers (setRefreshInterval 0 s) = []"
proof -
  note inv = refresh_reachable_inv [OF assms]
  have "length (rf_timers s) \<le> 1" using inv by (auto simp: refresh_inv_def)
  then show ?thesis
    using armed_set [OF inv, of n] armed_runs [of "setRefreshInterval n s" _ n] set_zero_stops [OF inv] by auto
qed

theorem refresh_single_timer_witness:
  "length (rf_timers (refresh_fire 1 (refresh_init 7 (refresh_init 3 refresh_start)))) \<le> 1"
proof -
  have t: "(1, 60000) \<in> set (rf_timers (refresh_init 7 (refresh_init 3 refresh_start)))"
    by (simp add: refresh_defs refresh_start_def Let_def)
  have "refresh_step\<^sup>*\<^sup>* refresh_start (refresh_fire 1 (refresh_init 7 (refresh_init 3 refresh_start)))"
    by (meson converse_rtranclp_into_rtranclp refresh_step.init refresh_step.fire [OF t] rtranclp.rtrancl_refl)
  from refresh_single_timer [OF this] show ?thesis by blast
qed

text \<open>from any location, going to a group, host or probe leads to the route of the matching
  controller, whose \<open>init\<close> then requests exactly the named object; the other search parameters
  stay, and the hash becomes the probe's name or empty.\<close>

theorem goto_reaches_page:
  "fst (app_route (lo_path (goto_group (Some g) l))) = GroupCtrl \<and>
   group_init (js_get (lo_search (goto_group (Some g) l)) ''name'') = group_init (Some g) \<and>
   lo_hash (goto_group (Some g) l) = '''' \<and>
   fst (app_route (lo_path (goto_host (Some h) l))) = HostCtrl \<and>
   host_init (js_get (lo_search (goto_host (Some h) l)) ''name'') = host_init (Some h) \<and>
   fst (app_route (lo_path (goto_probe (Some h) (Some p) l))) = HostCtrl \<and>
   host_init (js_get (lo_search (goto_probe (Some h) (Some p) l)) ''name'') = host_init (Some h) \<and>
   lo_hash (goto_probe (Some h) (Some p) l) = p \<and>
   (k = ''name'' \<or> js_get (lo_search (goto_group (Some g) l)) k = js_get (lo_search l) k)"
  by (auto simp: goto_defs app_route_def app_routes_def js_get_filter_key)

text \<open>opening a dialog closes every dialog that was open, each once if the scopes are
  distinct, in the order they were opened, and leaves none in the list; when the new dialog's
  controller has run it is the only one.\<close>

theorem open_dialog_closes_all:
  assumes "dg_opening s = []" and "d \<notin> set (dg_dialogs s)"
  shows "dg_closed (openDialog st s) = rev (dg_dialogs s) @ dg_closed s \<and>
    dg_dialogs (openDialog st s) = [] \<and>
    dg_dialogs (dialog_controller d (openDialog st s)) = [d] \<and>
    dg_dialogs (dialog_close d (dialog_controller d (openDialog st s))) = [] \<and>
    dg_titles (dialog_controller d (openDialog st s)) =
      (d, if st = 100 then ''Success !'' else ''Oops !'') # dg_titles s"
  using assms
  by (simp add: openDialog_def Let_def fold_dialog_close dialog_controller_def dialog_close_def
      js_without_def dialog_title_def)

theorem open_dialog_closes_all_witness:
  "dg_dialogs (dialog_controller 9 (openDialog 100 \<lparr>dg_dialogs = [3, 5], dg_opening = [], dg_closed = [], dg_titles = []\<rparr>)) = [9]"
  using open_dialog_closes_all [of "\<lparr>dg_dialogs = [3, 5], dg_opening = [], dg_closed = [], dg_titles = []\<rparr>" 9 100]
  by simp

end
