(* ===== verification/Ui_Modal.thy ===== *)
theory Ui_Modal
  imports Wigo_Prelude "HOL-Library.Multiset"
begin

text \<open>
  Modal windows of angular-bootstrap (public/bower_components/angular-bootstrap/ui-bootstrap-tpls.js, module
  \<open>ui.bootstrap.modal\<close>): the stacked map, \<open>$modalStack\<close> and \<open>$modal.open\<close>.  A state holds the windows on the
  stack, the windows whose template is still to come, the elements appended to the body and the closing
  animations that have not ended.  What the page sees - which elements are in the body, whether it has the
  class \<open>modal-open\<close>, which results are settled - is part of the state; sizes and focus are not.
\<close>

section \<open>\<open>$$stackedMap\<close>\<close>

type_synonym 'v stacked = "(nat \<times> 'v) list"

definition sm_add :: "nat \<Rightarrow> 'v \<Rightarrow> 'v stacked \<Rightarrow> 'v stacked" where
  "sm_add k v st = st @ [(k, v)]"

fun sm_get :: "nat \<Rightarrow> 'v stacked \<Rightarrow> 'v option" where
  "sm_get k [] = None"
| "sm_get k ((k', v) # st) = (if k = k' then Some v else sm_get k st)"

definition sm_keys :: "'v stacked \<Rightarrow> nat list" where
  "sm_keys st = map fst st"

definition sm_top :: "'v stacked \<Rightarrow> (nat \<times> 'v) option" where
  "sm_top st = (if st = [] then None else Some (last st))"

text \<open>\<open>remove\<close>: without the key the index stays \<open>-1\<close>, and \<open>splice(-1, 1)\<close> removes the last entry.\<close>

fun sm_drop :: "nat \<Rightarrow> 'v stacked \<Rightarrow> 'v stacked" where
  "sm_drop k [] = []"
| "sm_drop k (e # st) = (if fst e = k then st else e # sm_drop k st)"

definition sm_remove :: "nat \<Rightarrow> 'v stacked \<Rightarrow> 'v stacked" where
  "sm_remove k st = (if sm_get k st = None then butlast st else sm_drop k st)"

definition sm_removeTop :: "'v stacked \<Rightarrow> 'v stacked" where
  "sm_removeTop st = butlast st"

lemma sm_get_map_of: "sm_get k st = map_of st k"
  by (induction st) auto

lemma sm_get_None: "sm_get k st = None \<longleftrightarrow> k \<notin> set (sm_keys st)"
  by (simp add: sm_get_map_of sm_keys_def map_of_eq_None_iff)

lemma sm_get_entry: "sm_get k st = Some v \<Longrightarrow> (k, v) \<in> set st"
  by (simp add: sm_get_map_of map_of_SomeD)

lemma sm_get_distinct: "distinct (sm_keys st) \<Longrightarrow> (k, v) \<in> set st \<Longrightarrow> sm_get k st = Some v"
  by (simp add: sm_get_map_of sm_keys_def)

lemma sm_remove_mset: "sm_get k st = Some v \<Longrightarrow> mset st = add_mset (k, v) (mset (sm_remove k st))"
proof -
  have "sm_get k st = Some v \<Longrightarrow> mset st = add_mset (k, v) (mset (sm_drop k st))"
    by (induction st) (auto split: if_splits)
  then show "sm_get k st = Some v \<Longrightarrow> mset st = add_mset (k, v) (mset (sm_remove k st))"
    by (simp add: sm_remove_def)
qed

lemma sm_remove_length: "sm_get k st = Some v \<Longrightarrow> length st = Suc (length (sm_remove k st))"
  by (metis sm_remove_mset size_add_mset size_mset)

lemma sm_remove_filter:
  "sm_get k st = Some v \<Longrightarrow> distinct (sm_keys st) \<Longrightarrow> sm_remove k st = filter (\<lambda>e. fst e \<noteq> k) st"
proof -
  have none: "k \<notin> fst ` set r \<Longrightarrow> filter (\<lambda>e. fst e \<noteq> k) r = r" for r :: "'a stacked"
    by (induction r) auto
  have "distinct (sm_keys st) \<Longrightarrow> sm_drop k st = filter (\<lambda>e. fst e \<noteq> k) st"
    by (induction st) (auto simp: sm_keys_def none)
  then show "sm_get k st = Some v \<Longrightarrow> distinct (sm_keys st) \<Longrightarrow> sm_remove k st = filter (\<lambda>e. fst e \<noteq> k) st"
    by (simp add: sm_remove_def)
qed

text \<open>Removing a key that is not in the map removes the newest entry instead.\<close>

lemma removing_absent_key_removes_top: "k \<notin> set (sm_keys st) \<Longrightarrow> sm_remove k st = sm_removeTop st"
  by (simp add: sm_remove_def sm_get_None sm_removeTop_def)

section \<open>\<open>$modalStack\<close>\<close>

datatype backdrop_kind = No_Backdrop | Backdrop | Static_Backdrop

record modal_window =
  mw_deferred :: nat
  mw_scope :: nat
  mw_backdrop :: backdrop_kind
  mw_keyboard :: bool

text \<open>Elements of the body, scopes, and closing animations under way.\<close>

datatype modal_el = Window_El nat | Backdrop_El nat

datatype modal_scope = Window_Scope nat | Backdrop_Scope nat

datatype leaving = Leave_Window nat nat | Leave_Backdrop nat

datatype 'r outcome = Resolved 'r | Rejected 'r

text \<open>A modal whose template has been requested: its instance, the two deferred objects and its options.\<close>

record modal_request =
  mq_instance :: nat
  mq_result :: nat
  mq_opened :: nat
  mq_backdrop :: backdrop_kind
  mq_keyboard :: bool

record modal_state =
  ms_windows :: "modal_window stacked"            \<comment> \<open>\<open>openedWindows\<close>\<close>
  ms_backdrop :: "(nat \<times> int) option"             \<comment> \<open>\<open>backdropDomEl\<close> and the index in \<open>backdropScope\<close>\<close>
  ms_watched :: "int option"                      \<comment> \<open>the index the watch saw last\<close>
  ms_body :: "modal_el list"
  ms_open_class :: bool                           \<comment> \<open>\<open>modal-open\<close> on the body\<close>
  ms_leaving :: "leaving list"
  ms_destroyed :: "modal_scope list"
  ms_requests :: "modal_request list"
  ms_results :: "(nat \<times> string option outcome) list"
  ms_opened :: "(nat \<times> bool outcome) list"
  ms_next :: nat                                  \<comment> \<open>the next identity\<close>

definition has_backdrop :: "modal_window \<Rightarrow> bool" where
  "has_backdrop w \<longleftrightarrow> mw_backdrop w \<noteq> No_Backdrop"

text \<open>\<open>backdropIndex\<close>: the index of the last window with a backdrop, by a loop over the keys.\<close>

fun backdrop_loop :: "modal_window stacked \<Rightarrow> nat list \<Rightarrow> int \<Rightarrow> int \<Rightarrow> int" where
  "backdrop_loop st [] i found = found"
| "backdrop_loop st (k # ks) i found =
    backdrop_loop st ks (i + 1) (case sm_get k st of Some w \<Rightarrow> if has_backdrop w then i else found | None \<Rightarrow> found)"

definition backdropIndex :: "modal_window stacked \<Rightarrow> int" where
  "backdropIndex st = backdrop_loop st (sm_keys st) 0 (-1)"

text \<open>A deferred object is settled once; later calls do nothing.\<close>

definition settle_deferred :: "nat \<Rightarrow> 'r \<Rightarrow> (nat \<times> 'r) list \<Rightarrow> (nat \<times> 'r) list" where
  "settle_deferred d out rs = (if map_of rs d = None then (d, out) # rs else rs)"

text \<open>The watch on \<open>backdropIndex\<close>, in a digest of the root scope.\<close>

definition modal_digest :: "modal_state \<Rightarrow> modal_state" where
  "modal_digest s = (let i = backdropIndex (ms_windows s) in
     if ms_watched s = Some i then s
     else s\<lparr>ms_watched := Some i, ms_backdrop := map_option (\<lambda>(b, _). (b, i)) (ms_backdrop s)\<rparr>)"

definition checkRemoveBackdrop :: "modal_state \<Rightarrow> modal_state" where
  "checkRemoveBackdrop s = (case ms_backdrop s of
      Some (b, _) \<Rightarrow> if backdropIndex (ms_windows s) = -1
        then s\<lparr>ms_leaving := ms_leaving s @ [Leave_Backdrop b], ms_backdrop := None\<rparr> else s
    | None \<Rightarrow> s)"

text \<open>\<open>removeModalWindow\<close> of a window found on the stack.\<close>

definition removeModalWindow :: "nat \<Rightarrow> modal_window \<Rightarrow> modal_state \<Rightarrow> modal_state" where
  "removeModalWindow k w s = s\<lparr>ms_windows := sm_remove k (ms_windows s),
     ms_leaving := ms_leaving s @ [Leave_Window k (mw_scope w)]\<rparr>"

text \<open>\<open>afterAnimating\<close>, called by the timer or by the end of the transition; the second call finds \<open>done\<close> set.\<close>

definition afterAnimating :: "leaving \<Rightarrow> modal_state \<Rightarrow> modal_state" where
  "afterAnimating a s =
    (if a \<notin> set (ms_leaving s) then s
     else let s1 = s\<lparr>ms_leaving := remove1 a (ms_leaving s)\<rparr> in
       (case a of
          Leave_Window k sc \<Rightarrow> checkRemoveBackdrop (s1\<lparr>ms_body := remove1 (Window_El k) (ms_body s1),
            ms_destroyed := Window_Scope sc # ms_destroyed s1, ms_open_class := (ms_windows s1 \<noteq> [])\<rparr>)
        | Leave_Backdrop b \<Rightarrow> s1\<lparr>ms_body := remove1 (Backdrop_El b) (ms_body s1),
            ms_destroyed := Backdrop_Scope b # ms_destroyed s1\<rparr>))"

definition stack_open :: "nat \<Rightarrow> modal_window \<Rightarrow> modal_state \<Rightarrow> modal_state" where
  "stack_open k w s =
    (let s1 = s\<lparr>ms_windows := sm_add k w (ms_windows s)\<rparr>;
         i = backdropIndex (ms_windows s1);
         s2 = (if 0 \<le> i \<and> ms_backdrop s1 = None
               then s1\<lparr>ms_backdrop := Some (ms_next s1, i), ms_body := ms_body s1 @ [Backdrop_El (ms_next s1)],
                 ms_next := Suc (ms_next s1)\<rparr>
               else s1)
     in s2\<lparr>ms_body := ms_body s2 @ [Window_El k], ms_open_class := True\<rparr>)"

definition stack_close :: "nat \<Rightarrow> string option \<Rightarrow> modal_state \<Rightarrow> modal_state" where
  "stack_close k r s = (case sm_get k (ms_windows s) of
      None \<Rightarrow> s
    | Some w \<Rightarrow> removeModalWindow k w
        (s\<lparr>ms_results := settle_deferred (mw_deferred w) (Resolved r) (ms_results s)\<rparr>))"

definition stack_dismiss :: "nat \<Rightarrow> string option \<Rightarrow> modal_state \<Rightarrow> modal_state" where
  "stack_dismiss k r s = (case sm_get k (ms_windows s) of
      None \<Rightarrow> s
    | Some w \<Rightarrow> removeModalWindow k w
        (s\<lparr>ms_results := settle_deferred (mw_deferred w) (Rejected r) (ms_results s)\<rparr>))"

lemma top_present: "sm_top st = Some e \<Longrightarrow> \<exists>w. sm_get (fst e) st = Some w"
proof -
  assume "sm_top st = Some e"
  then have "e \<in> set st" by (auto simp: sm_top_def split: if_splits)
  then have "sm_get (fst e) st \<noteq> None" by (auto simp: sm_get_None sm_keys_def)
  then show ?thesis by auto
qed

lemma stack_dismiss_windows:
  "sm_get k (ms_windows s) = Some w \<Longrightarrow> ms_windows (stack_dismiss k r s) = sm_remove k (ms_windows s)"
  by (simp add: stack_dismiss_def removeModalWindow_def)

function dismissAll :: "string option \<Rightarrow> modal_state \<Rightarrow> modal_state" where
  "dismissAll r s = (case sm_top (ms_windows s) of
      None \<Rightarrow> s
    | Some e \<Rightarrow> dismissAll r (stack_dismiss (fst e) r s))"
  by pat_completeness auto
termination
proof (relation "measure (\<lambda>(r, s). length (ms_windows s))")
  fix r :: "string option" and s :: modal_state and e
  assume "sm_top (ms_windows s) = Some e"
  then obtain w where "sm_get (fst e) (ms_windows s) = Some w" using top_present by blast
  then show "((r, stack_dismiss (fst e) r s), (r, s)) \<in> measure (\<lambda>(r, s). length (ms_windows s))"
    using sm_remove_length by (fastforce simp: stack_dismiss_windows)
qed simp

declare dismissAll.simps [simp del]

text \<open>The listener for the escape key (code 27), whose \<open>$apply\<close> ends with a digest.\<close>

definition escape_pressed :: "modal_state \<Rightarrow> modal_state" where
  "escape_pressed s = (case sm_top (ms_windows s) of
      Some (k, w) \<Rightarrow> if mw_keyboard w then modal_digest (stack_dismiss k (Some ''escape key press'') s) else s
    | None \<Rightarrow> s)"

text \<open>A click on a window element itself, outside its content: it concerns the window on top.\<close>

definition backdrop_clicked :: "modal_state \<Rightarrow> modal_state" where
  "backdrop_clicked s = (case sm_top (ms_windows s) of
      Some (k, w) \<Rightarrow> if mw_backdrop w = Backdrop then stack_dismiss k (Some ''backdrop click'') s else s
    | None \<Rightarrow> s)"

section \<open>\<open>$modal.open\<close>\<close>

record modal_options =
  mo_template :: "string option"
  mo_templateUrl :: "string option"
  mo_backdrop :: "backdrop_kind option"
  mo_keyboard :: "bool option"

datatype modal_error = Template_Required

text \<open>The defaults of \<open>$modalProvider\<close> are extended by the options given.\<close>

definition modal_open :: "modal_options \<Rightarrow> modal_state \<Rightarrow> modal_error + (nat \<times> modal_state)" where
  "modal_open opts s =
    (if falsy_string (mo_template opts) \<and> falsy_string (mo_templateUrl opts) then Inl Template_Required
     else let n = ms_next s in
       Inr (n, s\<lparr>ms_next := n + 3, ms_requests := ms_requests s @
         [\<lparr>mq_instance = n, mq_result = n + 1, mq_opened = n + 2,
           mq_backdrop = (case mo_backdrop opts of None \<Rightarrow> Backdrop | Some b \<Rightarrow> b),
           mq_keyboard = (case mo_keyboard opts of None \<Rightarrow> True | Some b \<Rightarrow> b)\<rparr>]\<rparr>))"

text \<open>Template and values have arrived: a new scope, the window on the stack, and \<open>opened\<close> resolved.\<close>

definition modal_arrived :: "modal_request \<Rightarrow> nat \<Rightarrow> modal_state \<Rightarrow> modal_state" where
  "modal_arrived q sc s =
    (let s1 = stack_open (mq_instance q) \<lparr>mw_deferred = mq_result q, mw_scope = sc,
           mw_backdrop = mq_backdrop q, mw_keyboard = mq_keyboard q\<rparr>
         (s\<lparr>ms_requests := remove1 q (ms_requests s)\<rparr>)
     in s1\<lparr>ms_opened := settle_deferred (mq_opened q) (Resolved True) (ms_opened s1)\<rparr>)"

definition modal_failed :: "modal_request \<Rightarrow> string option \<Rightarrow> modal_state \<Rightarrow> modal_state" where
  "modal_failed q reason s = s\<lparr>ms_requests := remove1 q (ms_requests s),
     ms_results := settle_deferred (mq_result q) (Rejected reason) (ms_results s),
     ms_opened := settle_deferred (mq_opened q) (Rejected False) (ms_opened s)\<rparr>"

definition modal_init :: modal_state where
  "modal_init = \<lparr>ms_windows = [], ms_backdrop = None, ms_watched = None, ms_body = [], ms_open_class = False,
     ms_leaving = [], ms_destroyed = [], ms_requests = [], ms_results = [], ms_opened = [], ms_next = 0\<rparr>"

inductive modal_step :: "modal_state \<Rightarrow> modal_state \<Rightarrow> bool" where
  requested: "modal_open opts s = Inr (k, t) \<Longrightarrow> modal_step s t"
| arrived: "q \<in> set (ms_requests s) \<Longrightarrow> modal_step s (modal_arrived q sc s)"
| failed: "q \<in> set (ms_requests s) \<Longrightarrow> modal_step s (modal_failed q r s)"
| closed: "modal_step s (stack_close k r s)"
| dismissed: "modal_step s (stack_dismiss k r s)"
| dismissed_all: "modal_step s (dismissAll r s)"
| escape: "modal_step s (escape_pressed s)"
| clicked: "modal_step s (backdrop_clicked s)"
| animated: "modal_step s (afterAnimating a s)"
| digested: "modal_step s (modal_digest s)"

section \<open>What the page sees\<close>

fun leaving_el :: "leaving \<Rightarrow> modal_el" where
  "leaving_el (Leave_Window k sc) = Window_El k"
| "leaving_el (Leave_Backdrop b) = Backdrop_El b"

definition is_leave_window :: "leaving \<Rightarrow> bool" where
  "is_leave_window a \<longleftrightarrow> (case a of Leave_Window k sc \<Rightarrow> True | Leave_Backdrop b \<Rightarrow> False)"

definition backdrop_els :: "modal_state \<Rightarrow> modal_el list" where
  "backdrop_els s = (case ms_backdrop s of Some (b, _) \<Rightarrow> [Backdrop_El b] | None \<Rightarrow> [])"

definition backdrop_wanted :: "modal_window stacked \<Rightarrow> bool" where
  "backdrop_wanted st \<longleftrightarrow> list_ex (\<lambda>e. has_backdrop (snd e)) st"

definition modal_page_inv :: "modal_state \<Rightarrow> bool" where
  "modal_page_inv s \<longleftrightarrow>
     mset (ms_body s) = mset (map Window_El (sm_keys (ms_windows s))) + mset (backdrop_els s)
       + mset (map leaving_el (ms_leaving s)) \<and>
     (ms_windows s \<noteq> [] \<longrightarrow> ms_open_class s) \<and>
     (ms_open_class s \<longrightarrow> ms_windows s \<noteq> [] \<or> list_ex is_leave_window (ms_leaving s)) \<and>
     (backdrop_wanted (ms_windows s) \<longrightarrow> ms_backdrop s \<noteq> None) \<and>
     (ms_backdrop s \<noteq> None \<longrightarrow> backdrop_wanted (ms_windows s) \<or> list_ex is_leave_window (ms_leaving s))"

text \<open>Identities: every window and every request has its own instance and its own unsettled result.\<close>

definition modal_ids_inv :: "modal_state \<Rightarrow> bool" where
  "modal_ids_inv s \<longleftrightarrow>
     distinct (sm_keys (ms_windows s) @ map mq_instance (ms_requests s)) \<and>
     distinct (map (mw_deferred \<circ> snd) (ms_windows s) @ map mq_result (ms_requests s)) \<and>
     (\<forall>k \<in> set (sm_keys (ms_windows s)) \<union> mq_instance ` set (ms_requests s). k < ms_next s) \<and>
     (\<forall>d \<in> (mw_deferred \<circ> snd) ` set (ms_windows s) \<union> mq_result ` set (ms_requests s).
        d < ms_next s \<and> map_of (ms_results s) d = None) \<and>
     (\<forall>d \<in> fst ` set (ms_results s). d < ms_next s)"

lemma backdrop_loop_found:
  "\<forall>k \<in> set ks. sm_get k st \<noteq> None \<Longrightarrow> 0 \<le> i \<Longrightarrow> -1 \<le> found \<Longrightarrow>
    -1 \<le> backdrop_loop st ks i found \<and>
    (0 \<le> backdrop_loop st ks i found \<longleftrightarrow> 0 \<le> found \<or> (\<exists>k \<in> set ks. has_backdrop (the (sm_get k st))))"
proof (induction ks arbitrary: i found)
  case (Cons k ks)
  then obtain w where w: "sm_get k st = Some w" by auto
  show ?case
  proof (cases "has_backdrop w")
    case True
    with Cons.IH [of "i + 1" i] Cons.prems w show ?thesis by auto
  next
    case False
    with Cons.IH [of "i + 1" found] Cons.prems w show ?thesis by auto
  qed
qed simp

lemma backdropIndex_wanted:
  assumes "distinct (sm_keys st)"
  shows "0 \<le> backdropIndex st \<longleftrightarrow> backdrop_wanted st" "backdropIndex st = -1 \<longleftrightarrow> \<not> backdrop_wanted st"
proof -
  have "\<forall>k \<in> set (sm_keys st). sm_get k st \<noteq> None" by (simp add: sm_get_None)
  note found = backdrop_loop_found [OF this, of 0 "-1"]
  have "(\<exists>k \<in> set (sm_keys st). has_backdrop (the (sm_get k st))) \<longleftrightarrow> backdrop_wanted st"
    using assms by (force simp: backdrop_wanted_def list_ex_iff sm_keys_def sm_get_map_of)
  with found show "0 \<le> backdropIndex st \<longleftrightarrow> backdrop_wanted st" "backdropIndex st = -1 \<longleftrightarrow> \<not> backdrop_wanted st"
    by (auto simp: backdropIndex_def)
qed

lemma backdrop_wanted_simps [simp]:
  "\<not> backdrop_wanted []" "backdrop_wanted (sm_add k w st) \<longleftrightarrow> has_backdrop w \<or> backdrop_wanted st"
  by (auto simp: backdrop_wanted_def sm_add_def)

lemma sm_keys_simps [simp]:
  "sm_keys [] = []" "sm_keys (sm_add k w st) = sm_keys st @ [k]" "sm_add k w st \<noteq> []"
  by (simp_all add: sm_keys_def sm_add_def)

lemma page_inv_checkRemoveBackdrop:
  assumes "distinct (sm_keys (ms_windows s))"
    and "mset (ms_body s) = mset (map Window_El (sm_keys (ms_windows s))) + mset (backdrop_els s)
       + mset (map leaving_el (ms_leaving s))"
    and "ms_open_class s \<longleftrightarrow> ms_windows s \<noteq> []"
    and "backdrop_wanted (ms_windows s) \<longrightarrow> ms_backdrop s \<noteq> None"
  shows "modal_page_inv (checkRemoveBackdrop s)"
  using assms
  by (auto simp: modal_page_inv_def checkRemoveBackdrop_def backdrop_els_def backdropIndex_wanted split: option.splits)

lemma page_inv_afterAnimating:
  assumes "modal_page_inv s" "distinct (sm_keys (ms_windows s))"
  shows "modal_page_inv (afterAnimating a s)"
proof (cases "a \<in> set (ms_leaving s)")
  case True
  then have m: "mset (ms_leaving s) = add_mset a (mset (remove1 a (ms_leaving s)))" by simp
  then have b: "mset (map leaving_el (ms_leaving s)) = add_mset (leaving_el a) (mset (map leaving_el (remove1 a (ms_leaving s))))"
    by (metis image_mset_add_mset mset_map)
  show ?thesis
  proof (cases a)
    case (Leave_Window k sc)
    have "modal_page_inv (checkRemoveBackdrop (s\<lparr>ms_leaving := remove1 a (ms_leaving s),
        ms_body := remove1 (Window_El k) (ms_body s), ms_destroyed := Window_Scope sc # ms_destroyed s,
        ms_open_class := (ms_windows s \<noteq> [])\<rparr>))"
      by (rule page_inv_checkRemoveBackdrop)
        (use assms b Leave_Window in \<open>auto simp: modal_page_inv_def backdrop_els_def simp del: mset_map\<close>)
    with True Leave_Window show ?thesis by (simp add: afterAnimating_def Let_def)
  next
    case (Leave_Backdrop d)
    have "list_ex is_leave_window (ms_leaving s) \<Longrightarrow> list_ex is_leave_window (remove1 a (ms_leaving s))"
      using Leave_Backdrop True by (auto simp: list_ex_iff is_leave_window_def split: leaving.splits)
    with True Leave_Backdrop assms(1) b show ?thesis
      by (auto simp: afterAnimating_def Let_def modal_page_inv_def backdrop_els_def simp del: mset_map)
  qed
qed (simp add: afterAnimating_def assms)

lemma sm_remove_keys: "sm_get k st = Some w \<Longrightarrow> mset (sm_keys st) = add_mset k (mset (sm_keys (sm_remove k st)))"
  unfolding sm_keys_def mset_map by (subst sm_remove_mset) simp_all

lemma backdrop_wanted_remove:
  "sm_get k st = Some w \<Longrightarrow> backdrop_wanted (sm_remove k st) \<Longrightarrow> backdrop_wanted st"
  using sm_remove_mset [of k st w] unfolding backdrop_wanted_def list_ex_iff
  by (metis insert_iff set_mset_add_mset_insert set_mset_mset)

lemma page_inv_remove:
  assumes "modal_page_inv s" "sm_get k (ms_windows s) = Some w"
  shows "modal_page_inv (removeModalWindow k w s)"
proof -
  have "is_leave_window (Leave_Window k (mw_scope w))" by (simp add: is_leave_window_def)
  with assms(1) sm_remove_keys [OF assms(2)] show ?thesis
    by (auto simp: modal_page_inv_def removeModalWindow_def backdrop_els_def
        dest: backdrop_wanted_remove [OF assms(2)])
qed

lemma page_inv_settled: "modal_page_inv (s\<lparr>ms_results := rs\<rparr>) = modal_page_inv s"
  by (simp add: modal_page_inv_def backdrop_els_def)

lemma page_inv_stack_open:
  assumes "modal_page_inv s" "distinct (sm_keys (ms_windows s) @ [k])"
  shows "modal_page_inv (stack_open k w s)"
proof -
  have "distinct (sm_keys (sm_add k w (ms_windows s)))" using assms(2) by simp
  note ix = backdropIndex_wanted [OF this]
  show ?thesis
    using assms(1) by (auto simp: modal_page_inv_def stack_open_def Let_def ix backdrop_els_def sm_add_def [symmetric]
      split: option.splits)
qed

section \<open>The invariant\<close>

definition modal_inv :: "modal_state \<Rightarrow> bool" where
  "modal_inv s \<longleftrightarrow> modal_page_inv s \<and> modal_ids_inv s"

lemma ids_keys: "modal_ids_inv s \<Longrightarrow> distinct (sm_keys (ms_windows s))"
  by (simp add: modal_ids_inv_def)

lemma ids_window:
  assumes "modal_ids_inv s" "(k, w) \<in> set (ms_windows s)"
  shows "k < ms_next s" "mw_deferred w < ms_next s" "map_of (ms_results s) (mw_deferred w) = None"
proof -
  have "k \<in> set (sm_keys (ms_windows s))" using assms(2) by (force simp: sm_keys_def)
  moreover have "mw_deferred w \<in> (mw_deferred \<circ> snd) ` set (ms_windows s)" using assms(2) by force
  ultimately show "k < ms_next s" "mw_deferred w < ms_next s" "map_of (ms_results s) (mw_deferred w) = None"
    using assms(1) unfolding modal_ids_inv_def by blast+
qed

lemma ids_inv_parts:
  assumes "modal_ids_inv s" "ms_windows t = ms_windows s" "ms_requests t = ms_requests s"
    "ms_results t = ms_results s" "ms_next s \<le> ms_next t"
  shows "modal_ids_inv t"
  using assms unfolding modal_ids_inv_def by (auto dest: order.strict_trans2)

lemma afterAnimating_ids:
  "ms_windows (afterAnimating a s) = ms_windows s \<and> ms_requests (afterAnimating a s) = ms_requests s \<and>
   ms_results (afterAnimating a s) = ms_results s \<and> ms_next (afterAnimating a s) = ms_next s"
  by (simp add: afterAnimating_def Let_def checkRemoveBackdrop_def split: leaving.split option.split)

lemma modal_digest_ids:
  "ms_windows (modal_digest s) = ms_windows s \<and> ms_requests (modal_digest s) = ms_requests s \<and>
   ms_results (modal_digest s) = ms_results s \<and> ms_next (modal_digest s) = ms_next s"
  by (simp add: modal_digest_def Let_def)

lemma inv_afterAnimating: "modal_inv s \<Longrightarrow> modal_inv (afterAnimating a s)"
  unfolding modal_inv_def
  using page_inv_afterAnimating [OF _ ids_keys] ids_inv_parts [of s "afterAnimating a s"] afterAnimating_ids [of a s]
  by simp

lemma page_inv_digest: "modal_page_inv s \<Longrightarrow> modal_page_inv (modal_digest s)"
  by (simp add: modal_digest_def Let_def modal_page_inv_def backdrop_els_def split: option.splits)

lemma inv_digest: "modal_inv s \<Longrightarrow> modal_inv (modal_digest s)"
  unfolding modal_inv_def
  using page_inv_digest ids_inv_parts [of s "modal_digest s"] modal_digest_ids [of s] by simp

text \<open>Taking a window off the stack and settling its result.\<close>

lemma ids_inv_remove:
  assumes "modal_ids_inv s" "sm_get k (ms_windows s) = Some w"
  shows "modal_ids_inv (removeModalWindow k w (s\<lparr>ms_results := settle_deferred (mw_deferred w) out (ms_results s)\<rparr>))"
proof -
  note rem = sm_remove_filter [OF assms(2) ids_keys [OF assms(1)]]
  have kw: "(k, w) \<in> set (ms_windows s)" using assms(2) by (rule sm_get_entry)
  have none: "map_of (ms_results s) (mw_deferred w) = None" and less: "mw_deferred w < ms_next s"
    using ids_window [OF assms(1) kw] by simp_all
  have other: "mw_deferred (snd e) \<noteq> mw_deferred w" if "e \<in> set (ms_windows s)" "fst e \<noteq> k" for e
  proof -
    have "distinct (map (mw_deferred \<circ> snd) (ms_windows s))" using assms(1) by (simp add: modal_ids_inv_def)
    from inj_onD [OF conjunct2 [OF distinct_map [THEN iffD1, OF this]] _ that(1) kw] that(2)
    show ?thesis by (cases e) auto
  qed
  have req: "mq_result q \<noteq> mw_deferred w" if "q \<in> set (ms_requests s)" for q
  proof -
    have "mq_result q \<in> mq_result ` set (ms_requests s)" using that by blast
    moreover have "mw_deferred w \<in> (mw_deferred \<circ> snd) ` set (ms_windows s)" using kw by force
    ultimately show ?thesis using assms(1) unfolding modal_ids_inv_def by auto
  qed
  show ?thesis
    using assms(1) none less other req
    unfolding modal_ids_inv_def removeModalWindow_def
    by (auto simp: rem settle_deferred_def sm_keys_def distinct_map_filter)
qed

lemma inv_remove:
  assumes "modal_inv s" "sm_get k (ms_windows s) = Some w"
  shows "modal_inv (removeModalWindow k w (s\<lparr>ms_results := settle_deferred (mw_deferred w) out (ms_results s)\<rparr>))"
  using assms ids_inv_remove [of s k w out]
  by (simp add: modal_inv_def page_inv_remove page_inv_settled)

lemma inv_close: "modal_inv s \<Longrightarrow> modal_inv (stack_close k r s)"
  by (auto simp: stack_close_def inv_remove split: option.splits)

lemma inv_dismiss: "modal_inv s \<Longrightarrow> modal_inv (stack_dismiss k r s)"
  by (auto simp: stack_dismiss_def inv_remove split: option.splits)

lemma dismissAll_keeps:
  assumes "\<And>k s. P s \<Longrightarrow> P (stack_dismiss k r s)"
  shows "P s \<Longrightarrow> P (dismissAll r s)"
proof (induction "length (ms_windows s)" arbitrary: s rule: less_induct)
  case less
  show ?case
  proof (cases "sm_top (ms_windows s)")
    case (Some e)
    then obtain w where w: "sm_get (fst e) (ms_windows s) = Some w" using top_present by blast
    have "P (dismissAll r (stack_dismiss (fst e) r s))"
      using less sm_remove_length [OF w] by (intro less.hyps assms) (simp_all add: stack_dismiss_windows [OF w])
    with Some show ?thesis by (subst dismissAll.simps) simp
  qed (use less.prems in \<open>simp add: dismissAll.simps\<close>)
qed

lemma dismissAll_empties: "ms_windows (dismissAll r s) = []"
proof (induction r s rule: dismissAll.induct)
  case (1 r s)
  then show ?case by (subst dismissAll.simps) (auto simp: sm_top_def split: option.splits)
qed

lemma inv_stack_open:
  assumes "modal_inv s" "q \<in> set (ms_requests s)"
  shows "modal_inv (modal_arrived q sc s)"
proof -
  let ?s = "s\<lparr>ms_requests := remove1 q (ms_requests s)\<rparr>"
  let ?w = "\<lparr>mw_deferred = mq_result q, mw_scope = sc, mw_backdrop = mq_backdrop q, mw_keyboard = mq_keyboard q\<rparr>"
  have m: "mset (ms_requests s) = add_mset q (mset (remove1 q (ms_requests s)))" using assms(2) by simp
  have set: "set (ms_requests s) = insert q (set (remove1 q (ms_requests s)))"
    using arg_cong [OF m, of set_mset] by (simp only: set_mset_mset set_mset_add_mset_insert)
  have "distinct (map f (ms_requests s)) \<longleftrightarrow> distinct (map f (q # remove1 q (ms_requests s)))" for f :: "modal_request \<Rightarrow> nat"
    by (rule mset_eq_imp_distinct_iff) (metis m mset_map mset.simps(2))
  then have dist: "distinct (map f (ms_requests s)) \<longleftrightarrow>
      f q \<notin> f ` set (remove1 q (ms_requests s)) \<and> distinct (map f (remove1 q (ms_requests s)))" for f :: "modal_request \<Rightarrow> nat"
    by auto
  have ids: "modal_ids_inv s" and page: "modal_page_inv ?s"
    using assms(1) by (simp_all add: modal_inv_def modal_page_inv_def backdrop_els_def)
  have "distinct (sm_keys (ms_windows ?s) @ [mq_instance q])"
    using ids assms(2) by (auto simp: modal_ids_inv_def)
  from page_inv_stack_open [OF page this, of ?w]
  have "modal_page_inv (modal_arrived q sc s)"
    by (simp add: modal_arrived_def Let_def modal_page_inv_def backdrop_els_def)
  moreover have "modal_ids_inv (modal_arrived q sc s)"
  proof -
    obtain R where R: "remove1 q (ms_requests s) = R" by simp
    note parts = ids [unfolded modal_ids_inv_def, unfolded distinct_append dist set_map, unfolded set, unfolded R]
    note p1 = conjunct1 [OF parts] and p2 = conjunct1 [OF conjunct2 [OF parts]]
      and p3 = conjunct1 [OF conjunct2 [OF conjunct2 [OF parts]]]
      and p4 = conjunct1 [OF conjunct2 [OF conjunct2 [OF conjunct2 [OF parts]]]]
      and p5 = conjunct2 [OF conjunct2 [OF conjunct2 [OF conjunct2 [OF parts]]]]
    have sub: "ms_next s \<le> ms_next (modal_arrived q sc s)"
      by (simp add: modal_arrived_def stack_open_def Let_def)
    have fields: "ms_windows (modal_arrived q sc s) = ms_windows s @ [(mq_instance q, ?w)]"
      "ms_requests (modal_arrived q sc s) = R" "ms_results (modal_arrived q sc s) = ms_results s"
      by (simp_all add: modal_arrived_def stack_open_def Let_def sm_add_def R)
    show ?thesis
      unfolding modal_ids_inv_def fields
    proof (intro conjI)
      let ?W = "ms_windows s @ [(mq_instance q, ?w)]"
      show "distinct (sm_keys ?W @ map mq_instance R)" using p1 by (auto simp: sm_keys_def)
      show "distinct (map (mw_deferred \<circ> snd) ?W @ map mq_result R)" using p2 by auto
      have "set (sm_keys ?W) \<union> mq_instance ` set R = set (sm_keys (ms_windows s)) \<union> mq_instance ` insert q (set R)"
        by (auto simp: sm_keys_def)
      with p3 sub show "\<forall>k \<in> set (sm_keys ?W) \<union> mq_instance ` set R. k < ms_next (modal_arrived q sc s)"
        by (metis less_le_trans)
      have "(mw_deferred \<circ> snd) ` set ?W \<union> mq_result ` set R = (mw_deferred \<circ> snd) ` set (ms_windows s) \<union> mq_result ` insert q (set R)"
        by auto
      with p4 sub show "\<forall>d \<in> (mw_deferred \<circ> snd) ` set ?W \<union> mq_result ` set R.
          d < ms_next (modal_arrived q sc s) \<and> map_of (ms_results s) d = None"
        by (metis less_le_trans)
      show "\<forall>d \<in> fst ` set (ms_results s). d < ms_next (modal_arrived q sc s)"
        using p5 sub by (meson less_le_trans)
    qed
  qed
  ultimately show ?thesis by (simp add: modal_inv_def)
qed

lemma inv_failed:
  assumes "modal_inv s" "q \<in> set (ms_requests s)"
  shows "modal_inv (modal_failed q r s)"
proof -
  have m: "mset (ms_requests s) = add_mset q (mset (remove1 q (ms_requests s)))" using assms(2) by simp
  have set: "set (ms_requests s) = insert q (set (remove1 q (ms_requests s)))"
    using arg_cong [OF m, of set_mset] by (simp only: set_mset_mset set_mset_add_mset_insert)
  have "distinct (map f (ms_requests s)) \<longleftrightarrow> distinct (map f (q # remove1 q (ms_requests s)))" for f :: "modal_request \<Rightarrow> nat"
    by (rule mset_eq_imp_distinct_iff) (metis m mset_map mset.simps(2))
  then have dist: "distinct (map f (ms_requests s)) \<longleftrightarrow>
      f q \<notin> f ` set (remove1 q (ms_requests s)) \<and> distinct (map f (remove1 q (ms_requests s)))" for f :: "modal_request \<Rightarrow> nat"
    by auto
  obtain R where R: "remove1 q (ms_requests s) = R" by simp
  have "modal_ids_inv s" using assms(1) by (simp add: modal_inv_def)
  note parts = this [unfolded modal_ids_inv_def, unfolded distinct_append dist set_map, unfolded set, unfolded R]
  have none: "map_of (ms_results s) (mq_result q) = None" and less: "mq_result q < ms_next s" using parts by blast+
  have "modal_ids_inv (modal_failed q r s)"
    unfolding modal_ids_inv_def
    using parts none less by (simp add: modal_failed_def settle_deferred_def R) blast
  moreover have "modal_page_inv (modal_failed q r s)"
    using assms(1) by (simp add: modal_inv_def modal_page_inv_def modal_failed_def backdrop_els_def)
  ultimately show ?thesis by (simp add: modal_inv_def)
qed

lemma inv_requested:
  assumes "modal_inv s" "modal_open opts s = Inr (k, t)"
  shows "modal_inv t"
proof -
  obtain b e where t: "t = s\<lparr>ms_next := ms_next s + 3, ms_requests := ms_requests s @
      [\<lparr>mq_instance = ms_next s, mq_result = ms_next s + 1, mq_opened = ms_next s + 2, mq_backdrop = b, mq_keyboard = e\<rparr>]\<rparr>"
    using assms(2) by (auto simp: modal_open_def Let_def split: if_splits)
  have page: "modal_page_inv t" using assms(1) by (simp add: t modal_inv_def modal_page_inv_def backdrop_els_def)
  have ids: "modal_ids_inv s" using assms(1) by (simp add: modal_inv_def)
  have none: "map_of (ms_results s) d = None" if "ms_next s \<le> d" for d
    using ids that unfolding modal_ids_inv_def by (metis linorder_not_le map_of_eq_None_iff)
  have new: "ms_next s + 1 \<notin> (mw_deferred \<circ> snd) ` set (ms_windows s) \<union> mq_result ` set (ms_requests s)"
    using ids unfolding modal_ids_inv_def by (meson not_add_less1)
  have old: "distinct (map (mw_deferred \<circ> snd) (ms_windows s) @ map mq_result (ms_requests s))"
    using ids unfolding modal_ids_inv_def by blast
  have "modal_ids_inv t"
    unfolding modal_ids_inv_def
  proof (intro conjI)
    show "distinct (sm_keys (ms_windows t) @ map mq_instance (ms_requests t))"
      using ids unfolding modal_ids_inv_def by (auto simp: t)
    show "distinct (map (mw_deferred \<circ> snd) (ms_windows t) @ map mq_result (ms_requests t))"
      using old new by (auto simp: t simp del: One_nat_def)
    show "\<forall>k \<in> set (sm_keys (ms_windows t)) \<union> mq_instance ` set (ms_requests t). k < ms_next t"
      using ids unfolding modal_ids_inv_def by (auto simp: t trans_less_add1)
    show "\<forall>d \<in> (mw_deferred \<circ> snd) ` set (ms_windows t) \<union> mq_result ` set (ms_requests t).
        d < ms_next t \<and> map_of (ms_results t) d = None"
      using ids none unfolding modal_ids_inv_def by (auto simp: t trans_less_add1)
    show "\<forall>d \<in> fst ` set (ms_results t). d < ms_next t"
      using ids unfolding modal_ids_inv_def by (auto simp: t trans_less_add1)
  qed
  with page show ?thesis by (simp add: modal_inv_def)
qed

lemma inv_init: "modal_inv modal_init"
  by (simp add: modal_inv_def modal_ids_inv_def modal_page_inv_def modal_init_def backdrop_els_def)

lemma modal_step_inv: "modal_step s t \<Longrightarrow> modal_inv s \<Longrightarrow> modal_inv t"
proof (induction rule: modal_step.induct)
  case (dismissed_all s r)
  then show ?case by (rule dismissAll_keeps [where P = modal_inv, rotated]) (rule inv_dismiss)
qed (auto simp: escape_pressed_def backdrop_clicked_def split: option.splits
    intro: inv_requested inv_stack_open inv_failed inv_close inv_dismiss inv_digest inv_afterAnimating)

lemma modal_reachable_inv: "modal_step\<^sup>*\<^sup>* modal_init s \<Longrightarrow> modal_inv s"
  by (induction rule: rtranclp_induct) (auto intro: inv_init modal_step_inv)

section \<open>Results\<close>

definition results_kept :: "modal_state \<Rightarrow> modal_state \<Rightarrow> bool" where
  "results_kept s t \<longleftrightarrow> (\<forall>d out. map_of (ms_results s) d = Some out \<longrightarrow> map_of (ms_results t) d = Some out)"

lemma results_kept_trans: "results_kept s t \<Longrightarrow> results_kept t u \<Longrightarrow> results_kept s u"
  by (simp add: results_kept_def)

lemma results_kept_same: "ms_results t = ms_results s \<Longrightarrow> results_kept s t"
  by (simp add: results_kept_def)

lemma results_kept_settle:
  "ms_results t = settle_deferred d out (ms_results s) \<Longrightarrow> results_kept s t"
  by (auto simp: results_kept_def settle_deferred_def)

lemma results_kept_close: "results_kept s (stack_close k r s)" "results_kept s (stack_dismiss k r s)"
  by (auto simp: stack_close_def stack_dismiss_def removeModalWindow_def split: option.split
      intro: results_kept_same results_kept_settle)

lemma modal_step_results: "modal_step s t \<Longrightarrow> results_kept s t"
proof (induction rule: modal_step.induct)
  case (dismissed_all s r)
  have "results_kept s' (stack_dismiss k r s')" for k s' by (rule results_kept_close)
  with dismissAll_keeps [of "results_kept s"] show ?case
    by (metis results_kept_same results_kept_trans)
next
  case (animated s a)
  then show ?case using afterAnimating_ids by (auto intro: results_kept_same)
next
  case (digested s)
  then show ?case using modal_digest_ids by (auto intro: results_kept_same)
next
  case (escape s)
  have "results_kept s (modal_digest (stack_dismiss k r s))" for k r
    using results_kept_close(2) modal_digest_ids by (metis results_kept_same results_kept_trans)
  then show ?case by (auto simp: escape_pressed_def results_kept_same split: option.split)
qed (auto simp: backdrop_clicked_def modal_open_def modal_arrived_def stack_open_def modal_failed_def Let_def
    split: option.split if_splits intro: results_kept_close results_kept_same results_kept_settle)

lemma modal_steps_results: "modal_step\<^sup>*\<^sup>* s t \<Longrightarrow> results_kept s t"
  by (induction rule: rtranclp_induct) (auto intro: results_kept_same results_kept_trans modal_step_results)

text \<open>The result of a window is open until the window is closed or dismissed.\<close>

lemma result_settled:
  assumes "modal_step\<^sup>*\<^sup>* modal_init s" "sm_get k (ms_windows s) = Some w"
  shows "map_of (ms_results s) (mw_deferred w) = None"
    "modal_step\<^sup>*\<^sup>* (stack_close k r s) t \<Longrightarrow> map_of (ms_results t) (mw_deferred w) = Some (Resolved r)"
    "modal_step\<^sup>*\<^sup>* (stack_dismiss k r s) t \<Longrightarrow> map_of (ms_results t) (mw_deferred w) = Some (Rejected r)"
proof -
  have "modal_ids_inv s" using modal_reachable_inv [OF assms(1)] by (simp add: modal_inv_def)
  then show none: "map_of (ms_results s) (mw_deferred w) = None" using ids_window(3) sm_get_entry [OF assms(2)] by blast
  have "map_of (ms_results (stack_close k r s)) (mw_deferred w) = Some (Resolved r)"
    "map_of (ms_results (stack_dismiss k r s)) (mw_deferred w) = Some (Rejected r)"
    using none assms(2) by (simp_all add: stack_close_def stack_dismiss_def removeModalWindow_def settle_deferred_def)
  with modal_steps_results show
    "modal_step\<^sup>*\<^sup>* (stack_close k r s) t \<Longrightarrow> map_of (ms_results t) (mw_deferred w) = Some (Resolved r)"
    "modal_step\<^sup>*\<^sup>* (stack_dismiss k r s) t \<Longrightarrow> map_of (ms_results t) (mw_deferred w) = Some (Rejected r)"
    unfolding results_kept_def by blast+
qed

section \<open>Properties\<close>

text \<open>C13: whatever windows open, close, are dismissed or fail, and however their animations interleave: every window on
  the stack is in the body, under the class \<open>modal-open\<close> and, when it wants one, over a backdrop; once all closing
  animations have ended, the body holds exactly the windows of the stack and at most one backdrop, which is there if
  and only if a window wants one, and the class is there if and only if a window is.\<close>

theorem modal_page_truthful:
  assumes "modal_step\<^sup>*\<^sup>* modal_init s"
  shows "distinct (sm_keys (ms_windows s)) \<and>
    set (map Window_El (sm_keys (ms_windows s))) \<subseteq> set (ms_body s) \<and>
    (ms_windows s = [] \<or> ms_open_class s) \<and>
    (\<not> list_ex (\<lambda>e. mw_backdrop (snd e) \<noteq> No_Backdrop) (ms_windows s) \<or> ms_backdrop s \<noteq> None) \<and>
    (ms_leaving s = [] \<longrightarrow>
      mset (ms_body s) = mset (map Window_El (sm_keys (ms_windows s))) +
        (case ms_backdrop s of None \<Rightarrow> {#} | Some (b, _) \<Rightarrow> {#Backdrop_El b#}) \<and>
      (ms_open_class s \<longleftrightarrow> ms_windows s \<noteq> []) \<and>
      (ms_backdrop s \<noteq> None \<longleftrightarrow> list_ex (\<lambda>e. mw_backdrop (snd e) \<noteq> No_Backdrop) (ms_windows s)))"
proof -
  have inv: "modal_page_inv s" "distinct (sm_keys (ms_windows s))"
    using modal_reachable_inv [OF assms] by (simp_all add: modal_inv_def modal_ids_inv_def)
  have "set_mset (mset (ms_body s)) = set_mset (mset (map Window_El (sm_keys (ms_windows s))) + mset (backdrop_els s)
       + mset (map leaving_el (ms_leaving s)))" using inv(1) by (simp add: modal_page_inv_def)
  then have "Window_El ` set (sm_keys (ms_windows s)) \<subseteq> set (ms_body s)" by auto
  with inv show ?thesis
    by (auto simp: modal_page_inv_def backdrop_wanted_def has_backdrop_def backdrop_els_def split: option.splits)
qed

text \<open>the result of a window on the stack is open; closing the window resolves it and dismissing rejects it with the
  value given, the window leaves the stack, and nothing that happens later changes the result.\<close>

theorem modal_result_final:
  assumes "modal_step\<^sup>*\<^sup>* modal_init s" "sm_get k (ms_windows s) = Some w"
  shows "map_of (ms_results s) (mw_deferred w) = None \<and>
    k \<notin> set (sm_keys (ms_windows (stack_close k r s))) \<and>
    (modal_step\<^sup>*\<^sup>* (stack_close k r s) t \<longrightarrow> map_of (ms_results t) (mw_deferred w) = Some (Resolved r)) \<and>
    k \<notin> set (sm_keys (ms_windows (stack_dismiss k r s))) \<and>
    (modal_step\<^sup>*\<^sup>* (stack_dismiss k r s) t \<longrightarrow> map_of (ms_results t) (mw_deferred w) = Some (Rejected r))"
proof -
  have ids: "modal_ids_inv s" using modal_reachable_inv [OF assms(1)] by (simp add: modal_inv_def)
  have gone: "k \<notin> set (sm_keys (sm_remove k (ms_windows s)))"
    using sm_remove_filter [OF assms(2) ids_keys [OF ids]] by (auto simp: sm_keys_def)
  from result_settled [OF assms] show ?thesis
    using gone assms(2) by (auto simp: stack_close_def stack_dismiss_def removeModalWindow_def)
qed

text \<open>A window with the default options, opened from an empty page in scope 7.\<close>

definition plain_request :: modal_request where
  "plain_request = \<lparr>mq_instance = 0, mq_result = 1, mq_opened = 2, mq_backdrop = Backdrop, mq_keyboard = True\<rparr>"

definition one_window :: modal_state where
  "one_window = modal_arrived plain_request 7 (modal_init\<lparr>ms_next := 3, ms_requests := [plain_request]\<rparr>)"

lemma one_window_state: "one_window = \<lparr>ms_windows = [(0, \<lparr>mw_deferred = 1, mw_scope = 7, mw_backdrop = Backdrop, mw_keyboard = True\<rparr>)],
     ms_backdrop = Some (3, 0), ms_watched = None, ms_body = [Backdrop_El 3, Window_El 0], ms_open_class = True,
     ms_leaving = [], ms_destroyed = [], ms_requests = [], ms_results = [], ms_opened = [(2, Resolved True)], ms_next = 4\<rparr>"
  by (simp add: one_window_def modal_arrived_def stack_open_def modal_init_def plain_request_def Let_def
      sm_add_def backdropIndex_def sm_keys_def has_backdrop_def settle_deferred_def)

lemma one_window_reachable: "modal_step\<^sup>*\<^sup>* modal_init one_window"
proof -
  have "modal_step modal_init (modal_init\<lparr>ms_next := 3, ms_requests := [plain_request]\<rparr>)"
    by (rule modal_step.requested [of "\<lparr>mo_template = Some ''<p>'', mo_templateUrl = None, mo_backdrop = None, mo_keyboard = None\<rparr>" _ 0])
      (simp add: modal_open_def modal_init_def plain_request_def falsy_string_def Let_def numeral_3_eq_3)
  moreover have "modal_step (modal_init\<lparr>ms_next := 3, ms_requests := [plain_request]\<rparr>) one_window"
    unfolding one_window_def by (rule modal_step.arrived) simp
  ultimately show ?thesis by (meson converse_rtranclp_into_rtranclp rtranclp.rtrancl_refl)
qed

theorem modal_page_truthful_witness:
  "mset (ms_body one_window) = {#Window_El 0, Backdrop_El 3#} \<and> ms_open_class one_window"
  using modal_page_truthful [OF one_window_reachable] by (simp add: one_window_state sm_keys_def)

theorem modal_result_final_witness:
  "map_of (ms_results (stack_close 0 (Some ''ok'') (stack_dismiss 0 None one_window))) 1 = Some (Rejected None)"
proof -
  have w: "sm_get 0 (ms_windows one_window) = Some (snd (hd (ms_windows one_window)))" by (simp add: one_window_state)
  have "modal_step\<^sup>*\<^sup>* (stack_dismiss 0 None one_window) (stack_close 0 (Some ''ok'') (stack_dismiss 0 None one_window))"
    by (intro r_into_rtranclp modal_step.closed)
  with modal_result_final [OF one_window_reachable w, of None] show ?thesis by (simp add: one_window_state)
qed

end
