(* ===== verification/App_Dialogs.thy ===== *)
theory App_Dialogs
  imports App_Services Ui_Modal
begin

text \<open>
  The dialogs of the web client (\<open>$dialog\<close> and \<open>AlertDialogController\<close> of public/js/app.js) over the modal
  windows of Ui_Modal.  App_Services models them alone; here the calls \<open>$modal.open\<close> and
  \<open>$modalInstance.close\<close> are the operations of the window stack, so that windows can also be dismissed
  by the escape key or a click, which the list \<open>$rootScope.dialogs\<close> does not hear of.
\<close>

text \<open>A dialog in the list is its scope, which knows its \<open>$modalInstance\<close>; the arguments of a dialog on its way are
  kept under its instance.\<close>

record dialogs_state =
  dl_modal :: modal_state
  dl_dialogs :: "(nat \<times> nat) list"     \<comment> \<open>\<open>$rootScope.dialogs\<close>: scope and instance\<close>
  dl_args :: "(nat \<times> int) list"        \<comment> \<open>instance and status of the data\<close>
  dl_titles :: "(nat \<times> string) list"   \<comment> \<open>scope and title\<close>

text \<open>\<open>$scope.close(result)\<close>; alerts have no callback.\<close>

definition alert_close :: "string option \<Rightarrow> nat \<times> nat \<Rightarrow> dialogs_state \<Rightarrow> dialogs_state" where
  "alert_close result d s = s\<lparr>dl_dialogs := js_without (dl_dialogs s) d,
     dl_modal := stack_close (snd d) result (dl_modal s)\<rparr>"

definition alert_options :: modal_options where
  "alert_options = \<lparr>mo_template = None, mo_templateUrl = Some ''static/partials/alertDialogPartial.html'',
     mo_backdrop = Some Backdrop, mo_keyboard = None\<rparr>"

text \<open>\<open>alert(data)\<close> with data of the given status, through \<open>openDialog\<close>.\<close>

definition alert_open :: "int \<Rightarrow> dialogs_state \<Rightarrow> dialogs_state" where
  "alert_open status s =
    (let s1 = fold (alert_close None) (dl_dialogs s) s;
         s2 = s1\<lparr>dl_dialogs := []\<rparr>
     in (case modal_open alert_options (dl_modal s2) of
           Inl e \<Rightarrow> s2
         | Inr (i, m) \<Rightarrow> s2\<lparr>dl_modal := m, dl_args := (i, status) # dl_args s2\<rparr>))"

text \<open>The template is there: a new scope, \<open>AlertDialogController\<close>, then the window.\<close>

definition alert_arrived :: "modal_request \<Rightarrow> nat \<Rightarrow> dialogs_state \<Rightarrow> dialogs_state" where
  "alert_arrived q sc s =
    (let s1 = s\<lparr>dl_dialogs := dl_dialogs s @ [(sc, mq_instance q)],
           dl_titles := (sc, dialog_title (the (map_of (dl_args s) (mq_instance q)))) # dl_titles s\<rparr>
     in s1\<lparr>dl_modal := modal_arrived q sc (dl_modal s1)\<rparr>)"

definition dialogs_init :: dialogs_state where
  "dialogs_init = \<lparr>dl_modal = modal_init, dl_dialogs = [], dl_args = [], dl_titles = []\<rparr>"

text \<open>Besides alerts: the close button, the escape key, a click beside the window, failed templates, animations
  and digests.\<close>

inductive dialogs_step :: "dialogs_state \<Rightarrow> dialogs_state \<Rightarrow> bool" where
  alert: "dialogs_step s (alert_open st s)"
| arrived: "q \<in> set (ms_requests (dl_modal s)) \<Longrightarrow> dialogs_step s (alert_arrived q sc s)"
| failed: "q \<in> set (ms_requests (dl_modal s)) \<Longrightarrow> dialogs_step s (s\<lparr>dl_modal := modal_failed q r (dl_modal s)\<rparr>)"
| button: "dialogs_step s (alert_close r d s)"
| escape: "dialogs_step s (s\<lparr>dl_modal := escape_pressed (dl_modal s)\<rparr>)"
| clicked: "dialogs_step s (s\<lparr>dl_modal := backdrop_clicked (dl_modal s)\<rparr>)"
| animated: "dialogs_step s (s\<lparr>dl_modal := afterAnimating a (dl_modal s)\<rparr>)"
| digested: "dialogs_step s (s\<lparr>dl_modal := modal_digest (dl_modal s)\<rparr>)"

section \<open>Every window belongs to a dialog of the list\<close>

definition dialogs_inv :: "dialogs_state \<Rightarrow> bool" where
  "dialogs_inv s \<longleftrightarrow> modal_step\<^sup>*\<^sup>* modal_init (dl_modal s) \<and>
     set (sm_keys (ms_windows (dl_modal s))) \<subseteq> snd ` set (dl_dialogs s) \<and>
     (\<forall>q \<in> set (ms_requests (dl_modal s)). mq_instance q \<in> fst ` set (dl_args s) \<and> mq_backdrop q = Backdrop \<and> mq_keyboard q)"

lemma modal_close_windows:
  "set (sm_keys (ms_windows (stack_close k r m))) \<subseteq> set (sm_keys (ms_windows m))"
  "ms_requests (stack_close k r m) = ms_requests m"
proof -
  have "sm_get k (ms_windows m) = Some w \<Longrightarrow> set (sm_keys (sm_remove k (ms_windows m))) \<subseteq> set (sm_keys (ms_windows m))" for w
    by (metis sm_remove_keys set_mset_mset set_mset_add_mset_insert subset_insertI)
  then show "set (sm_keys (ms_windows (stack_close k r m))) \<subseteq> set (sm_keys (ms_windows m))"
    by (simp add: stack_close_def removeModalWindow_def split: option.split)
  show "ms_requests (stack_close k r m) = ms_requests m"
    by (simp add: stack_close_def removeModalWindow_def split: option.split)
qed

lemma modal_dismiss_windows:
  "set (sm_keys (ms_windows (stack_dismiss k r m))) \<subseteq> set (sm_keys (ms_windows m))"
  "ms_requests (stack_dismiss k r m) = ms_requests m"
  using modal_close_windows [of k r m] by (auto simp: stack_close_def stack_dismiss_def removeModalWindow_def split: option.splits)

lemma in_set_remove1_D: "x \<in> set (remove1 a xs) \<Longrightarrow> x \<in> set xs"
  using set_remove1_subset by fast

lemma alert_closes:
  "dl_dialogs (fold (alert_close r) ds s) = filter (\<lambda>d. d \<notin> set ds) (dl_dialogs s)"
  "dl_modal (fold (alert_close r) ds s) = fold (\<lambda>d. stack_close (snd d) r) ds (dl_modal s)"
  "dl_args (fold (alert_close r) ds s) = dl_args s"
  "dl_titles (fold (alert_close r) ds s) = dl_titles s"
  by (induction ds arbitrary: s) (auto simp: alert_close_def js_without_def conj_commute)

lemma closes_steps: "modal_step\<^sup>*\<^sup>* m (fold (\<lambda>d. stack_close (snd d) r) ds m)"
  by (induction ds arbitrary: m) (auto intro: converse_rtranclp_into_rtranclp modal_step.closed)

lemma closes_requests: "ms_requests (fold (\<lambda>d. stack_close (snd d) r) ds m) = ms_requests m"
  by (induction ds arbitrary: m) (simp_all add: modal_close_windows)

lemma closes_keys:
  assumes "modal_step\<^sup>*\<^sup>* modal_init m"
  shows "set (sm_keys (ms_windows (fold (\<lambda>d. stack_close (snd d) r) ds m))) = set (sm_keys (ms_windows m)) - snd ` set ds"
  using assms
proof (induction ds arbitrary: m)
  case (Cons d ds)
  have step: "modal_step\<^sup>*\<^sup>* modal_init (stack_close (snd d) r m)"
    using Cons.prems modal_step.closed by (rule rtranclp.rtrancl_into_rtrancl)
  have dist: "distinct (sm_keys (ms_windows m))"
    using modal_reachable_inv [OF Cons.prems] by (simp add: modal_inv_def ids_keys)
  have "set (sm_keys (ms_windows (stack_close (snd d) r m))) = set (sm_keys (ms_windows m)) - {snd d}"
  proof (cases "sm_get (snd d) (ms_windows m)")
    case None
    then have "stack_close (snd d) r m = m" "snd d \<notin> set (sm_keys (ms_windows m))"
      by (simp_all add: stack_close_def) (simp add: sm_get_None)
    then show ?thesis by simp
  next
    case (Some w)
    from sm_remove_filter [OF Some dist] have "set (sm_keys (sm_remove (snd d) (ms_windows m))) = set (sm_keys (ms_windows m)) - {snd d}"
      by (auto simp: sm_keys_def)
    with Some show ?thesis by (simp add: stack_close_def removeModalWindow_def)
  qed
  with Cons.IH [OF step] show ?case by auto
qed simp

lemma closes_results:
  assumes "modal_step\<^sup>*\<^sup>* modal_init m" "(k, w) \<in> set (ms_windows m)" "k \<in> snd ` set ds"
  shows "map_of (ms_results (fold (\<lambda>d. stack_close (snd d) r) ds m)) (mw_deferred w) = Some (Resolved r)"
  using assms
proof (induction ds arbitrary: m)
  case (Cons d ds)
  have dist: "distinct (sm_keys (ms_windows m))"
    using modal_reachable_inv [OF Cons.prems(1)] by (simp add: modal_inv_def ids_keys)
  note w = sm_get_distinct [OF dist Cons.prems(2)]
  show ?case
  proof (cases "snd d = k")
    case True
    have "modal_step\<^sup>*\<^sup>* (stack_close k r m) (fold (\<lambda>d. stack_close (snd d) r) ds (stack_close k r m))"
      by (rule closes_steps)
    from result_settled(2) [OF Cons.prems(1) w this] show ?thesis by (simp add: True)
  next
    case False
    have "(k, w) \<in> set (ms_windows (stack_close (snd d) r m))"
      using Cons.prems(2) False sm_remove_filter [OF _ dist, of "snd d"]
      by (auto simp: stack_close_def removeModalWindow_def split: option.split)
    moreover have "modal_step\<^sup>*\<^sup>* modal_init (stack_close (snd d) r m)"
      using Cons.prems(1) modal_step.closed by (rule rtranclp.rtrancl_into_rtrancl)
    ultimately show ?thesis using Cons.IH Cons.prems(3) False by auto
  qed
qed simp

text \<open>The state right after \<open>$modal.open\<close> in \<open>alert_open\<close>.\<close>

lemma alert_open_state:
  fixes s
  defines "m \<equiv> fold (\<lambda>d. stack_close (snd d) None) (dl_dialogs s) (dl_modal s)"
  shows "alert_open st s = s\<lparr>dl_dialogs := [], dl_args := (ms_next m, st) # dl_args s,
    dl_modal := m\<lparr>ms_next := ms_next m + 3, ms_requests := ms_requests (dl_modal s) @
      [\<lparr>mq_instance = ms_next m, mq_result = ms_next m + 1, mq_opened = ms_next m + 2, mq_backdrop = Backdrop, mq_keyboard = True\<rparr>]\<rparr>\<rparr>"
  unfolding alert_open_def m_def
  by (simp add: alert_closes Let_def modal_open_def alert_options_def falsy_string_def closes_requests)

lemma alert_open_steps: "modal_step\<^sup>*\<^sup>* (dl_modal s) (dl_modal (alert_open st s))"
proof -
  let ?m = "fold (\<lambda>d. stack_close (snd d) None) (dl_dialogs s) (dl_modal s)"
  have "modal_open alert_options ?m = Inr (ms_next ?m, dl_modal (alert_open st s))"
    by (simp add: alert_open_state modal_open_def alert_options_def falsy_string_def Let_def closes_requests)
  from closes_steps modal_step.requested [OF this] show ?thesis by (rule rtranclp.rtrancl_into_rtrancl)
qed

lemma dialogs_inv_step: "dialogs_step s t \<Longrightarrow> dialogs_inv s \<Longrightarrow> dialogs_inv t"
proof (induction rule: dialogs_step.induct)
  case (alert s st)
  have reach: "modal_step\<^sup>*\<^sup>* modal_init (dl_modal s)" and sub: "set (sm_keys (ms_windows (dl_modal s))) \<subseteq> snd ` set (dl_dialogs s)"
    using alert by (simp_all add: dialogs_inv_def)
  from closes_keys [OF reach, of None "dl_dialogs s"] sub have "sm_keys (ms_windows (dl_modal (alert_open st s))) = []"
    by (simp add: alert_open_state) (metis Diff_eq_empty_iff set_empty)
  moreover have "modal_step\<^sup>*\<^sup>* modal_init (dl_modal (alert_open st s))"
    using reach alert_open_steps by (rule rtranclp_trans)
  ultimately show ?case using alert by (auto simp: dialogs_inv_def alert_open_state)
next
  case (arrived q s sc)
  then have "modal_step\<^sup>*\<^sup>* modal_init (modal_arrived q sc (dl_modal s))"
    by (auto simp: dialogs_inv_def intro: rtranclp.rtrancl_into_rtrancl modal_step.arrived)
  moreover have "set (ms_requests (modal_arrived q sc (dl_modal s))) \<subseteq> set (ms_requests (dl_modal s))"
    by (auto simp: modal_arrived_def stack_open_def Let_def dest: in_set_remove1_D)
  moreover have "set (sm_keys (ms_windows (modal_arrived q sc (dl_modal s)))) = insert (mq_instance q) (set (sm_keys (ms_windows (dl_modal s))))"
    by (simp add: modal_arrived_def stack_open_def Let_def)
  ultimately show ?case using arrived by (auto simp: dialogs_inv_def alert_arrived_def Let_def)
next
  case (failed q s r)
  then have "modal_step\<^sup>*\<^sup>* modal_init (modal_failed q r (dl_modal s))"
    by (auto simp: dialogs_inv_def intro: rtranclp.rtrancl_into_rtrancl modal_step.failed)
  with failed show ?case by (auto simp: dialogs_inv_def modal_failed_def dest: in_set_remove1_D)
next
  case (button s r d)
  have step: "modal_step\<^sup>*\<^sup>* modal_init (stack_close (snd d) r (dl_modal s))"
    using button by (auto simp: dialogs_inv_def intro: rtranclp.rtrancl_into_rtrancl modal_step.closed)
  have keys: "set (sm_keys (ms_windows (stack_close (snd d) r (dl_modal s)))) = set (sm_keys (ms_windows (dl_modal s))) - {snd d}"
    using closes_keys [of "dl_modal s" r "[d]"] button by (simp add: dialogs_inv_def)
  show ?case
  proof -
    have "snd ` set (dl_dialogs s) - {snd d} \<subseteq> snd ` {x \<in> set (dl_dialogs s). x \<noteq> d}" by auto
    moreover have "set (sm_keys (ms_windows (dl_modal s))) \<subseteq> snd ` set (dl_dialogs s)"
      using button by (simp add: dialogs_inv_def)
    ultimately have "set (sm_keys (ms_windows (stack_close (snd d) r (dl_modal s)))) \<subseteq> snd ` {x \<in> set (dl_dialogs s). x \<noteq> d}"
      using keys by blast
    with step button show ?thesis
      by (simp add: dialogs_inv_def alert_close_def js_without_def modal_close_windows)
  qed
next
  case (escape s)
  then have "modal_step\<^sup>*\<^sup>* modal_init (escape_pressed (dl_modal s))"
    by (auto simp: dialogs_inv_def intro: rtranclp.rtrancl_into_rtrancl modal_step.escape)
  moreover have "set (sm_keys (ms_windows (escape_pressed m))) \<subseteq> set (sm_keys (ms_windows m)) \<and>
      ms_requests (escape_pressed m) = ms_requests m" for m
    using modal_dismiss_windows modal_digest_ids by (auto simp: escape_pressed_def split: option.split)
  ultimately show ?case using escape by (auto simp: dialogs_inv_def)
next
  case (clicked s)
  then have "modal_step\<^sup>*\<^sup>* modal_init (backdrop_clicked (dl_modal s))"
    by (auto simp: dialogs_inv_def intro: rtranclp.rtrancl_into_rtrancl modal_step.clicked)
  moreover have "set (sm_keys (ms_windows (backdrop_clicked m))) \<subseteq> set (sm_keys (ms_windows m)) \<and>
      ms_requests (backdrop_clicked m) = ms_requests m" for m
    using modal_dismiss_windows by (auto simp: backdrop_clicked_def split: option.split)
  ultimately show ?case using clicked by (auto simp: dialogs_inv_def)
next
  case (animated s a)
  then have "modal_step\<^sup>*\<^sup>* modal_init (afterAnimating a (dl_modal s))"
    by (auto simp: dialogs_inv_def intro: rtranclp.rtrancl_into_rtrancl modal_step.animated)
  with animated afterAnimating_ids show ?case by (simp add: dialogs_inv_def)
next
  case (digested s)
  then have "modal_step\<^sup>*\<^sup>* modal_init (modal_digest (dl_modal s))"
    by (auto simp: dialogs_inv_def intro: rtranclp.rtrancl_into_rtrancl modal_step.digested)
  with digested modal_digest_ids show ?case by (simp add: dialogs_inv_def)
qed

lemma dialogs_reachable_inv: "dialogs_step\<^sup>*\<^sup>* dialogs_init s \<Longrightarrow> dialogs_inv s"
proof (induction rule: rtranclp_induct)
  case base
  have "ms_windows modal_init = []" "ms_requests modal_init = []" by (simp_all add: modal_init_def)
  then show ?case by (simp add: dialogs_inv_def dialogs_init_def)
qed (rule dialogs_inv_step)

section \<open>Properties\<close>

text \<open>Templates that arrive one after the other, each with the scope made for its dialog.\<close>

definition alerts_arrive :: "(modal_request \<times> nat) list \<Rightarrow> dialogs_state \<Rightarrow> dialogs_state" where
  "alerts_arrive rs = fold (\<lambda>r. alert_arrived (fst r) (snd r)) rs"

lemma alerts_arrive_windows:
  "sm_keys (ms_windows (dl_modal (alerts_arrive rs s))) = sm_keys (ms_windows (dl_modal s)) @ map (mq_instance \<circ> fst) rs \<and>
    dl_dialogs (alerts_arrive rs s) = dl_dialogs s @ map (\<lambda>r. (snd r, mq_instance (fst r))) rs"
proof (induction rs arbitrary: s)
  case (Cons r rs)
  have "sm_keys (ms_windows (modal_arrived q sc m)) = sm_keys (ms_windows m) @ [mq_instance q]" for q sc m
    by (simp add: modal_arrived_def stack_open_def Let_def sm_add_def sm_keys_def)
  then have "sm_keys (ms_windows (dl_modal (alert_arrived (fst r) (snd r) s))) = sm_keys (ms_windows (dl_modal s)) @ [mq_instance (fst r)]"
    "dl_dialogs (alert_arrived (fst r) (snd r) s) = dl_dialogs s @ [(snd r, mq_instance (fst r))]"
    by (simp_all add: alert_arrived_def Let_def)
  with Cons show "sm_keys (ms_windows (dl_modal (alerts_arrive (r # rs) s))) =
      sm_keys (ms_windows (dl_modal s)) @ map (mq_instance \<circ> fst) (r # rs) \<and>
    dl_dialogs (alerts_arrive (r # rs) s) = dl_dialogs s @ map (\<lambda>r. (snd r, mq_instance (fst r))) (r # rs)"
    by (simp_all add: alerts_arrive_def)
qed (simp_all add: alerts_arrive_def)

text \<open>C12: in every reachable state, dismissals by key or click included, each window on the page belongs to a dialog of
  the list.  Raising an alert therefore leaves no window: each one that was open is closed with no result, and results
  already settled stay.  The windows from then on are those of the dialogs that were on their way, which the alert does
  not stop, and its own, in the order in which their templates arrive; so its window is the only one when no
  other dialog was on its way, and then it has the title of its status.\<close>

theorem alert_replaces_windows:
  fixes st :: int
  assumes "dialogs_step\<^sup>*\<^sup>* dialogs_init s"
  defines "t \<equiv> alert_open st s"
  shows "set (sm_keys (ms_windows (dl_modal s))) \<subseteq> snd ` set (dl_dialogs s) \<and>
    ms_windows (dl_modal t) = [] \<and> dl_dialogs t = [] \<and>
    (\<forall>(k, w) \<in> set (ms_windows (dl_modal s)). map_of (ms_results (dl_modal t)) (mw_deferred w) = Some (Resolved None)) \<and>
    (\<forall>d out. map_of (ms_results (dl_modal s)) d = Some out \<longrightarrow> map_of (ms_results (dl_modal t)) d = Some out) \<and>
    (\<exists>q. ms_requests (dl_modal t) = ms_requests (dl_modal s) @ [q] \<and>
      (\<forall>rs. sm_keys (ms_windows (dl_modal (alerts_arrive rs t))) = map (mq_instance \<circ> fst) rs \<and>
        dl_dialogs (alerts_arrive rs t) = map (\<lambda>r. (snd r, mq_instance (fst r))) rs) \<and>
      (ms_requests (dl_modal s) = [] \<longrightarrow> (\<forall>sc. sm_keys (ms_windows (dl_modal (alert_arrived q sc t))) = [mq_instance q] \<and>
        map_of (dl_titles (alert_arrived q sc t)) sc = Some (if st = 100 then ''Success !'' else ''Oops !''))))"
proof -
  have inv: "dialogs_inv s" using assms(1) by (rule dialogs_reachable_inv)
  have sub: "set (sm_keys (ms_windows (dl_modal s))) \<subseteq> snd ` set (dl_dialogs s)"
    and reach: "modal_step\<^sup>*\<^sup>* modal_init (dl_modal s)" using inv by (simp_all add: dialogs_inv_def)
  have "dialogs_inv t" unfolding t_def using dialogs_step.alert inv by (rule dialogs_inv_step)
  moreover have none: "dl_dialogs t = []" by (simp add: t_def alert_open_state)
  ultimately have empty: "ms_windows (dl_modal t) = []" by (simp add: dialogs_inv_def sm_keys_def)
  have kept: "results_kept (dl_modal s) (dl_modal t)"
    unfolding t_def by (rule modal_steps_results [OF alert_open_steps])
  have closed: "map_of (ms_results (dl_modal t)) (mw_deferred w) = Some (Resolved None)"
    if "(k, w) \<in> set (ms_windows (dl_modal s))" for k w
  proof -
    have "k \<in> snd ` set (dl_dialogs s)" using sub that by (force simp: sm_keys_def)
    from closes_results [OF reach that this] show ?thesis by (simp add: t_def alert_open_state)
  qed
  obtain q where q: "ms_requests (dl_modal t) = ms_requests (dl_modal s) @ [q]"
    and title: "dialog_title (the (map_of (dl_args t) (mq_instance q))) = (if st = 100 then ''Success !'' else ''Oops !'')"
    by (auto simp: t_def alert_open_state dialog_title_def)
  have "sm_keys (ms_windows (dl_modal (alerts_arrive rs t))) = map (mq_instance \<circ> fst) rs \<and>
      dl_dialogs (alerts_arrive rs t) = map (\<lambda>r. (snd r, mq_instance (fst r))) rs" for rs
    using alerts_arrive_windows [of rs t] by (simp add: empty none)
  moreover from this [of "[(q, sc)]" for sc] title
  have "sm_keys (ms_windows (dl_modal (alert_arrived q sc t))) = [mq_instance q] \<and>
      map_of (dl_titles (alert_arrived q sc t)) sc = Some (if st = 100 then ''Success !'' else ''Oops !'')" for sc
    by (simp add: alerts_arrive_def) (simp add: alert_arrived_def Let_def)
  ultimately have last: "\<exists>q. ms_requests (dl_modal t) = ms_requests (dl_modal s) @ [q] \<and>
      (\<forall>rs. sm_keys (ms_windows (dl_modal (alerts_arrive rs t))) = map (mq_instance \<circ> fst) rs \<and>
        dl_dialogs (alerts_arrive rs t) = map (\<lambda>r. (snd r, mq_instance (fst r))) rs) \<and>
      (ms_requests (dl_modal s) = [] \<longrightarrow> (\<forall>sc. sm_keys (ms_windows (dl_modal (alert_arrived q sc t))) = [mq_instance q] \<and>
        map_of (dl_titles (alert_arrived q sc t)) sc = Some (if st = 100 then ''Success !'' else ''Oops !'')))"
    using q by blast
  from sub empty none kept closed last show ?thesis by (auto simp: results_kept_def)
qed

text \<open>The first alert on an empty page, and its window.\<close>

definition first_alert :: dialogs_state where
  "first_alert = alert_open 404 dialogs_init"

definition first_request :: modal_request where
  "first_request = \<lparr>mq_instance = 0, mq_result = 1, mq_opened = 2, mq_backdrop = Backdrop, mq_keyboard = True\<rparr>"

definition first_window :: dialogs_state where
  "first_window = alert_arrived first_request 7 first_alert"

lemma first_alert_state: "first_alert = \<lparr>dl_modal = modal_init\<lparr>ms_next := 3, ms_requests := [first_request]\<rparr>,
    dl_dialogs = [], dl_args = [(0, 404)], dl_titles = []\<rparr>"
  by (simp add: first_alert_def alert_open_state dialogs_init_def modal_init_def first_request_def)

lemma first_window_reachable: "dialogs_step\<^sup>*\<^sup>* dialogs_init first_window"
proof -
  have "dialogs_step dialogs_init first_alert" unfolding first_alert_def by (rule dialogs_step.alert)
  moreover have "dialogs_step first_alert first_window"
    unfolding first_window_def by (rule dialogs_step.arrived) (simp add: first_alert_state)
  ultimately show ?thesis by (meson converse_rtranclp_into_rtranclp rtranclp.rtrancl_refl)
qed

theorem alert_replaces_windows_witness:
  "sm_keys (ms_windows (dl_modal first_window)) = [0] \<and> ms_windows (dl_modal (alert_open 100 first_window)) = [] \<and>
   map_of (ms_results (dl_modal (alert_open 100 first_window))) 1 = Some (Resolved None)"
proof -
  have w: "ms_windows (dl_modal first_window) = [(0, \<lparr>mw_deferred = 1, mw_scope = 7, mw_backdrop = Backdrop, mw_keyboard = True\<rparr>)]"
    by (simp add: first_window_def first_alert_state alert_arrived_def modal_arrived_def stack_open_def Let_def
        first_request_def modal_init_def sm_add_def)
  with alert_replaces_windows [OF first_window_reachable, of 100] show ?thesis by (simp add: sm_keys_def)
qed

text \<open>Two alerts raised before the template has come are both shown: the first is not yet in the list when the second
  one closes the dialogs.\<close>

theorem early_alerts_pile_up:
  "(let t = alert_open 404 (alert_open 500 dialogs_init);
        u = alert_arrived (ms_requests (dl_modal t) ! 1) 8 (alert_arrived (ms_requests (dl_modal t) ! 0) 7 t)
    in sm_keys (ms_windows (dl_modal u)) = [0, 3] \<and> ms_body (dl_modal u) = [Backdrop_El 6, Window_El 0, Window_El 3])"
proof -
  define t where "t = alert_open 404 (alert_open 500 dialogs_init)"
  have m: "ms_windows (dl_modal t) = []" "ms_backdrop (dl_modal t) = None" "ms_body (dl_modal t) = []" "ms_next (dl_modal t) = 6"
    "map mq_instance (ms_requests (dl_modal t)) = [0, 3]" "map mq_backdrop (ms_requests (dl_modal t)) = [Backdrop, Backdrop]"
    by (simp_all add: t_def alert_open_state dialogs_init_def modal_init_def)
  then obtain q r where q: "ms_requests (dl_modal t) = [q, r]" "mq_instance q = 0" "mq_instance r = 3" "mq_backdrop q = Backdrop"
    by (auto simp: map_eq_Cons_conv)
  have "backdropIndex [(0, w)] = 0" if "mw_backdrop w = Backdrop" for w
    using that by (simp add: backdropIndex_def sm_keys_def has_backdrop_def)
  with m q show ?thesis
    by (simp add: t_def [symmetric] Let_def alert_arrived_def modal_arrived_def stack_open_def sm_add_def sm_keys_def)
qed

end
