(* ===== verification/Sorter_Spec.thy ===== *)
theory Sorter_Spec
  imports Wigo_Prelude
begin

text \<open>
  The contract of the platform's \<open>Array.prototype.sort\<close> the table engine relies on: the
  result is a rearrangement, and it is in order whenever the comparison is consistent.  A
  comparison that never answers 0 for different elements then has one possible result, so
  the engine's output does not depend on the platform's algorithm.
\<close>

definition consistent_on :: "'a set \<Rightarrow> ('a \<Rightarrow> 'a \<Rightarrow> int) \<Rightarrow> bool" where
  "consistent_on A cmp \<longleftrightarrow>
    (\<forall>a \<in> A. cmp a a = 0) \<and>
    (\<forall>a \<in> A. \<forall>b \<in> A. (cmp a b < 0) = (0 < cmp b a)) \<and>
    (\<forall>a \<in> A. \<forall>b \<in> A. \<forall>c \<in> A. cmp a b \<le> 0 \<longrightarrow> cmp b c \<le> 0 \<longrightarrow> cmp a c \<le> 0)"

definition strict_on :: "'a set \<Rightarrow> ('a \<Rightarrow> 'a \<Rightarrow> int) \<Rightarrow> bool" where
  "strict_on A cmp \<longleftrightarrow> (\<forall>a \<in> A. \<forall>b \<in> A. cmp a b = 0 \<longrightarrow> a = b)"

lemma consistent_on_subset: "consistent_on A cmp \<Longrightarrow> B \<subseteq> A \<Longrightarrow> consistent_on B cmp"
  unfolding consistent_on_def by (meson subsetD)

lemma strict_on_subset: "strict_on A cmp \<Longrightarrow> B \<subseteq> A \<Longrightarrow> strict_on B cmp"
  unfolding strict_on_def by (meson subsetD)

lemma sorted_cmp_unique:
  assumes "consistent_on (set xs) cmp" "strict_on (set xs) cmp" "mset xs = mset ys"
    and "sorted_wrt (\<lambda>a b. cmp a b \<le> 0) xs" "sorted_wrt (\<lambda>a b. cmp a b \<le> 0) ys"
  shows "xs = ys"
  using assms
proof (induction xs arbitrary: ys)
  case (Cons x xs)
  then obtain y ys' where ys: "ys = y # ys'" by (cases ys) auto
  from Cons.prems(3) ys have sets: "insert x (set xs) = insert y (set ys')"
    by (metis list.simps(15) mset_eq_setD)
  have "cmp x y \<le> 0"
  proof (cases "x = y")
    case True
    with Cons.prems(1) show ?thesis by (simp add: consistent_on_def)
  next
    case False
    with sets have "y \<in> set xs" by auto
    with Cons.prems(4) show ?thesis by simp
  qed
  moreover have "cmp y x \<le> 0"
  proof (cases "x = y")
    case True
    with Cons.prems(1) show ?thesis by (simp add: consistent_on_def)
  next
    case False
    with sets have "x \<in> set ys'" by auto
    with Cons.prems(5) ys show ?thesis by simp
  qed
  moreover have y: "y \<in> set (x # xs)" using sets by auto
  ultimately have "cmp x y = 0"
    using Cons.prems(1) unfolding consistent_on_def by (metis list.set_intros(1) linorder_not_le order.antisym)
  with Cons.prems(2) y have "x = y" unfolding strict_on_def by (metis list.set_intros(1))
  moreover have "xs = ys'"
  proof (rule Cons.IH)
    show "consistent_on (set xs) cmp" "strict_on (set xs) cmp"
      using Cons.prems(1,2) consistent_on_subset strict_on_subset by (metis set_subset_Cons)+
  qed (use Cons.prems(3-5) ys \<open>x = y\<close> in simp_all)
  ultimately show ?case using ys by simp
qed simp

text \<open>Consistent comparisons stay so in the other direction, and one after another.\<close>

lemma consistent_flip:
  assumes "consistent_on A c"
  shows "consistent_on A (\<lambda>a b. - c a b)"
  unfolding consistent_on_def
proof (intro conjI ballI impI)
  note c = assms [unfolded consistent_on_def]
  have flip: "- c a b = 0 \<or> - c a b < 0 \<longleftrightarrow> c b a \<le> 0" if "a \<in> A" "b \<in> A" for a b
  proof -
    have "c a b < 0 \<longleftrightarrow> 0 < c b a" "c b a < 0 \<longleftrightarrow> 0 < c a b" using c that by blast+
    then show ?thesis by linarith
  qed
  fix a assume a: "a \<in> A"
  show "- c a a = 0" using c a by simp
  fix b assume b: "b \<in> A"
  have "c a b < 0 \<longleftrightarrow> 0 < c b a" "c b a < 0 \<longleftrightarrow> 0 < c a b" using c a b by blast+
  then show "(- c a b < 0) = (0 < - c b a)" by linarith
  fix e assume e: "e \<in> A" and "- c a b \<le> 0" "- c b e \<le> 0"
  with flip [OF a b] flip [OF b e] have "c b a \<le> 0" "c e b \<le> 0" by linarith+
  with c a b e have "c e a \<le> 0" by blast
  with flip [OF a e] show "- c a e \<le> 0" by linarith
qed

lemma consistent_lex:
  assumes "consistent_on A c" "consistent_on A d"
  shows "consistent_on A (\<lambda>a b. if c a b \<noteq> 0 then c a b else d a b)"
  unfolding consistent_on_def
proof (intro conjI ballI impI)
  note c = assms(1) [unfolded consistent_on_def] and d = assms(2) [unfolded consistent_on_def]
  have zero: "c a b = 0 \<longleftrightarrow> c b a = 0" if "a \<in> A" "b \<in> A" for a b
  proof -
    have "c a b < 0 \<longleftrightarrow> 0 < c b a" "c b a < 0 \<longleftrightarrow> 0 < c a b" using c that by blast+
    then show ?thesis by linarith
  qed
  fix a assume a: "a \<in> A"
  show "(if c a a \<noteq> 0 then c a a else d a a) = 0" using c d a by simp
  fix b assume b: "b \<in> A"
  show "((if c a b \<noteq> 0 then c a b else d a b) < 0) = (0 < (if c b a \<noteq> 0 then c b a else d b a))"
    using c d a b zero by auto
  fix e assume e: "e \<in> A"
  assume ab: "(if c a b \<noteq> 0 then c a b else d a b) \<le> 0" and be: "(if c b e \<noteq> 0 then c b e else d b e) \<le> 0"
  then have le: "c a b \<le> 0" "c b e \<le> 0" by (auto split: if_splits)
  with c a b e have ae: "c a e \<le> 0" by blast
  show "(if c a e \<noteq> 0 then c a e else d a e) \<le> 0"
  proof (cases "c a e = 0")
    case True
    then have "c e a = 0" using zero a e by simp
    with le c a b e have "c b a \<le> 0" "c e b \<le> 0" by (metis order.refl)+
    moreover have "c a b < 0 \<longleftrightarrow> 0 < c b a" "c b e < 0 \<longleftrightarrow> 0 < c e b" using c a b e by blast+
    ultimately have "c a b = 0" "c b e = 0" using le by linarith+
    with ab be have "d a b \<le> 0" "d b e \<le> 0" by simp_all
    with d a b e have "d a e \<le> 0" by blast
    with True show ?thesis by simp
  next
    case False
    with ae show ?thesis by simp
  qed
qed

lemma consistent_swap: "consistent_on A c \<Longrightarrow> consistent_on A (\<lambda>a b. c b a)"
  unfolding consistent_on_def by blast

locale js_sorter =
  fixes sort_by :: "('a \<Rightarrow> 'a \<Rightarrow> int) \<Rightarrow> 'a list \<Rightarrow> 'a list"
  assumes sort_perm: "mset (sort_by cmp xs) = mset xs"
    and sort_order: "consistent_on (set xs) cmp \<Longrightarrow> sorted_wrt (\<lambda>a b. cmp a b \<le> 0) (sort_by cmp xs)"
begin

lemma sort_set: "set (sort_by cmp xs) = set xs"
  using sort_perm by (rule mset_eq_setD)

lemma sort_unique:
  assumes "consistent_on (set xs) cmp" "strict_on (set xs) cmp"
    and "mset ys = mset xs" "sorted_wrt (\<lambda>a b. cmp a b \<le> 0) ys"
  shows "sort_by cmp xs = ys"
  using assms sort_perm [of cmp xs] sort_order [OF assms(1)]
  by (intro sorted_cmp_unique [where cmp = cmp]) (simp_all add: sort_set)

end

section \<open>Insertion sort\<close>

text \<open>The algorithm the instances below run; V8 used it for short arrays.\<close>

fun insert_by :: "('a \<Rightarrow> 'a \<Rightarrow> int) \<Rightarrow> 'a \<Rightarrow> 'a list \<Rightarrow> 'a list" where
  "insert_by cmp x [] = [x]"
| "insert_by cmp x (y # ys) = (if cmp x y \<le> 0 then x # y # ys else y # insert_by cmp x ys)"

fun insertion_sort :: "('a \<Rightarrow> 'a \<Rightarrow> int) \<Rightarrow> 'a list \<Rightarrow> 'a list" where
  "insertion_sort cmp [] = []"
| "insertion_sort cmp (x # xs) = insert_by cmp x (insertion_sort cmp xs)"

lemma insert_by_mset: "mset (insert_by cmp x ys) = add_mset x (mset ys)"
  by (induction ys) auto

lemma insertion_sort_mset: "mset (insertion_sort cmp xs) = mset xs"
  by (induction xs) (auto simp: insert_by_mset)

lemma insert_by_set: "set (insert_by cmp x ys) = insert x (set ys)"
  by (induction ys) auto

lemma insert_by_sorted:
  assumes "consistent_on A cmp" "insert x (set ys) \<subseteq> A" "sorted_wrt (\<lambda>a b. cmp a b \<le> 0) ys"
  shows "sorted_wrt (\<lambda>a b. cmp a b \<le> 0) (insert_by cmp x ys)"
  using assms(2,3)
proof (induction ys)
  case (Cons y ys)
  have x: "x \<in> A" and y: "y \<in> A" and ys: "set ys \<subseteq> A" using Cons.prems by auto
  show ?case
  proof (cases "cmp x y \<le> 0")
    case True
    have "cmp x z \<le> 0" if "z \<in> set ys" for z
    proof -
      have "cmp y z \<le> 0" "z \<in> A" using that Cons.prems ys by auto
      with assms(1) x y True show ?thesis unfolding consistent_on_def by blast
    qed
    with True Cons.prems show ?thesis by auto
  next
    case False
    with assms(1) x y have "cmp y x \<le> 0" unfolding consistent_on_def by (metis linorder_not_le nless_le)
    with Cons False show ?thesis by (auto simp: insert_by_set)
  qed
qed simp

lemma insertion_sort_sorted:
  "consistent_on A cmp \<Longrightarrow> set xs \<subseteq> A \<Longrightarrow> sorted_wrt (\<lambda>a b. cmp a b \<le> 0) (insertion_sort cmp xs)"
proof (induction xs)
  case (Cons x xs)
  have "set (insertion_sort cmp xs) = set xs" by (metis insertion_sort_mset mset_eq_setD)
  with Cons show ?case by (auto intro: insert_by_sorted)
qed simp

interpretation insertion: js_sorter insertion_sort
  by unfold_locales (auto simp: insertion_sort_mset intro: insertion_sort_sorted)

end
