(* ===== verification/DT_Values.thy ===== *)
theory DT_Values
  imports Complex_Main Wigo_Prelude
begin

text \<open>
  Values of table cells (public/js/plugins/dataTables/jquery.dataTables.js): JavaScript
  values without functions and DOM nodes, and the small value utilities at the head of the
  file (lines 101 to 256).  A number is a rational, an infinity or \<open>NaN\<close>: the code compares
  numbers and reads them from strings, it computes nothing on cell values; the rounding of a
  decimal literal to the nearest double is not modelled.
\<close>

section \<open>Values\<close>

datatype dbl = DNaN | NegInf | Fin rat | PosInf

datatype jsval =
    JUndef | JNull | JBool bool | JNum dbl | JStr string
  | JArr "jsval list" | JObj "(string \<times> jsval) list"

text \<open>\<open>!v\<close>\<close>

fun js_not :: "jsval \<Rightarrow> bool" where
  "js_not JUndef = True"
| "js_not JNull = True"
| "js_not (JBool b) = (\<not> b)"
| "js_not (JNum n) = (n = DNaN \<or> n = Fin 0)"
| "js_not (JStr s) = (s = [])"
| "js_not (JArr xs) = False"
| "js_not (JObj kvs) = False"

text \<open>\<open>x < y\<close> on numbers; every comparison with \<open>NaN\<close> is false.\<close>

fun num_less :: "dbl \<Rightarrow> dbl \<Rightarrow> bool" where
  "num_less DNaN y = False"
| "num_less x DNaN = False"
| "num_less NegInf y = (y \<noteq> NegInf)"
| "num_less PosInf y = False"
| "num_less (Fin a) NegInf = False"
| "num_less (Fin a) PosInf = True"
| "num_less (Fin a) (Fin b) = (a < b)"

text \<open>\<open>x < y\<close> on strings: lexicographic on the character codes.\<close>

fun str_less :: "string \<Rightarrow> string \<Rightarrow> bool" where
  "str_less xs [] = False"
| "str_less [] (y # ys) = True"
| "str_less (x # xs) (y # ys) =
    (if (of_char x :: nat) < of_char y then True else if x = y then str_less xs ys else False)"

lemma str_less_irrefl [simp]: "\<not> str_less xs xs"
  by (induction xs) auto

lemma str_less_trans: "str_less xs ys \<Longrightarrow> str_less ys zs \<Longrightarrow> str_less xs zs"
proof (induction xs ys arbitrary: zs rule: str_less.induct)
  case (2 y ys)
  then show ?case by (cases zs) auto
next
  case (3 x xs y ys)
  then show ?case by (cases zs) (auto split: if_splits)
qed simp

lemma str_less_total: "xs \<noteq> ys \<Longrightarrow> str_less xs ys \<or> str_less ys xs"
proof (induction xs ys rule: str_less.induct)
  case (1 xs)
  then show ?case by (cases xs) auto
next
  case (3 x xs y ys)
  show ?case
  proof (cases "x = y")
    case False
    then have "(of_char x :: nat) \<noteq> of_char y" by (simp add: of_char_eq_iff)
    then show ?thesis by auto
  qed (use 3 in auto)
qed simp

lemma num_less_trans: "num_less a b \<Longrightarrow> num_less b c \<Longrightarrow> num_less a c"
  by (cases a; cases b; cases c) auto

lemma num_less_irrefl [simp]: "\<not> num_less a a"
  by (cases a) auto

section \<open>Reading numbers\<close>

definition js_space :: "char \<Rightarrow> bool" where
  "js_space c \<longleftrightarrow> c \<in> {CHR '' '', CHR 0x09, CHR 0x0A, CHR 0x0B, CHR 0x0C, CHR 0x0D}"

definition js_trim :: "string \<Rightarrow> string" where
  "js_trim s = rev (dropWhile js_space (rev (dropWhile js_space s)))"

text \<open>A decimal literal: digits with an optional fraction, and an optional exponent.\<close>

definition take_digits :: "string \<Rightarrow> string \<times> string" where
  "take_digits s = (takeWhile is_digit s, dropWhile is_digit s)"

definition read_exponent :: "string \<Rightarrow> (int \<times> string) option" where
  "read_exponent s = (case s of
      [] \<Rightarrow> Some (0, [])
    | c # r \<Rightarrow>
        if c = CHR ''e'' \<or> c = CHR ''E'' then
          (let (neg, r') = (case r of d # r2 \<Rightarrow>
                 if d = CHR ''-'' then (True, r2) else if d = CHR ''+'' then (False, r2) else (False, r)
               | [] \<Rightarrow> (False, []));
               (ds, rest) = take_digits r'
           in if ds = [] then None
              else Some (if neg then - int (read_digits ds) else int (read_digits ds), rest))
        else Some (0, s))"

definition rat_pow10 :: "int \<Rightarrow> rat" where
  "rat_pow10 e = (if e \<ge> 0 then 10 ^ nat e else 1 / 10 ^ nat (- e))"

text \<open>An unsigned decimal literal that uses up the whole string.\<close>

definition read_decimal :: "string \<Rightarrow> rat option" where
  "read_decimal s =
    (let (ip, r) = take_digits s;
         (fp, r2) = (case r of c # t \<Rightarrow> if c = CHR ''.'' then take_digits t else ([], r) | [] \<Rightarrow> ([], []))
     in if ip = [] \<and> fp = [] then None
        else (case read_exponent r2 of
                Some (e, []) \<Rightarrow>
                  Some (of_nat (read_digits (ip @ fp)) * rat_pow10 (e - int (length fp)))
              | _ \<Rightarrow> None))"

definition hex_digit :: "char \<Rightarrow> nat option" where
  "hex_digit c = (let n = of_char c in
     if 48 \<le> n \<and> n \<le> 57 then Some (n - 48)
     else if 65 \<le> n \<and> n \<le> 70 then Some (n - 55)
     else if 97 \<le> n \<and> n \<le> 102 then Some (n - 87) else None)"

definition read_hex :: "string \<Rightarrow> rat option" where
  "read_hex s = (case s of
      a # b # r \<Rightarrow>
        if a = CHR ''0'' \<and> (b = CHR ''x'' \<or> b = CHR ''X'') \<and> r \<noteq> [] \<and> list_all (\<lambda>c. hex_digit c \<noteq> None) r
        then Some (of_nat (foldl (\<lambda>n c. 16 * n + the (hex_digit c)) 0 r)) else None
    | _ \<Rightarrow> None)"

text \<open>\<open>Number(s)\<close> for a string.\<close>

definition js_number :: "string \<Rightarrow> dbl" where
  "js_number s =
    (let t = js_trim s;
         (neg, u) = (case t of c # r \<Rightarrow>
             if c = CHR ''-'' then (True, r) else if c = CHR ''+'' then (False, r) else (False, t)
           | [] \<Rightarrow> (False, []))
     in if t = [] then Fin 0
        else case read_hex t of Some v \<Rightarrow> Fin v | None \<Rightarrow>
          if u = ''Infinity'' then (if neg then NegInf else PosInf)
          else case read_decimal u of
              Some v \<Rightarrow> Fin (if neg then - v else v)
            | None \<Rightarrow> DNaN)"

definition num_finite :: "dbl \<Rightarrow> bool" where
  "num_finite n \<longleftrightarrow> (\<exists>r. n = Fin r)"

lemma num_finite_simps [simp, code]:
  "num_finite (Fin r) = True" "num_finite DNaN = False" "num_finite PosInf = False" "num_finite NegInf = False"
  by (simp_all add: num_finite_def)

text \<open>\<open>isNaN(parseFloat(s))\<close> is false: after leading spaces comes a sign, then a digit, a
  point and a digit, or \<open>Infinity\<close>.\<close>

definition parses_float :: "string \<Rightarrow> bool" where
  "parses_float s =
    (let t = dropWhile js_space s;
         u = (case t of c # r \<Rightarrow> if c = CHR ''-'' \<or> c = CHR ''+'' then r else t | [] \<Rightarrow> [])
     in (case u of
           c # r \<Rightarrow> is_digit c \<or> (c = CHR ''.'' \<and> (case r of d # _ \<Rightarrow> is_digit d | [] \<Rightarrow> False))
             \<or> take 8 u = ''Infinity''
         | [] \<Rightarrow> False))"

text \<open>\<open>parseInt(s, 10)\<close>: the digits after spaces and a sign, \<^const>\<open>None\<close> for \<open>NaN\<close>.\<close>

definition parse_int :: "string \<Rightarrow> int option" where
  "parse_int s =
    (let t = dropWhile js_space s;
         (neg, u) = (case t of c # r \<Rightarrow>
             if c = CHR ''-'' then (True, r) else if c = CHR ''+'' then (False, r) else (False, t)
           | [] \<Rightarrow> (False, []));
         ds = takeWhile is_digit u
     in if ds = [] then None
        else Some (if neg then - int (read_digits ds) else int (read_digits ds)))"

section \<open>Conversion to strings\<close>

text \<open>
  \<open>String(n)\<close> for a number: the shortest decimal of a double is the decimal itself for the
  values read from cells.  Exponent notation (below 1e-6 and from 1e21 on) is not produced.
\<close>

fun fraction_digits :: "nat \<Rightarrow> rat \<Rightarrow> string" where
  "fraction_digits 0 r = []"
| "fraction_digits (Suc n) r =
    (if r = 0 then [] else digit_char (nat \<lfloor>10 * r\<rfloor>) # fraction_digits n (10 * r - of_int \<lfloor>10 * r\<rfloor>))"

definition show_rat :: "rat \<Rightarrow> string" where
  "show_rat r =
    (let a = \<bar>r\<bar>; i = \<lfloor>a\<rfloor>; f = a - of_int i
     in (if r < 0 then ''-'' else []) @ show_nat (nat i) @ (if f = 0 then [] else CHR ''.'' # fraction_digits 21 f))"

fun show_num :: "dbl \<Rightarrow> string" where
  "show_num DNaN = ''NaN''"
| "show_num NegInf = ''-Infinity''"
| "show_num PosInf = ''Infinity''"
| "show_num (Fin r) = show_rat r"

fun js_join :: "string \<Rightarrow> string list \<Rightarrow> string" where
  "js_join sep [] = []"
| "js_join sep [x] = x"
| "js_join sep (x # y # r) = x @ sep @ js_join sep (y # r)"

text \<open>\<open>v + ''\<close>; an array joins its elements, with \<open>null\<close> and \<open>undefined\<close> as the empty string.\<close>

fun js_string :: "jsval \<Rightarrow> string" where
  "js_string JUndef = ''undefined''"
| "js_string JNull = ''null''"
| "js_string (JBool b) = (if b then ''true'' else ''false'')"
| "js_string (JNum n) = show_num n"
| "js_string (JStr s) = s"
| "js_string (JArr xs) = js_join '','' (map (\<lambda>x. if x = JUndef \<or> x = JNull then [] else js_string x) xs)"
| "js_string (JObj kvs) = ''[object Object]''"

definition js_array_join :: "string \<Rightarrow> jsval list \<Rightarrow> string" where
  "js_array_join sep xs = js_join sep (map (\<lambda>x. if x = JUndef \<or> x = JNull then [] else js_string x) xs)"

end
