(* ===== verification/DT_Util.thy ===== *)
theory DT_Util
  imports DT_Values
begin

text \<open>
  Pure helpers of the table engine (public/js/plugins/dataTables/jquery.dataTables.js):
  value tests and array helpers (lines 112 to 256), the sort and detection formatters of
  \<open>DataTable.ext.type\<close>, the page-number buttons \<open>_numbers\<close>, and \<open>versionCheck\<close>.
\<close>

section \<open>Value tests\<close>

definition dt_empty :: "jsval \<Rightarrow> bool" where
  "dt_empty d \<longleftrightarrow> js_not d \<or> d = JStr ''-''"

text \<open>\<open>_re_formatted_numeric\<close>: the characters ignored in formatted numbers.  The two currency
  signs beyond ASCII are two and three UTF-8 bytes.\<close>

definition formatted_numeric_char :: "char \<Rightarrow> bool" where
  "formatted_numeric_char c \<longleftrightarrow> c = CHR 0x27 \<or> c = CHR '','' \<or> c = CHR ''$'' \<or> c = CHR ''%''"

fun strip_formatted :: "string \<Rightarrow> string" where
  "strip_formatted [] = []"
| "strip_formatted (a # s) =
    (if formatted_numeric_char a then strip_formatted s
     else if a = CHR 0xC2 then
       (case s of b # r \<Rightarrow> if b = CHR 0xA3 \<or> b = CHR 0xA5 then strip_formatted r else a # strip_formatted s
        | [] \<Rightarrow> [a])
     else if a = CHR 0xE2 then
       (case s of b # c # r \<Rightarrow> if b = CHR 0x82 \<and> c = CHR 0xAC then strip_formatted r else a # strip_formatted s
        | _ \<Rightarrow> a # strip_formatted s)
     else a # strip_formatted s)"

text \<open>\<open>isFinite(d)\<close> and \<open>!isNaN(parseFloat(d))\<close>, for the values cells hold.\<close>

fun js_is_finite :: "jsval \<Rightarrow> bool" where
  "js_is_finite (JNum n) = num_finite n"
| "js_is_finite (JStr s) = num_finite (js_number s)"
| "js_is_finite (JBool b) = True"
| "js_is_finite JNull = True"
| "js_is_finite JUndef = False"
| "js_is_finite (JArr xs) = False"
| "js_is_finite (JObj kvs) = False"

fun js_parses_float :: "jsval \<Rightarrow> bool" where
  "js_parses_float (JNum n) = (n \<noteq> DNaN)"
| "js_parses_float (JStr s) = parses_float s"
| "js_parses_float v = False"

definition dt_isNumber :: "jsval \<Rightarrow> bool \<Rightarrow> bool" where
  "dt_isNumber d formatted =
    (let d' = (case d of JStr s \<Rightarrow> if formatted then JStr (strip_formatted s) else d | _ \<Rightarrow> d)
     in js_not d' \<or> d' = JStr ''-'' \<or> (js_parses_float d' \<and> js_is_finite d'))"

definition dt_isHtml :: "jsval \<Rightarrow> bool" where
  "dt_isHtml d \<longleftrightarrow> js_not d \<or> (\<exists>s. d = JStr s)"

lemma dt_isHtml_code [code]:
  "dt_isHtml d = (js_not d \<or> (case d of JStr s \<Rightarrow> True | _ \<Rightarrow> False))"
  by (auto simp: dt_isHtml_def split: jsval.splits)

text \<open>
  \<open>_stripHtml\<close> replaces \<open>/<.*?>/g\<close>: from a \<open><\<close> to the next \<open>>\<close>, unless a line ends in
  between, where the match fails and the scan goes on.
\<close>

definition line_end :: "char \<Rightarrow> bool" where
  "line_end c \<longleftrightarrow> c = CHR 0x0A \<or> c = CHR 0x0D"

fun after_gt :: "string \<Rightarrow> string option" where
  "after_gt [] = None"
| "after_gt (c # cs) = (if c = CHR ''>'' then Some cs else if line_end c then None else after_gt cs)"

lemma after_gt_length: "after_gt cs = Some r \<Longrightarrow> length r < length cs"
  by (induction cs) (auto split: if_splits)

function dt_stripHtml :: "string \<Rightarrow> string" where
  "dt_stripHtml [] = []"
| "dt_stripHtml (c # cs) =
    (case (if c = CHR ''<'' then after_gt cs else None) of
       Some r \<Rightarrow> dt_stripHtml r
     | None \<Rightarrow> c # dt_stripHtml cs)"
  by pat_completeness auto
termination
  by (relation "measure length") (auto dest: after_gt_length split: if_splits)

definition dt_htmlNumeric :: "jsval \<Rightarrow> bool \<Rightarrow> bool" where
  "dt_htmlNumeric d formatted =
    (if dt_empty d then True
     else (case d of JStr s \<Rightarrow> dt_isNumber (JStr (dt_stripHtml s)) formatted | _ \<Rightarrow> False))"

definition dt_intVal :: "string \<Rightarrow> int option" where
  "dt_intVal s = (case parse_int s of None \<Rightarrow> None
     | Some i \<Rightarrow> if num_finite (js_number s) then Some i else None)"

section \<open>Arrays\<close>

text \<open>Elements that are falsy in the code are \<^const>\<open>None\<close> here.\<close>

fun dt_pluck :: "('a \<Rightarrow> 'b) \<Rightarrow> 'a option list \<Rightarrow> 'b list" where
  "dt_pluck f [] = []"
| "dt_pluck f (x # xs) = (case x of None \<Rightarrow> dt_pluck f xs | Some a \<Rightarrow> f a # dt_pluck f xs)"

definition dt_range :: "int \<Rightarrow> int option \<Rightarrow> int list" where
  "dt_range len start = (case start of None \<Rightarrow> [0..len - 1] | Some e \<Rightarrow> [len..e - 1])"

fun dt_unique_from :: "'a list \<Rightarrow> 'a list \<Rightarrow> 'a list" where
  "dt_unique_from out [] = out"
| "dt_unique_from out (v # src) = dt_unique_from (if v \<in> set out then out else out @ [v]) src"

definition dt_unique :: "'a list \<Rightarrow> 'a list" where
  "dt_unique src = dt_unique_from [] src"

lemma dt_unique_from_props:
  "distinct out \<Longrightarrow> distinct (dt_unique_from out src) \<and> set (dt_unique_from out src) = set out \<union> set src"
  by (induction src arbitrary: out) auto

lemma dt_unique_from_prefix: "\<exists>r. dt_unique_from out src = out @ r"
proof (induction src arbitrary: out)
  case (Cons v src)
  then show ?case by (cases "v \<in> set out") (simp_all, metis append_assoc)
qed simp

section \<open>Sort formatters and type detection\<close>

definition to_lower :: "char \<Rightarrow> char" where
  "to_lower c = (let n = of_char c in if 65 \<le> n \<and> n \<le> (90 :: nat) then char_of (n + 32) else c)"

text \<open>\<open>toLowerCase\<close> on ASCII letters; other characters are left as they are.\<close>

definition js_toLowerCase :: "string \<Rightarrow> string" where
  "js_toLowerCase s = map to_lower s"

text \<open>\<open>d * 1\<close>; \<^const>\<open>None\<close> for the objects whose conversion is not modelled.\<close>

fun js_times_one :: "jsval \<Rightarrow> dbl" where
  "js_times_one (JNum n) = n"
| "js_times_one (JStr s) = js_number s"
| "js_times_one (JBool b) = Fin (if b then 1 else 0)"
| "js_times_one JNull = Fin 0"
| "js_times_one (JArr xs) = js_number (js_string (JArr xs))"
| "js_times_one v = DNaN"

text \<open>\<open>__numericReplace\<close> with the replacements it is given.\<close>

definition dt_numericReplace :: "(string \<Rightarrow> string) \<Rightarrow> jsval \<Rightarrow> dbl" where
  "dt_numericReplace repl d =
    (if dt_empty d then NegInf
     else js_times_one (case d of JStr s \<Rightarrow> JStr (repl s) | _ \<Rightarrow> d))"

definition numeric_pre :: "jsval \<Rightarrow> dbl" where
  "numeric_pre = dt_numericReplace id"

definition numeric_fmt_pre :: "jsval \<Rightarrow> dbl" where
  "numeric_fmt_pre = dt_numericReplace strip_formatted"

definition html_numeric_pre :: "jsval \<Rightarrow> dbl" where
  "html_numeric_pre = dt_numericReplace dt_stripHtml"

definition html_numeric_fmt_pre :: "jsval \<Rightarrow> dbl" where
  "html_numeric_fmt_pre = dt_numericReplace (strip_formatted \<circ> dt_stripHtml)"

text \<open>\<open>string-asc\<close> and \<open>string-desc\<close>.\<close>

definition string_asc :: "('a \<Rightarrow> 'a \<Rightarrow> bool) \<Rightarrow> 'a \<Rightarrow> 'a \<Rightarrow> int" where
  "string_asc lt x y = (if lt x y then -1 else if lt y x then 1 else 0)"

definition string_desc :: "('a \<Rightarrow> 'a \<Rightarrow> bool) \<Rightarrow> 'a \<Rightarrow> 'a \<Rightarrow> int" where
  "string_desc lt x y = (if lt x y then 1 else if lt y x then -1 else 0)"

text \<open>The built-in detectors, in order; \<open>Date.parse\<close> (whether it recognises a date) is implementation-defined.\<close>

definition detect_numeric :: "jsval \<Rightarrow> string option" where
  "detect_numeric d = (if dt_isNumber d False then Some ''numeric'' else None)"

definition date_start_char :: "char \<Rightarrow> bool" where
  "date_start_char c \<longleftrightarrow> is_digit c \<or> c = CHR ''+'' \<or> c = CHR ''-'' \<or>
     (65 \<le> (of_char c :: nat) \<and> (of_char c :: nat) \<le> 90) \<or> (97 \<le> (of_char c :: nat) \<and> (of_char c :: nat) \<le> 122)"

definition detect_date :: "(jsval \<Rightarrow> bool) \<Rightarrow> jsval \<Rightarrow> string option" where
  "detect_date is_date d =
    (let starts = (case d of JStr (c # _) \<Rightarrow> date_start_char c | JNum DNaN \<Rightarrow> True | JNum _ \<Rightarrow> True | JBool _ \<Rightarrow> True | _ \<Rightarrow> True)
     in if \<not> js_not d \<and> \<not> starts then None
        else if is_date d \<or> dt_empty d then Some ''date'' else None)"

definition detect_numeric_fmt :: "jsval \<Rightarrow> string option" where
  "detect_numeric_fmt d = (if dt_isNumber d True then Some ''numeric-fmt'' else None)"

definition detect_html_numeric :: "jsval \<Rightarrow> string option" where
  "detect_html_numeric d = (if dt_htmlNumeric d False then Some ''html-numeric'' else None)"

definition detect_html_numeric_fmt :: "jsval \<Rightarrow> string option" where
  "detect_html_numeric_fmt d = (if dt_htmlNumeric d True then Some ''html-numeric-fmt'' else None)"

definition detect_html :: "jsval \<Rightarrow> string option" where
  "detect_html d = (if dt_empty d \<or> (case d of JStr s \<Rightarrow> CHR ''<'' \<in> set s | _ \<Rightarrow> False)
     then Some ''html'' else None)"

definition builtin_detectors :: "(jsval \<Rightarrow> bool) \<Rightarrow> (jsval \<Rightarrow> string option) list" where
  "builtin_detectors is_date = [detect_numeric, detect_date is_date, detect_numeric_fmt,
     detect_html_numeric, detect_html_numeric_fmt, detect_html]"

section \<open>Sort keys\<close>

text \<open>What the formatters return and \<open><\<close> compares: a number or a string.\<close>

datatype sort_key = KNum dbl | KStr string

text \<open>\<open>x < y\<close>: two strings by their characters, anything else as numbers.\<close>

fun key_num :: "sort_key \<Rightarrow> dbl" where
  "key_num (KNum n) = n"
| "key_num (KStr s) = js_number s"

fun key_less :: "sort_key \<Rightarrow> sort_key \<Rightarrow> bool" where
  "key_less (KStr a) (KStr b) = str_less a b"
| "key_less a b = num_less (key_num a) (key_num b)"

text \<open>A value that no formatter has treated, as the comparison converts it.\<close>

fun key_of_val :: "jsval \<Rightarrow> sort_key" where
  "key_of_val JUndef = KNum DNaN"
| "key_of_val JNull = KNum (Fin 0)"
| "key_of_val (JBool b) = KNum (Fin (if b then 1 else 0))"
| "key_of_val (JNum n) = KNum n"
| "key_of_val v = KStr (js_string v)"

definition html_pre :: "jsval \<Rightarrow> sort_key js_res" where
  "html_pre a = (case a of
      JStr s \<Rightarrow> Inr (KStr (js_toLowerCase (dt_stripHtml s)))
    | JUndef \<Rightarrow> Inl TypeError
    | JNull \<Rightarrow> Inl TypeError
    | _ \<Rightarrow> Inr (KStr (js_string a)))"

definition string_pre :: "jsval \<Rightarrow> sort_key" where
  "string_pre a = (case a of
      JStr s \<Rightarrow> KStr (js_toLowerCase s)
    | _ \<Rightarrow> if js_not a then KStr '''' else KStr (js_string a))"

text \<open>\<open>Date.parse(d) || 0\<close>\<close>

definition date_pre :: "(jsval \<Rightarrow> dbl) \<Rightarrow> jsval \<Rightarrow> sort_key" where
  "date_pre date_parse d = KNum (if date_parse d = DNaN then Fin 0 else date_parse d)"

text \<open>\<open>DataTable.ext.type.order[type + "-pre"]\<close>\<close>

definition order_pre :: "(jsval \<Rightarrow> dbl) \<Rightarrow> string \<Rightarrow> (jsval \<Rightarrow> sort_key js_res) option" where
  "order_pre date_parse ty =
    (if ty = ''date'' then Some (Inr \<circ> date_pre date_parse)
     else if ty = ''numeric'' then Some (Inr \<circ> KNum \<circ> numeric_pre)
     else if ty = ''numeric-fmt'' then Some (Inr \<circ> KNum \<circ> numeric_fmt_pre)
     else if ty = ''html-numeric'' then Some (Inr \<circ> KNum \<circ> html_numeric_pre)
     else if ty = ''html-numeric-fmt'' then Some (Inr \<circ> KNum \<circ> html_numeric_fmt_pre)
     else if ty = ''html'' then Some html_pre
     else if ty = ''string'' then Some (Inr \<circ> string_pre)
     else None)"

section \<open>Search formatters\<close>

definition newlines_to_spaces :: "string \<Rightarrow> string" where
  "newlines_to_spaces s = map (\<lambda>c. if line_end c then CHR '' '' else c) s"

definition search_html :: "jsval \<Rightarrow> jsval" where
  "search_html d = (if dt_empty d then JStr ''''
     else (case d of JStr s \<Rightarrow> JStr (dt_stripHtml (newlines_to_spaces s)) | _ \<Rightarrow> JStr ''''))"

definition search_string :: "jsval \<Rightarrow> jsval" where
  "search_string d = (if dt_empty d then JStr ''''
     else (case d of JStr s \<Rightarrow> JStr (newlines_to_spaces s) | _ \<Rightarrow> d))"

text \<open>\<open>DataTable.ext.type.search[type]\<close>\<close>

definition type_search :: "string \<Rightarrow> (jsval \<Rightarrow> jsval) option" where
  "type_search ty = (if ty = ''html'' then Some search_html
     else if ty = ''string'' then Some search_string else None)"

section \<open>Page buttons\<close>

datatype page_btn = Page int | Ellipsis

text \<open>\<open>_numbers\<close>, with \<open>numbers_length\<close> as a parameter.\<close>

definition dt_numbers :: "int \<Rightarrow> int \<Rightarrow> int \<Rightarrow> page_btn list" where
  "dt_numbers buttons page pages =
    (let half = buttons div 2
     in if pages \<le> buttons then map Page (dt_range 0 (Some pages))
        else if page \<le> half then map Page (dt_range 0 (Some (buttons - 2))) @ [Ellipsis, Page (pages - 1)]
        else if page \<ge> pages - 1 - half then
          [Page 0, Ellipsis] @ map Page (dt_range (pages - (buttons - 2)) (Some pages))
        else [Page 0, Ellipsis] @ map Page (dt_range (page - 1) (Some (page + 2))) @ [Ellipsis, Page (pages - 1)])"

datatype pager_item = Btn string | Numbers "page_btn list"

text \<open>The built-in paging types of \<open>DataTable.ext.pager\<close>.\<close>

definition pager_simple :: "pager_item list" where
  "pager_simple = [Btn ''previous'', Btn ''next'']"

definition pager_full :: "pager_item list" where
  "pager_full = [Btn ''first'', Btn ''previous'', Btn ''next'', Btn ''last'']"

definition pager_simple_numbers :: "int \<Rightarrow> int \<Rightarrow> pager_item list" where
  "pager_simple_numbers page pages = [Btn ''previous'', Numbers (dt_numbers 7 page pages), Btn ''next'']"

definition pager_full_numbers :: "int \<Rightarrow> int \<Rightarrow> pager_item list" where
  "pager_full_numbers page pages =
    [Btn ''first'', Btn ''previous'', Numbers (dt_numbers 7 page pages), Btn ''next'', Btn ''last'']"

section \<open>Versions and CSS lengths\<close>

text \<open>\<open>versionCheck\<close>: \<open>this\<close> is the library's own version; \<open>parseInt(x) || 0\<close> on a missing part is 0.\<close>

definition version_part :: "string \<Rightarrow> int" where
  "version_part s = (case parse_int s of None \<Rightarrow> 0 | Some i \<Rightarrow> i)"

fun version_loop :: "string list \<Rightarrow> string list \<Rightarrow> bool" where
  "version_loop this [] = True"
| "version_loop this (b # that) =
    (let iThis = (case this of [] \<Rightarrow> 0 | a # _ \<Rightarrow> version_part a); iThat = version_part b
     in if iThis = iThat then version_loop (tl this) that else iThis > iThat)"

definition versionCheck :: "string \<Rightarrow> string \<Rightarrow> bool" where
  "versionCheck this version = version_loop (split_on (CHR ''.'') this) (split_on (CHR ''.'') version)"

definition dt_stringToCss :: "jsval \<Rightarrow> string js_res" where
  "dt_stringToCss s = (case s of
      JNull \<Rightarrow> Inr ''0px''
    | JNum n \<Rightarrow> Inr (if num_less n (Fin 0) then ''0px'' else show_num n @ ''px'')
    | JStr t \<Rightarrow> Inr (if t \<noteq> [] \<and> is_digit (last t) then t @ ''px'' else t)
    | _ \<Rightarrow> Inl TypeError)"

section \<open>Facts\<close>

text \<open>Stripping markup leaves nothing to strip.\<close>

lemma after_gt_strip: "after_gt cs = None \<Longrightarrow> after_gt (dt_stripHtml cs) = None"
  by (induction cs) (auto simp: line_end_def split: if_splits)

lemma stripHtml_idem: "dt_stripHtml (dt_stripHtml s) = dt_stripHtml s"
proof (induction s rule: dt_stripHtml.induct)
  case (2 c cs)
  show ?case
  proof (cases "if c = CHR ''<'' then after_gt cs else None")
    case None
    with 2 have IH: "dt_stripHtml (dt_stripHtml cs) = dt_stripHtml cs" by simp
    from None have "(if c = CHR ''<'' then after_gt (dt_stripHtml cs) else None) = None"
      by (auto simp: after_gt_strip split: if_splits)
    with None IH show ?thesis by simp
  next
    case (Some r)
    with 2 show ?thesis by simp
  qed
qed simp

lemma strip_html_plain: "CHR ''<'' \<notin> set s \<Longrightarrow> dt_stripHtml s = s"
  by (induction s) auto

text \<open>A cell that is detected as a plain number sorts by a number, never by \<open>NaN\<close>.\<close>

lemma num_finite_iff: "num_finite n \<longleftrightarrow> (\<exists>r. n = Fin r)"
  by (fact num_finite_def)

lemma numeric_pre_not_nan: "dt_isNumber d False \<Longrightarrow> numeric_pre d \<noteq> DNaN"
  by (cases d)
    (auto simp: dt_isNumber_def numeric_pre_def dt_numericReplace_def dt_empty_def Let_def num_finite_iff)

lemma num_less_total: "a \<noteq> DNaN \<Longrightarrow> b \<noteq> DNaN \<Longrightarrow> a \<noteq> b \<Longrightarrow> num_less a b \<or> num_less b a"
  by (cases a; cases b) auto

text \<open>Keys of one kind, without \<open>NaN\<close>, are totally ordered.\<close>

fun key_kind :: "sort_key \<Rightarrow> bool" where
  "key_kind (KNum n) = True" | "key_kind (KStr s) = False"

definition key_ok :: "bool \<Rightarrow> sort_key \<Rightarrow> bool" where
  "key_ok numeric k \<longleftrightarrow> key_kind k = numeric \<and> k \<noteq> KNum DNaN"

lemma key_less_irrefl [simp]: "\<not> key_less a a"
  by (cases a) simp_all

lemma key_less_trans: "key_ok n a \<Longrightarrow> key_ok n b \<Longrightarrow> key_ok n c \<Longrightarrow> key_less a b \<Longrightarrow> key_less b c \<Longrightarrow> key_less a c"
  by (cases a; cases b; cases c) (auto simp: key_ok_def intro: num_less_trans str_less_trans)

lemma key_less_total: "key_ok n a \<Longrightarrow> key_ok n b \<Longrightarrow> a \<noteq> b \<Longrightarrow> key_less a b \<or> key_less b a"
  by (cases a; cases b) (auto simp: key_ok_def dest: num_less_total str_less_total)

section \<open>Properties\<close>

definition btn_pages :: "page_btn list \<Rightarrow> int list" where
  "btn_pages bs = [p. Page p \<leftarrow> bs]"

lemma btn_pages_simps [simp]:
  "btn_pages [] = []" "btn_pages (Page p # bs) = p # btn_pages bs" "btn_pages (Ellipsis # bs) = btn_pages bs"
  "btn_pages (as @ bs) = btn_pages as @ btn_pages bs" "btn_pages (map Page ps) = ps"
  by (simp_all add: btn_pages_def) (induction ps; simp)

lemma numbers_in_range:
  "0 \<le> page \<Longrightarrow> page = 0 \<or> page < pages \<Longrightarrow> set (btn_pages (dt_numbers 7 page pages)) \<subseteq> {0..<pages}"
  unfolding dt_numbers_def dt_range_def Let_def by auto

text \<open>for a current page of a table, the page buttons are increasing page numbers of the
  table, at most seven with the gaps; the first, the last and the current page and its two
  neighbours are always among them.\<close>

theorem numbers_reach_neighbours:
  assumes "0 \<le> page" "page < pages"
  defines "ps \<equiv> btn_pages (dt_numbers 7 page pages)"
  shows "sorted_wrt (<) ps \<and> set ps \<subseteq> {0..<pages} \<and> {0, page, pages - 1} \<subseteq> set ps \<and>
    {page - 1, page + 1} \<inter> {0..<pages} \<subseteq> set ps \<and> int (length (dt_numbers 7 page pages)) = min 7 pages"
  using assms(1,2) unfolding ps_def dt_numbers_def dt_range_def Let_def
  by (auto simp: sorted_wrt_append sorted_wrt_upto)

theorem numbers_reach_neighbours_witness:
  "btn_pages (dt_numbers 7 10 20) = [0, 9, 10, 11, 19] \<and> sorted_wrt (<) (btn_pages (dt_numbers 7 10 20))"
  using numbers_reach_neighbours [of 10 20] by (simp add: dt_numbers_def dt_range_def Let_def upto_rec1)

end
