(* ===== verification/Ng_OrderBy.thy ===== *)
theory Ng_OrderBy
  imports Sorter_Spec DT_Util
begin

text \<open>
  The filter \<open>orderBy\<close> of AngularJS (public/bower_components/angular/angular.js, \<open>orderByFilter\<close>), by which the
  pages order their groups, hosts, probes and logs.  Values are those of DT_Values.  A predicate is an identifier
  path or a number with an optional direction; other expressions, keys that are objects, and elements
  that are \<open>undefined\<close> (which the platform's sort moves to the end unasked) are \<open>Unsupported\<close>.  The platform's sort is a parameter with the contract of Sorter_Spec.
\<close>

section \<open>Predicates\<close>

datatype order_get = By_Path "string list" | By_Key string

datatype order_pred = Identity bool | Getter bool order_get

definition ident_start :: "char \<Rightarrow> bool" where
  "ident_start c \<longleftrightarrow> c \<in> set ''ABCDEFGHIJKLMNOPQRSTUVWXYZabcdefghijklmnopqrstuvwxyz_$''"

text \<open>Words that are literals, and names every object has.\<close>

definition special_names :: "string list" where
  "special_names = [''true'', ''false'', ''null'', ''undefined'', ''this'', ''constructor'', ''toString'', ''toLocaleString'',
     ''valueOf'', ''hasOwnProperty'', ''isPrototypeOf'', ''propertyIsEnumerable'']"

definition plain_ident :: "string \<Rightarrow> bool" where
  "plain_ident s \<longleftrightarrow> s \<noteq> [] \<and> ident_start (hd s) \<and> list_all (\<lambda>c. ident_start c \<or> is_digit c) s \<and>
     s \<notin> set special_names \<and> take 2 s \<noteq> ''__''"

text \<open>\<open>$parse\<close> for what the model supports: a number is a constant, whose property is compared.\<close>

definition order_parse :: "string \<Rightarrow> order_get js_res" where
  "order_parse s =
    (if s \<noteq> [] \<and> list_all is_digit s then Inr (By_Key (show_nat (read_digits s)))
     else if list_all plain_ident (split_on CHR ''.'' s) then Inr (By_Path (split_on CHR ''.'' s))
     else Inl Unsupported)"

definition sign_char :: "char \<Rightarrow> bool" where
  "sign_char c \<longleftrightarrow> c = CHR ''+'' \<or> c = CHR ''-''"

definition order_pred_of :: "jsval \<Rightarrow> order_pred js_res" where
  "order_pred_of p = (case p of
      JStr s \<Rightarrow>
        (let signed = (s \<noteq> [] \<and> sign_char (hd s)); descending = (signed \<and> hd s = CHR ''-''); t = (if signed then tl s else s)
         in if t = [] then Inr (Identity descending) else js_bind (order_parse t) (\<lambda>g. Inr (Getter descending g)))
    | _ \<Rightarrow> if js_not p then Inr (Identity False) else Inl Unsupported)"

text \<open>The property path of a value; a path through \<open>null\<close> or \<open>undefined\<close> is undefined.\<close>

fun get_path :: "string list \<Rightarrow> jsval \<Rightarrow> jsval js_res" where
  "get_path [] v = Inr v"
| "get_path (k # ks) (JObj kvs) = get_path ks (case map_of kvs k of Some v \<Rightarrow> v | None \<Rightarrow> JUndef)"
| "get_path (k # ks) (JStr s) = Inl Unsupported"
| "get_path (k # ks) (JArr xs) = Inl Unsupported"
| "get_path (k # ks) v = Inr JUndef"

fun get_key :: "string \<Rightarrow> jsval \<Rightarrow> jsval js_res" where
  "get_key k (JObj kvs) = Inr (case map_of kvs k of Some v \<Rightarrow> v | None \<Rightarrow> JUndef)"
| "get_key k (JArr xs) = Inr (if read_digits k < length xs then xs ! read_digits k else JUndef)"
| "get_key k (JBool b) = Inr JUndef"
| "get_key k (JNum n) = Inr JUndef"
| "get_key k v = Inl Unsupported"

fun order_key :: "order_pred \<Rightarrow> jsval \<Rightarrow> jsval js_res" where
  "order_key (Identity d) v = Inr v"
| "order_key (Getter d (By_Path ks)) v = get_path ks v"
| "order_key (Getter d (By_Key k)) v = get_key k v"

fun pred_descending :: "order_pred \<Rightarrow> bool" where
  "pred_descending (Identity d) = d"
| "pred_descending (Getter d g) = d"

section \<open>Comparing\<close>

fun type_of :: "jsval \<Rightarrow> string" where
  "type_of JUndef = ''undefined''"
| "type_of (JBool b) = ''boolean''"
| "type_of (JNum n) = ''number''"
| "type_of (JStr s) = ''string''"
| "type_of v = ''object''"

text \<open>\<open>v1 < v2\<close> for values of one type that are not objects.\<close>

fun js_lt :: "jsval \<Rightarrow> jsval \<Rightarrow> bool" where
  "js_lt (JNum a) (JNum b) = num_less a b"
| "js_lt (JStr a) (JStr b) = str_less a b"
| "js_lt (JBool a) (JBool b) = (\<not> a \<and> b)"
| "js_lt v w = False"

fun lower_value :: "jsval \<Rightarrow> jsval" where
  "lower_value (JStr s) = JStr (js_toLowerCase s)"
| "lower_value v = v"

definition ng_compare :: "jsval \<Rightarrow> jsval \<Rightarrow> int" where
  "ng_compare v1 v2 =
    (if type_of v1 = type_of v2 then
       (let a = lower_value v1; b = lower_value v2
        in if a = b \<and> a \<noteq> JNum DNaN then 0 else if js_lt a b then -1 else 1)
     else if str_less (type_of v1) (type_of v2) then -1 else 1)"

text \<open>The key of a value for a predicate; it is there whenever \<open>orderBy\<close> gets to compare.\<close>

definition key_value :: "order_pred \<Rightarrow> jsval \<Rightarrow> jsval" where
  "key_value p v = (case order_key p v of Inr k \<Rightarrow> k | Inl e \<Rightarrow> JUndef)"

definition reverseComparator :: "('a \<Rightarrow> 'a \<Rightarrow> int) \<Rightarrow> bool \<Rightarrow> 'a \<Rightarrow> 'a \<Rightarrow> int" where
  "reverseComparator cmp descending = (if descending then (\<lambda>a b. cmp b a) else cmp)"

definition pred_compare :: "order_pred \<Rightarrow> jsval \<Rightarrow> jsval \<Rightarrow> int" where
  "pred_compare p = reverseComparator (\<lambda>a b. ng_compare (key_value p a) (key_value p b)) (pred_descending p)"

fun comparator :: "order_pred list \<Rightarrow> jsval \<Rightarrow> jsval \<Rightarrow> int" where
  "comparator [] o1 o2 = 0"
| "comparator (p # ps) o1 o2 = (if pred_compare p o1 o2 \<noteq> 0 then pred_compare p o1 o2 else comparator ps o1 o2)"

text \<open>\<open>toBoolean\<close> of angular.js.\<close>

definition ng_toBoolean :: "jsval \<Rightarrow> bool" where
  "ng_toBoolean v \<longleftrightarrow> \<not> js_not v \<and> v \<noteq> JArr [] \<and>
     js_toLowerCase (js_string v) \<notin> {''f'', ''0'', ''false'', ''no'', ''n'', ''[]''}"

fun plain_key :: "jsval \<Rightarrow> bool" where
  "plain_key (JArr xs) = False"
| "plain_key (JObj kvs) = False"
| "plain_key v = True"

section \<open>\<open>orderBy\<close>\<close>

type_synonym js_sort = "(jsval \<Rightarrow> jsval \<Rightarrow> int) \<Rightarrow> jsval list \<Rightarrow> jsval list"

definition order_items :: "js_sort \<Rightarrow> jsval list \<Rightarrow> jsval \<Rightarrow> jsval \<Rightarrow> jsval js_res" where
  "order_items arraySort xs preds reverseOrder =
    (let given = (case preds of JArr ps \<Rightarrow> ps | p \<Rightarrow> [p]);
         used = (if given = [] then [JStr ''+''] else given)
     in js_bind (js_mapM order_pred_of used) (\<lambda>ps.
          if length xs < 2 then Inr (JArr xs)
          else if JUndef \<in> set xs then Inl Unsupported
          else js_bind (js_mapM (\<lambda>x. js_mapM (\<lambda>p. order_key p x) ps) xs) (\<lambda>keys.
            if list_all (list_all plain_key) keys
            then Inr (JArr (arraySort (reverseComparator (comparator ps) (ng_toBoolean reverseOrder)) xs))
            else Inl Unsupported)))"

definition orderBy :: "js_sort \<Rightarrow> jsval \<Rightarrow> jsval \<Rightarrow> jsval \<Rightarrow> jsval js_res" where
  "orderBy arraySort array preds reverseOrder = (case array of
      JArr xs \<Rightarrow> order_items arraySort xs preds reverseOrder
    | JStr s \<Rightarrow> order_items arraySort (map (\<lambda>c. JStr [c]) s) preds reverseOrder
    | JObj kvs \<Rightarrow> if map_of kvs ''length'' \<noteq> None then Inl Unsupported else Inr array
    | _ \<Rightarrow> Inr array)"

section \<open>The comparison is consistent\<close>

fun type_rank :: "jsval \<Rightarrow> nat" where
  "type_rank (JBool b) = 0"
| "type_rank (JNum n) = 1"
| "type_rank JUndef = 4"
| "type_rank (JStr s) = 3"
| "type_rank v = 2"

lemma type_of_rank: "type_of v = type_of w \<longleftrightarrow> type_rank v = type_rank w"
  "str_less (type_of v) (type_of w) \<longleftrightarrow> type_rank v < type_rank w"
  by (cases v; cases w; simp)+

definition sort_key_ok :: "jsval \<Rightarrow> bool" where
  "sort_key_ok v \<longleftrightarrow> plain_key v \<and> v \<noteq> JNum DNaN"

lemma lower_value_type [simp]: "type_rank (lower_value v) = type_rank v" "plain_key (lower_value v) = plain_key v"
  "lower_value v = JNum n \<longleftrightarrow> v = JNum n"
  by (cases v; auto)+

lemma js_lt_facts:
  assumes "sort_key_ok a" "sort_key_ok b" "type_rank a = type_rank b"
  shows "a \<noteq> b \<Longrightarrow> js_lt a b \<or> js_lt b a" "js_lt a b \<Longrightarrow> \<not> js_lt b a" "\<not> js_lt a a"
proof -
  show "a \<noteq> b \<Longrightarrow> js_lt a b \<or> js_lt b a"
    using assms num_less_total str_less_total by (cases a; cases b) (auto simp: sort_key_ok_def)
  show "js_lt a b \<Longrightarrow> \<not> js_lt b a"
    by (cases a; cases b) (auto dest: num_less_trans str_less_trans)
  show "\<not> js_lt a a" by (cases a) auto
qed

lemma js_lt_trans: "js_lt a b \<Longrightarrow> js_lt b c \<Longrightarrow> js_lt a c"
  by (cases a; cases b; cases c) (auto intro: num_less_trans str_less_trans)

text \<open>Less is the smaller type rank first, then the smaller value.\<close>

definition val_less :: "jsval \<Rightarrow> jsval \<Rightarrow> bool" where
  "val_less v w \<longleftrightarrow> type_rank v < type_rank w \<or> type_rank v = type_rank w \<and> js_lt v w"

lemma val_less_trans: "val_less a b \<Longrightarrow> val_less b c \<Longrightarrow> val_less a c"
  unfolding val_less_def using js_lt_trans by (elim disjE) auto

lemma val_less_irrefl: "\<not> val_less a a"
  by (cases a) (auto simp: val_less_def)

lemma val_less_total:
  assumes "sort_key_ok a" "sort_key_ok b" "a \<noteq> b"
  shows "val_less a b \<or> val_less b a"
  unfolding val_less_def using js_lt_facts(1) [OF assms(1,2) _ assms(3)] by (metis nat_neq_iff)

lemma ng_compare_val:
  assumes "sort_key_ok v" "sort_key_ok w"
  shows "ng_compare v w = (if lower_value v = lower_value w then 0 else if val_less (lower_value v) (lower_value w) then -1 else 1)"
proof -
  have "lower_value v \<noteq> JNum DNaN" using assms by (simp add: sort_key_ok_def)
  moreover have "lower_value v \<noteq> lower_value w" if "type_rank v \<noteq> type_rank w"
    using that by (metis lower_value_type(1))
  ultimately show ?thesis unfolding ng_compare_def val_less_def type_of_rank Let_def lower_value_type(1) by auto
qed

lemma lower_value_ok [simp]: "sort_key_ok (lower_value v) = sort_key_ok v"
  by (simp add: sort_key_ok_def)

lemma ng_compare_signs:
  assumes "sort_key_ok v" "sort_key_ok w"
  shows "ng_compare v w = 0 \<longleftrightarrow> lower_value v = lower_value w"
    and "ng_compare v w < 0 \<longleftrightarrow> val_less (lower_value v) (lower_value w)"
    and "0 < ng_compare v w \<longleftrightarrow> val_less (lower_value w) (lower_value v)"
  using val_less_total [of "lower_value v" "lower_value w"] val_less_irrefl
    val_less_trans [of "lower_value v" "lower_value w" "lower_value v"] assms
  by (auto simp: ng_compare_val)

lemma ng_compare_consistent:
  assumes "\<And>a. a \<in> A \<Longrightarrow> sort_key_ok (f a)"
  shows "consistent_on A (\<lambda>a b. ng_compare (f a) (f b))"
proof -
  have le: "ng_compare (f a) (f b) \<le> 0 \<longleftrightarrow>
      lower_value (f a) = lower_value (f b) \<or> val_less (lower_value (f a)) (lower_value (f b))"
    if "a \<in> A" "b \<in> A" for a b
    using ng_compare_signs [OF assms assms, OF that] by linarith
  show ?thesis
    unfolding consistent_on_def
  proof (intro conjI ballI impI)
    fix a assume a: "a \<in> A"
    show "ng_compare (f a) (f a) = 0" using ng_compare_signs(1) [OF assms assms, OF a a] by simp
    fix b assume b: "b \<in> A"
    show "(ng_compare (f a) (f b) < 0) = (0 < ng_compare (f b) (f a))"
      using ng_compare_signs(2) [OF assms assms, OF a b] ng_compare_signs(3) [OF assms assms, OF b a] by simp
    fix c assume c: "c \<in> A" and "ng_compare (f a) (f b) \<le> 0" "ng_compare (f b) (f c) \<le> 0"
    then show "ng_compare (f a) (f c) \<le> 0"
      using val_less_trans unfolding le [OF a b] le [OF b c] le [OF a c] by metis
  qed
qed

lemma pred_compare_consistent:
  assumes "\<And>x. x \<in> A \<Longrightarrow> sort_key_ok (key_value p x)"
  shows "consistent_on A (pred_compare p)"
proof -
  note c = ng_compare_consistent [of A "key_value p", OF assms]
  show ?thesis
    using c consistent_swap [OF c] by (cases "pred_descending p") (simp_all add: pred_compare_def [abs_def] reverseComparator_def)
qed

lemma comparator_consistent:
  "(\<And>p x. p \<in> set ps \<Longrightarrow> x \<in> A \<Longrightarrow> sort_key_ok (key_value p x)) \<Longrightarrow> consistent_on A (comparator ps)"
proof (induction ps)
  case Nil
  then show ?case by (simp add: consistent_on_def)
next
  case (Cons p ps)
  from Cons.prems have "consistent_on A (pred_compare p)" by (intro pred_compare_consistent) auto
  moreover from Cons have "consistent_on A (comparator ps)" by auto
  ultimately show ?case by (simp add: comparator.simps(2) [abs_def] consistent_lex)
qed

text \<open>The comparison answers 0 exactly for equal keys.\<close>

lemma comparator_zero:
  assumes "\<And>p. p \<in> set ps \<Longrightarrow> sort_key_ok (key_value p a)" "\<And>p. p \<in> set ps \<Longrightarrow> sort_key_ok (key_value p b)"
  shows "comparator ps a b = 0 \<longleftrightarrow> (\<forall>p \<in> set ps. lower_value (key_value p a) = lower_value (key_value p b))"
  using assms
  by (induction ps) (auto simp: pred_compare_def reverseComparator_def ng_compare_signs)

section \<open>What \<open>orderBy\<close> returns\<close>

definition key_ok :: "order_pred \<Rightarrow> jsval \<Rightarrow> bool" where
  "key_ok p x \<longleftrightarrow> (case order_key p x of Inr k \<Rightarrow> sort_key_ok k | Inl e \<Rightarrow> False)"

definition sortable :: "order_pred list \<Rightarrow> jsval \<Rightarrow> bool" where
  "sortable ps x \<longleftrightarrow> x \<noteq> JUndef \<and> list_all (\<lambda>p. key_ok p x) ps"

lemma sortable_key:
  assumes "sortable ps x" "p \<in> set ps"
  shows "order_key p x = Inr (key_value p x)" "sort_key_ok (key_value p x)"
  using assms by (auto simp: sortable_def list_all_iff key_ok_def key_value_def split: sum.splits)

lemma mapM_all: "(\<And>x. x \<in> set xs \<Longrightarrow> f x = Inr (g x)) \<Longrightarrow> js_mapM f xs = Inr (map g xs)"
  by (induction xs) auto

definition order_cmp :: "order_pred list \<Rightarrow> jsval \<Rightarrow> jsval \<Rightarrow> jsval \<Rightarrow> int" where
  "order_cmp ps reverseOrder = reverseComparator (comparator ps) (ng_toBoolean reverseOrder)"

lemma order_cmp_consistent:
  assumes "list_all (sortable ps) xs"
  shows "consistent_on (set xs) (order_cmp ps r)"
proof -
  have "consistent_on (set xs) (comparator ps)"
    using assms by (intro comparator_consistent) (auto simp: list_all_iff intro: sortable_key)
  then show ?thesis by (simp add: order_cmp_def reverseComparator_def consistent_swap)
qed

lemma order_items_value:
  assumes "js_mapM order_pred_of preds = Inr ps" "preds \<noteq> []" "list_all (sortable ps) xs"
  shows "orderBy arraySort (JArr xs) (JArr preds) r
    = Inr (JArr (if length xs < 2 then xs else arraySort (order_cmp ps r) xs))"
proof -
  have "JUndef \<notin> set xs" using assms(3) by (auto simp: list_all_iff sortable_def)
  moreover have "js_mapM (\<lambda>x. js_mapM (\<lambda>p. order_key p x) ps) xs = Inr (map (\<lambda>x. map (\<lambda>p. key_value p x) ps) xs)"
    using assms(3) by (intro mapM_all) (auto simp: list_all_iff intro: sortable_key)
  moreover have "list_all (list_all plain_key) (map (\<lambda>x. map (\<lambda>p. key_value p x) ps) xs)"
    using assms(3) sortable_key(2) by (fastforce simp: list_all_iff sort_key_ok_def)
  ultimately show ?thesis using assms(1,2) by (simp add: orderBy_def order_items_def order_cmp_def Let_def)
qed

lemma orderBy_sorts:
  assumes "js_sorter arraySort" "js_mapM order_pred_of preds = Inr ps" "preds \<noteq> []" "list_all (sortable ps) xs"
  shows "\<exists>ys. orderBy arraySort (JArr xs) (JArr preds) r = Inr (JArr ys) \<and> mset ys = mset xs
    \<and> sorted_wrt (\<lambda>a b. order_cmp ps r a b \<le> 0) ys"
proof (cases "length xs < 2")
  case True
  then have "sorted_wrt (\<lambda>a b. order_cmp ps r a b \<le> 0) xs" by (cases xs; cases "tl xs") auto
  with True show ?thesis by (simp add: order_items_value [OF assms(2-4)])
next
  case False
  then show ?thesis
    using js_sorter.sort_perm [OF assms(1)] js_sorter.sort_order [OF assms(1) order_cmp_consistent [OF assms(4)]]
    by (simp add: order_items_value [OF assms(2-4)])
qed

text \<open>When the keys tell the elements apart, the result depends on neither the platform's sort nor the order of the input.\<close>

lemma orderBy_unique:
  assumes "js_sorter s" "js_sorter s'" "js_mapM order_pred_of preds = Inr ps" "preds \<noteq> []" "list_all (sortable ps) xs"
    and "mset xs' = mset xs"
    and distinguishes: "\<And>a b. a \<in> set xs \<Longrightarrow> b \<in> set xs \<Longrightarrow>
        (\<forall>p \<in> set ps. lower_value (key_value p a) = lower_value (key_value p b)) \<Longrightarrow> a = b"
  shows "orderBy s (JArr xs) (JArr preds) r = orderBy s' (JArr xs') (JArr preds) r"
proof -
  have sets: "set xs' = set xs" using assms(6) by (rule mset_eq_setD)
  then have ok': "list_all (sortable ps) xs'" using assms(5) by (simp add: list_all_iff)
  from orderBy_sorts [OF assms(1,3-5)] obtain ys where
    ys: "orderBy s (JArr xs) (JArr preds) r = Inr (JArr ys)" "mset ys = mset xs" "sorted_wrt (\<lambda>a b. order_cmp ps r a b \<le> 0) ys"
    by blast
  from orderBy_sorts [OF assms(2,3,4) ok'] obtain zs where
    zs: "orderBy s' (JArr xs') (JArr preds) r = Inr (JArr zs)" "mset zs = mset xs'" "sorted_wrt (\<lambda>a b. order_cmp ps r a b \<le> 0) zs"
    by blast
  have "set ys = set xs" using ys(2) by (rule mset_eq_setD)
  have "strict_on (set xs) (comparator ps)"
    unfolding strict_on_def
  proof (intro ballI impI)
    fix a b assume a: "a \<in> set xs" and b: "b \<in> set xs" and "comparator ps a b = 0"
    moreover have "sortable ps a" "sortable ps b" using a b assms(5) by (simp_all add: list_all_iff)
    ultimately show "a = b" using comparator_zero [of ps a b] sortable_key(2) distinguishes by blast
  qed
  then have "strict_on (set xs) (order_cmp ps r)"
    by (auto simp: order_cmp_def reverseComparator_def strict_on_def)
  with order_cmp_consistent [OF assms(5)] have "ys = zs"
    using ys zs assms(6) \<open>set ys = set xs\<close> by (intro sorted_cmp_unique [where cmp = "order_cmp ps r"]) auto
  with ys zs show ?thesis by simp
qed

end
