(* ===== verification/App_Order.thy ===== *)
theory App_Order
  imports App_Status Ng_OrderBy
begin

text \<open>
  The order the pages show their rows in: partials/hosts.html repeats over
  \<open>groups | orderBy:['-Status','Name']\<close>, and the pages for hosts and probes use the same predicates.  The rows
  are the scope's groups after the answers of App_Status, seen through the two fields the order reads; the
  filter is that of Ng_OrderBy.
\<close>

definition row_val :: "string \<times> int \<Rightarrow> jsval" where
  "row_val r = JObj [(''Name'', JStr (fst r)), (''Status'', JNum (Fin (of_int (snd r))))]"

definition group_row :: "group \<Rightarrow> string \<times> int" where
  "group_row g = (gr_Name g, gr_Status g)"

definition status_order :: jsval where
  "status_order = JArr [JStr ''-Status'', JStr ''Name'']"

definition shown_rows :: "js_sort \<Rightarrow> hosts_state \<Rightarrow> jsval js_res" where
  "shown_rows arraySort s = orderBy arraySort (JArr (map (row_val \<circ> group_row) (hc_groups s))) status_order JUndef"

text \<open>The worse status first; for one status, by name whatever its case.\<close>

definition row_before :: "string \<times> int \<Rightarrow> string \<times> int \<Rightarrow> bool" where
  "row_before r q \<longleftrightarrow> snd q < snd r \<or> snd r = snd q \<and>
     (js_toLowerCase (fst r) = js_toLowerCase (fst q) \<or> str_less (js_toLowerCase (fst r)) (js_toLowerCase (fst q)))"

abbreviation status_preds :: "order_pred list" where
  "status_preds \<equiv> [Getter True (By_Path [''Status'']), Getter False (By_Path [''Name''])]"

lemma status_order_parsed: "js_mapM order_pred_of [JStr ''-Status'', JStr ''Name''] = Inr status_preds"
  by code_simp

lemma row_keys [simp]:
  "key_value (Getter d (By_Path [''Status''])) (row_val r) = JNum (Fin (of_int (snd r)))"
  "key_value (Getter d (By_Path [''Name''])) (row_val r) = JStr (fst r)"
  by (simp_all add: key_value_def row_val_def)

lemma row_sortable: "sortable status_preds (row_val r)"
  by (simp add: sortable_def key_ok_def row_val_def sort_key_ok_def)

lemma row_val_inj: "row_val r = row_val q \<longleftrightarrow> r = q"
  by (cases r; cases q) (auto simp: row_val_def)

lemma row_order: "order_cmp status_preds JUndef (row_val r) (row_val q) \<le> 0 \<longleftrightarrow> row_before r q"
proof -
  have "\<not> ng_toBoolean JUndef" by (simp add: ng_toBoolean_def)
  moreover have "\<not> str_less a b" if "str_less b a" for a b using that str_less_trans by fastforce
  ultimately show ?thesis
    using str_less_total [of "js_toLowerCase (fst r)" "js_toLowerCase (fst q)"]
    by (auto simp: order_cmp_def reverseComparator_def pred_compare_def ng_compare_def row_before_def Let_def)
qed

lemma answered_rows:
  "map group_row (hc_groups (hosts_answers gs s)) = map group_row (hc_groups s) @ map (group_row \<circ> snd) gs"
proof (induction gs arbitrary: s)
  case (Cons a gs)
  have "map group_row (hc_groups (hosts_on_group n g s)) = map group_row (hc_groups s) @ [group_row g]" for n g
    by (simp add: hosts_on_group_def group_row_def split: prod.splits)
  with Cons show ?case by simp
qed simp

lemma rows_distinguished:
  assumes "distinct (map (js_toLowerCase \<circ> fst) rs)" "a \<in> set (map row_val rs)" "b \<in> set (map row_val rs)"
    and "\<forall>p \<in> set status_preds. lower_value (key_value p a) = lower_value (key_value p b)"
  shows "a = b"
proof -
  from assms(2,3) obtain r q where "a = row_val r" "b = row_val q" "r \<in> set rs" "q \<in> set rs" by auto
  with assms(1,4) show ?thesis by (auto simp: row_val_inj distinct_map inj_on_def)
qed

text \<open>C4: The hosts page lists each answered group once, the worse status first and one status by
  name whatever its case; with names that differ in more than case, the list is the same whatever
  the order in which the answers arrive and whichever way the browser sorts.\<close>

theorem hosts_page_ordered:
  assumes "js_sorter s1" "js_sorter s2" "hc_groups st = []" "mset bs = mset as"
    and "distinct (map (js_toLowerCase \<circ> gr_Name \<circ> snd) as)"
  shows "\<exists>rows. shown_rows s1 (hosts_answers as st) = Inr (JArr (map row_val rows))
    \<and> shown_rows s2 (hosts_answers bs st) = Inr (JArr (map row_val rows))
    \<and> mset rows = mset (map (group_row \<circ> snd) as) \<and> sorted_wrt row_before rows"
proof -
  let ?rs = "map (group_row \<circ> snd) as" and ?qs = "map (group_row \<circ> snd) bs"
  note preds = status_order_parsed list.distinct(2)
  have shown: "shown_rows s (hosts_answers gs st)
      = orderBy s (JArr (map row_val (map (group_row \<circ> snd) gs))) status_order JUndef" for s gs
    using answered_rows [of gs st] assms(3) by (simp add: shown_rows_def flip: map_map)
  have ok: "list_all (sortable status_preds) (map row_val ?rs)"
    by (simp add: list_all_iff row_sortable)
  from orderBy_sorts [OF assms(1) preds ok] obtain ys where
    ys: "orderBy s1 (JArr (map row_val ?rs)) status_order JUndef = Inr (JArr ys)" "mset ys = mset (map row_val ?rs)"
      "sorted_wrt (\<lambda>a b. order_cmp status_preds JUndef a b \<le> 0) ys"
    unfolding status_order_def by blast
  then have "set ys \<subseteq> range row_val" by (metis image_subset_iff list.set_map mset_eq_setD rangeI)
  then obtain rows where rows: "ys = map row_val rows" by (metis ex_map_conv rangeE subsetD)
  have "mset (map row_val ?qs) = mset (map row_val ?rs)" using assms(4) by simp
  moreover have "distinct (map (js_toLowerCase \<circ> fst) ?rs)" using assms(5) by (simp add: comp_def group_row_def)
  ultimately have "orderBy s1 (JArr (map row_val ?rs)) status_order JUndef = orderBy s2 (JArr (map row_val ?qs)) status_order JUndef"
    unfolding status_order_def by (intro orderBy_unique [OF assms(1,2) preds ok]) (blast intro: rows_distinguished)+
  moreover have "mset rows = mset ?rs"
  proof -
    have "inj row_val" by (rule injI) (simp add: row_val_inj)
    moreover have "image_mset row_val (mset rows) = image_mset row_val (mset ?rs)" using ys(2) unfolding rows mset_map .
    ultimately show ?thesis by (rule injD [OF multiset.inj_map])
  qed
  ultimately show ?thesis using ys shown rows by (auto simp: sorted_wrt_map row_order)
qed

definition web_group :: group where
  "web_group = \<lparr>gr_Name = ''web'', gr_Status = 100, gr_Hosts = None, gr_Level = None, gr_counts = None\<rparr>"

definition db_group :: group where
  "db_group = \<lparr>gr_Name = ''DB'', gr_Status = 300, gr_Hosts = None, gr_Level = None, gr_counts = None\<rparr>"

theorem hosts_page_ordered_witness:
  "\<exists>rows. shown_rows insertion_sort (hosts_answers [(''web'', web_group), (''DB'', db_group)] (hosts_load hosts_init))
      = Inr (JArr (map row_val rows))
    \<and> shown_rows insertion_sort (hosts_answers [(''DB'', db_group), (''web'', web_group)] (hosts_load hosts_init))
      = Inr (JArr (map row_val rows))
    \<and> mset rows = {#(''web'', 100), (''DB'', 300)#} \<and> sorted_wrt row_before rows"
  using hosts_page_ordered [OF insertion.js_sorter_axioms insertion.js_sorter_axioms, of "hosts_load hosts_init"
      "[(''DB'', db_group), (''web'', web_group)]" "[(''web'', web_group), (''DB'', db_group)]"]
  by (simp add: group_row_def web_group_def db_group_def js_toLowerCase_def to_lower_def)

lemma hosts_page_example:
  "shown_rows insertion_sort (hosts_answers [(''web'', web_group), (''DB'', db_group)] (hosts_load hosts_init))
    = Inr (JArr [row_val (''DB'', 300), row_val (''web'', 100)])"
  by code_simp

end
