(* ===== verification/DT_Objects.thy ===== *)
theory DT_Objects
  imports DT_Util "HOL-Library.AList"
begin

text \<open>
  Objects of the table engine (public/js/plugins/dataTables/jquery.dataTables.js): property
  access, the data source functions behind \<open>mData\<close> and \<open>mRender\<close>
  (\<open>_fnSplitObjNotation\<close>, \<open>_fnGetObjectDataFn\<close>, \<open>_fnSetObjectDataFn\<close>), and the option
  objects (\<open>_fnHungarianMap\<close>, \<open>_fnCamelToHungarian\<close>, the compatibility maps, \<open>_fnMap\<close>,
  \<open>_fnExtend\<close>).  Data values are trees: inherited properties, methods and sharing between
  values are not represented, so calling a method of a value is a TypeError.
\<close>

section \<open>Property access\<close>

definition index_of_key :: "string \<Rightarrow> nat option" where
  "index_of_key k = (if k \<noteq> [] \<and> list_all is_digit k \<and> show_nat (read_digits k) = k
     then Some (read_digits k) else None)"

fun js_prop :: "jsval \<Rightarrow> string \<Rightarrow> jsval js_res" where
  "js_prop JUndef k = Inl TypeError"
| "js_prop JNull k = Inl TypeError"
| "js_prop (JObj kvs) k = Inr (case map_of kvs k of None \<Rightarrow> JUndef | Some v \<Rightarrow> v)"
| "js_prop (JArr xs) k =
    (if k = ''length'' then Inr (JNum (Fin (of_nat (length xs))))
     else case index_of_key k of
            Some i \<Rightarrow> Inr (if i < length xs then xs ! i else JUndef)
          | None \<Rightarrow> Inr JUndef)"
| "js_prop (JStr s) k =
    (if k = ''length'' then Inr (JNum (Fin (of_nat (length s))))
     else case index_of_key k of
            Some i \<Rightarrow> Inr (if i < length s then JStr [s ! i] else JUndef)
          | None \<Rightarrow> Inr JUndef)"
| "js_prop v k = Inr JUndef"

text \<open>
  \<open>data[k] = v\<close> in strict mode: on a primitive it raises; an index beyond the end of an array
  extends it.
\<close>

fun js_set_prop :: "jsval \<Rightarrow> string \<Rightarrow> jsval \<Rightarrow> jsval js_res" where
  "js_set_prop (JObj kvs) k v = Inr (JObj (AList.update k v kvs))"
| "js_set_prop (JArr xs) k v =
    (case index_of_key k of
       Some i \<Rightarrow> Inr (JArr ((xs @ replicate (Suc i - length xs) JUndef)[i := v]))
     | None \<Rightarrow> Inl Unsupported)"
| "js_set_prop d k v = Inl TypeError"

lemma index_of_key_length: "index_of_key ''length'' = None"
  by (simp add: index_of_key_def is_digit_def)

lemma js_prop_set: "js_set_prop d k v = Inr d' \<Longrightarrow> js_prop d' k = Inr v"
  by (cases d) (auto simp: update_conv' index_of_key_length split: option.splits)

lemma js_prop_set_other:
  "js_set_prop d k v = Inr d' \<Longrightarrow> j \<noteq> k \<Longrightarrow> d = JObj kvs \<Longrightarrow> js_prop d' j = js_prop d j"
  by (auto simp: update_conv')

text \<open>The elements a loop over \<open>data.length\<close> visits.\<close>

definition js_elements :: "jsval \<Rightarrow> jsval list js_res" where
  "js_elements d = (case d of
      JArr xs \<Rightarrow> Inr xs
    | JStr s \<Rightarrow> Inr (map (\<lambda>c. JStr [c]) s)
    | JUndef \<Rightarrow> Inl TypeError
    | JNull \<Rightarrow> Inl TypeError
    | JObj kvs \<Rightarrow> (if map_of kvs ''length'' = None then Inr [] else Inl Unsupported)
    | _ \<Rightarrow> Inr [])"

section \<open>Splitting a source string\<close>

text \<open>
  \<open>/(\\.|[^\.])+/g\<close>: a token is a maximal run of characters other than a period, where a
  backslash takes the next character with it.
\<close>

fun next_token :: "string \<Rightarrow> string \<times> string" where
  "next_token [] = ([], [])"
| "next_token [c] = (if c = CHR ''.'' then ([], [c]) else ([c], []))"
| "next_token (c # d # cs) =
    (if c = CHR 0x5C \<and> \<not> line_end d then (case next_token cs of (t, r) \<Rightarrow> (c # d # t, r))
     else if c = CHR ''.'' then ([], c # d # cs)
     else (case next_token (d # cs) of (t, r) \<Rightarrow> (c # t, r)))"

lemma next_token_length: "next_token s = (t, r) \<Longrightarrow> length t + length r = length s"
  by (induction s arbitrary: t r rule: next_token.induct) (auto split: if_splits prod.splits)

lemma next_token_nonempty: "s \<noteq> [] \<Longrightarrow> hd s \<noteq> CHR ''.'' \<Longrightarrow> fst (next_token s) \<noteq> []"
  by (cases s rule: next_token.cases) (auto split: prod.splits)

function raw_tokens :: "string \<Rightarrow> string list" where
  "raw_tokens s = (case s of
      [] \<Rightarrow> []
    | c # cs \<Rightarrow> if c = CHR ''.'' then raw_tokens cs
        else (case next_token s of (t, r) \<Rightarrow> t # raw_tokens r))"
  by pat_completeness auto
termination
proof (relation "measure length", goal_cases)
  case (3 s c cs t r)
  then have tok: "next_token s = (t, r)" and s: "s \<noteq> []" "hd s \<noteq> CHR ''.''" by simp_all
  from next_token_nonempty [OF s] tok have "0 < length t" by simp
  with next_token_length [OF tok] show ?case unfolding in_measure by linarith
qed auto

declare raw_tokens.simps [simp del]

text \<open>\<open>s.replace('\\.', '.')\<close>: a string pattern replaces the first occurrence only.\<close>

fun unescape_dot :: "string \<Rightarrow> string" where
  "unescape_dot (c # d # cs) = (if c = CHR 0x5C \<and> d = CHR ''.'' then d # cs else c # unescape_dot (d # cs))"
| "unescape_dot s = s"

text \<open>\<open>match\<close> returns \<open>null\<close> when there is no token, and mapping that raises.\<close>

definition splitObjNotation :: "string \<Rightarrow> string list js_res" where
  "splitObjNotation s = (if raw_tokens s = [] then Inl TypeError else Inr (map unescape_dot (raw_tokens s)))"

text \<open>\<open>/\[.*?\]$/\<close>: the text before the first matching bracket, and the text within.\<close>

fun re_array :: "string \<Rightarrow> (string \<times> string) option" where
  "re_array [] = None"
| "re_array (c # cs) =
    (if c = CHR ''['' \<and> cs \<noteq> [] \<and> last cs = CHR '']'' \<and> list_all (\<lambda>x. \<not> line_end x) (butlast cs)
     then Some ([], butlast cs)
     else map_option (\<lambda>(p, j). (c # p, j)) (re_array cs))"

text \<open>\<open>/\(\)$/\<close>: the text before the parentheses.\<close>

definition re_fn :: "string \<Rightarrow> string option" where
  "re_fn s = (if length s \<ge> 2 \<and> drop (length s - 2) s = ''()'' then Some (take (length s - 2) s) else None)"

section \<open>Reading\<close>

text \<open>
  The sources an \<open>mData\<close> or \<open>mRender\<close> option can be.  A function is its behaviour on
  \<open>(data, type, extra)\<close>, and the data after a call with \<open>'set'\<close>.
\<close>

datatype data_src =
    SrcUndef | SrcNull | SrcInt int | SrcStr string
  | SrcFun "jsval \<Rightarrow> string option \<Rightarrow> jsval \<Rightarrow> jsval js_res" "jsval \<Rightarrow> jsval \<Rightarrow> jsval js_res"
  | SrcObj "(string \<times> data_src) list"

text \<open>The loop of \<open>fetchData\<close> over the tokens; \<open>rec\<close> is \<open>fetchData\<close> on a later source.\<close>

fun fetch_loop :: "(string \<Rightarrow> jsval \<Rightarrow> jsval js_res) \<Rightarrow> string list \<Rightarrow> jsval \<Rightarrow> jsval js_res" where
  "fetch_loop rec [] data = Inr data"
| "fetch_loop rec (a # as) data =
    (case re_array a of
       Some (name, join) \<Rightarrow>
         js_bind (if name \<noteq> [] then js_prop data name else Inr data) (\<lambda>d.
         js_bind (js_elements d) (\<lambda>xs.
         js_bind (js_mapM (rec (js_join ''.'' as)) xs) (\<lambda>out.
         Inr (if join = [] then JArr out else JStr (js_array_join join out)))))
     | None \<Rightarrow>
         (case re_fn a of
            Some name \<Rightarrow> Inl TypeError
          | None \<Rightarrow>
              if data = JNull then Inr JUndef
              else js_bind (js_prop data a) (\<lambda>d. if d = JUndef then Inr JUndef else fetch_loop rec as d)))"

fun fetch_data :: "nat \<Rightarrow> string \<Rightarrow> jsval \<Rightarrow> jsval js_res" where
  "fetch_data 0 src data = Inl OutOfFuel"
| "fetch_data (Suc n) src data =
    (if src = [] then Inr data
     else js_bind (splitObjNotation src) (\<lambda>a. fetch_loop (fetch_data n) a data))"

definition nested_src :: "string \<Rightarrow> bool" where
  "nested_src s \<longleftrightarrow> CHR ''.'' \<in> set s \<or> CHR ''['' \<in> set s \<or> CHR ''('' \<in> set s"

definition falsy_src :: "data_src \<Rightarrow> bool" where
  "falsy_src v = (case v of SrcUndef \<Rightarrow> True | SrcNull \<Rightarrow> True | SrcInt i \<Rightarrow> i = 0 | SrcStr s \<Rightarrow> s = [] | _ \<Rightarrow> False)"

text \<open>
  \<open>_fnGetObjectDataFn(mSource)(data, type, extra)\<close>.  In the object case \<open>o\<close> holds the
  functions of the truthy entries, and calling a missing one raises.
\<close>

fun get_data :: "data_src \<Rightarrow> jsval \<Rightarrow> string option \<Rightarrow> jsval \<Rightarrow> jsval js_res"
  and get_entry :: "(string \<times> data_src) list \<Rightarrow> string \<Rightarrow> jsval \<Rightarrow> string option \<Rightarrow> jsval \<Rightarrow> jsval js_res option" where
  "get_data (SrcObj kvs) data ty extra =
    (case get_entry kvs (case ty of None \<Rightarrow> ''undefined'' | Some t \<Rightarrow> t) data ty extra of
       Some r \<Rightarrow> r
     | None \<Rightarrow> (case get_entry kvs ''_'' data ty extra of Some r \<Rightarrow> r | None \<Rightarrow> Inl TypeError))"
| "get_data SrcNull data ty extra = Inr data"
| "get_data (SrcFun f g) data ty extra = f data ty extra"
| "get_data (SrcStr s) data ty extra =
    (if nested_src s then fetch_data (Suc (length s)) s data else js_prop data s)"
| "get_data (SrcInt i) data ty extra = js_prop data (show_int i)"
| "get_data SrcUndef data ty extra = js_prop data ''undefined''"
| "get_entry [] k data ty extra = None"
| "get_entry ((k', v) # r) k data ty extra =
    (if k' = k \<and> \<not> falsy_src v then Some (get_data v data ty extra) else get_entry r k data ty extra)"

section \<open>Writing\<close>

text \<open>
  The loop of \<open>setData\<close>.  A value walked into is written back into its parent, since the
  code changes the nested object in place; a method call raises, as above.
\<close>

fun set_loop :: "(string \<Rightarrow> jsval \<Rightarrow> jsval \<Rightarrow> jsval js_res) \<Rightarrow> string list \<Rightarrow> jsval \<Rightarrow> jsval \<Rightarrow> jsval js_res" where
  "set_loop rec [] data val = Inl TypeError"
| "set_loop rec [a] data val =
    (case re_fn a of
       Some name \<Rightarrow> Inl TypeError
     | None \<Rightarrow> js_set_prop data (case re_array a of None \<Rightarrow> a | Some (name, join) \<Rightarrow> name) val)"
| "set_loop rec (a # b # as) data val =
    (case re_array a of
       Some (name, join) \<Rightarrow>
         js_bind (js_set_prop data name (JArr [])) (\<lambda>_.
         js_bind (js_elements val) (\<lambda>xs.
         js_bind (js_mapM (\<lambda>x. rec (js_join ''.'' (b # as)) (JObj []) x) xs) (\<lambda>out.
         js_set_prop data name (JArr out))))
     | None \<Rightarrow>
         (case re_fn a of
            Some name \<Rightarrow> Inl TypeError
          | None \<Rightarrow>
              js_bind (js_prop data a) (\<lambda>d.
              js_bind (if d = JNull \<or> d = JUndef then js_bind (js_set_prop data a (JObj [])) (\<lambda>_. Inr (JObj []))
                       else Inr d) (\<lambda>d.
              js_bind (set_loop rec (b # as) d val) (\<lambda>d'. js_set_prop data a d')))))"

fun set_nested :: "nat \<Rightarrow> string \<Rightarrow> jsval \<Rightarrow> jsval \<Rightarrow> jsval js_res" where
  "set_nested 0 src data val = Inl OutOfFuel"
| "set_nested (Suc n) src data val = js_bind (splitObjNotation src) (\<lambda>a. set_loop (set_nested n) a data val)"

text \<open>\<open>_fnSetObjectDataFn(mSource)(data, val)\<close>, returning the data after the call.\<close>

fun set_data :: "data_src \<Rightarrow> jsval \<Rightarrow> jsval \<Rightarrow> jsval js_res"
  and set_entry :: "(string \<times> data_src) list \<Rightarrow> jsval \<Rightarrow> jsval \<Rightarrow> jsval js_res" where
  "set_data (SrcObj kvs) data val = set_entry kvs data val"
| "set_data SrcNull data val = Inr data"
| "set_data (SrcFun f g) data val = g data val"
| "set_data (SrcStr s) data val =
    (if nested_src s then set_nested (Suc (length s)) s data val else js_set_prop data s val)"
| "set_data (SrcInt i) data val = js_set_prop data (show_int i) val"
| "set_data SrcUndef data val = js_set_prop data ''undefined'' val"
| "set_entry [] data val = js_set_prop data ''undefined'' val"
| "set_entry ((k, v) # r) data val = (if k = ''_'' then set_data v data val else set_entry r data val)"

section \<open>Enough fuel\<close>

lemma unescape_length: "length (unescape_dot s) \<le> length s"
  by (induction s rule: unescape_dot.induct) auto

lemma js_join_length: "length (js_join sep xs) = sum_list (map length xs) + (length xs - 1) * length sep"
  by (induction sep xs rule: js_join.induct) auto

lemma raw_tokens_eqs [simp]:
  "raw_tokens [] = []"
  "raw_tokens (CHR ''.'' # cs) = raw_tokens cs"
  "c \<noteq> CHR ''.'' \<Longrightarrow> raw_tokens (c # cs) = fst (next_token (c # cs)) # raw_tokens (snd (next_token (c # cs)))"
  by (subst raw_tokens.simps, simp split: prod.splits)+

lemma next_token_rest: "snd (next_token s) \<noteq> [] \<Longrightarrow> hd (snd (next_token s)) = CHR ''.''"
  by (induction s rule: next_token.induct) (auto split: if_splits prod.splits)

lemma raw_tokens_length:
  "raw_tokens s \<noteq> [] \<Longrightarrow> sum_list (map length (raw_tokens s)) + length (raw_tokens s) \<le>
    length s + (if hd s = CHR ''.'' then 0 else 1)"
proof (induction s rule: length_induct)
  case (1 s)
  then obtain c cs where s: "s = c # cs" by (cases s) auto
  show ?case
  proof (cases "c = CHR ''.''")
    case True
    with 1 s show ?thesis by (fastforce split: if_splits)
  next
    case False
    obtain t r where tok: "next_token s = (t, r)" by fastforce
    have len: "length t + length r = length s" by (rule next_token_length [OF tok])
    have t: "t \<noteq> []" using next_token_nonempty [of s] s False tok by simp
    have eq: "raw_tokens s = t # raw_tokens r" using s False tok by simp
    show ?thesis
    proof (cases "raw_tokens r = []")
      case True
      with eq len s False show ?thesis by simp
    next
      case nonempty: False
      then have "r \<noteq> []" by auto
      with next_token_rest [of s] tok have "hd r = CHR ''.''" by simp
      moreover have "length r < length s" using len t by (cases t) auto
      ultimately have "sum_list (map length (raw_tokens r)) + length (raw_tokens r) \<le> length r"
        using 1(1) nonempty by fastforce
      with eq len s False show ?thesis by simp
    qed
  qed
qed

lemma tokens_join_length:
  assumes "splitObjNotation s = Inr (pre @ a # as)"
  shows "length (js_join ''.'' as) < length s"
proof -
  let ?ts = "raw_tokens s"
  from assms have ts: "?ts \<noteq> []" "map unescape_dot ?ts = pre @ a # as"
    by (auto simp: splitObjNotation_def split: if_splits)
  have "sum_list (map length (map unescape_dot ?ts)) \<le> sum_list (map length ?ts)"
    by (simp add: o_def sum_list_mono unescape_length)
  moreover have "length ?ts = length (pre @ a # as)" using ts(2) by (metis length_map)
  ultimately have "sum_list (map length (pre @ a # as)) + length (pre @ a # as) \<le> Suc (length s)"
    using raw_tokens_length [OF ts(1)] ts(2) by (simp split: if_splits)
  moreover have "s \<noteq> []" using ts(1) by auto
  ultimately show ?thesis
    by (cases as) (auto simp: js_join_length)
qed

lemma fetch_loop_fuel:
  assumes "\<And>pre a as d. ts = pre @ a # as \<Longrightarrow> rec (js_join ''.'' as) d \<noteq> Inl OutOfFuel"
  shows "fetch_loop rec ts d \<noteq> Inl OutOfFuel"
  using assms
proof (induction ts arbitrary: d)
  case (Cons t ts)
  have later: "rec (js_join ''.'' bs) d \<noteq> Inl OutOfFuel" if "ts = pre @ a # bs" for pre a bs d
    using Cons.prems [of "t # pre" a bs] that by simp
  have mapM: "js_mapM (rec (js_join ''.'' ts)) xs \<noteq> Inl OutOfFuel" for xs
    using Cons.prems [of "[]" t ts] by (induction xs) (auto simp: js_bind_def split: sum.splits)
  have el: "js_elements d \<noteq> Inl OutOfFuel" for d by (cases d) (auto simp: js_elements_def)
  have pr: "js_prop d k \<noteq> Inl OutOfFuel" for d k by (cases d) (auto split: option.splits)
  show ?case
    using Cons.IH [OF later] mapM el pr
    by (auto simp: js_bind_def split: sum.splits option.splits if_splits)
qed simp

lemma fetch_data_fuel: "length src < n \<Longrightarrow> fetch_data n src d \<noteq> Inl OutOfFuel"
proof (induction n arbitrary: src d)
  case (Suc n)
  have rec: "fetch_data n (js_join ''.'' bs) d \<noteq> Inl OutOfFuel"
    if "splitObjNotation src = Inr (pre @ a # bs)" for pre a bs d
    using Suc.IH tokens_join_length [OF that] Suc.prems by simp
  have "fetch_loop (fetch_data n) ts d \<noteq> Inl OutOfFuel" if "splitObjNotation src = Inr ts" for ts
    using fetch_loop_fuel [of ts "fetch_data n" d] rec that by blast
  moreover have "splitObjNotation src \<noteq> Inl OutOfFuel" by (simp add: splitObjNotation_def)
  ultimately show ?case by (auto simp: js_bind_def split: sum.splits)
qed simp

section \<open>Reading back what was written\<close>

definition plain_token :: "string \<Rightarrow> bool" where
  "plain_token a \<longleftrightarrow> re_array a = None \<and> re_fn a = None"

text \<open>Sources that name one value: an index, a name, or a dotted path without brackets and calls.\<close>

definition plain_src :: "data_src \<Rightarrow> bool" where
  "plain_src src = (case src of
      SrcInt i \<Rightarrow> True
    | SrcStr s \<Rightarrow> nested_src s \<longrightarrow> raw_tokens s \<noteq> [] \<and> list_all plain_token (map unescape_dot (raw_tokens s))
    | _ \<Rightarrow> False)"

text \<open>The names a plain source walks along.\<close>

definition src_path :: "data_src \<Rightarrow> string list" where
  "src_path src = (case src of
      SrcInt i \<Rightarrow> [show_int i]
    | SrcStr s \<Rightarrow> if nested_src s then map unescape_dot (raw_tokens s) else [s]
    | _ \<Rightarrow> [])"

text \<open>What is found in a value along a path: undefined where the path ends early.\<close>

fun walk :: "string list \<Rightarrow> jsval \<Rightarrow> jsval" where
  "walk [] d = d"
| "walk (k # ks) d = (case js_prop d k of Inr v \<Rightarrow> walk ks v | Inl e \<Rightarrow> JUndef)"

text \<open>Two paths that part: each has a name of its own where they differ.\<close>

fun parted :: "string list \<Rightarrow> string list \<Rightarrow> bool" where
  "parted (k # ks) (l # ls) \<longleftrightarrow> k \<noteq> l \<or> parted ks ls"
| "parted ks ls \<longleftrightarrow> False"

lemma set_prop_not_null: "js_set_prop d k v = Inr d' \<Longrightarrow> d' \<noteq> JNull \<and> d' \<noteq> JUndef"
  by (cases d) (auto split: option.splits)

lemma set_loop_not_null: "set_loop rec ts d v = Inr d' \<Longrightarrow> d' \<noteq> JNull \<and> d' \<noteq> JUndef"
  by (cases "(rec, ts, d, v)" rule: set_loop.cases)
    (auto simp: js_bind_Inr_iff split: option.splits dest: set_prop_not_null)

lemma set_loop_plain:
  assumes "plain_token a" "set_loop rec (a # b # bs) data val = Inr d'"
  obtains e d2 where "set_loop rec (b # bs) e val = Inr d2" "js_set_prop data a d2 = Inr d'"
  using assms by (auto simp: plain_token_def js_bind_Inr_iff)

lemma set_fetch_loop:
  "set_loop rec ts d v = Inr d' \<Longrightarrow> list_all plain_token ts \<Longrightarrow> fetch_loop rec' ts d' = Inr v"
proof (induction ts arbitrary: d d')
  case (Cons a ts)
  show ?case
  proof (cases ts)
    case Nil
    with Cons.prems show ?thesis using js_prop_set [of d a v d'] set_prop_not_null [of d a v d']
      by (auto simp: plain_token_def)
  next
    case (Cons b bs)
    with \<open>list_all plain_token (a # ts)\<close> have a: "plain_token a" and bs: "list_all plain_token ts" by simp_all
    from a Cons.prems(1) Cons obtain e d2 where loop: "set_loop rec (b # bs) e v = Inr d2" and d': "js_set_prop d a d2 = Inr d'"
      by (metis set_loop_plain)
    have "fetch_loop rec' ts d2 = Inr v" using Cons.IH [OF _ bs] loop Cons by simp
    with js_prop_set [OF d'] set_prop_not_null [OF d'] set_loop_not_null [OF loop] a show ?thesis
      by (simp add: plain_token_def)
  qed
qed simp

text \<open>A write to a property changes no other one; the length of an array is no property here.\<close>

lemma index_of_key_inj: "index_of_key k = Some i \<Longrightarrow> index_of_key l = Some i \<Longrightarrow> k = l"
  by (metis index_of_key_def option.distinct(1) option.inject)

lemma set_prop_frame:
  assumes "js_set_prop d a x = Inr d'" "k \<noteq> a" "k \<noteq> ''length''"
  shows "js_prop d' k = js_prop d k"
proof (cases d)
  case (JArr xs)
  with assms(1) obtain i where i: "index_of_key a = Some i" "d' = JArr ((xs @ replicate (Suc i - length xs) JUndef)[i := x])"
    by (auto split: option.splits)
  have "j \<noteq> i" if "index_of_key k = Some j" for j using index_of_key_inj that i(1) assms(2) by blast
  then show ?thesis using assms(3) by (auto simp: JArr i(2) nth_append split: option.split)
qed (use assms in \<open>auto simp: update_conv'\<close>)

lemma walk_undefined: "walk ks JUndef = JUndef"
  by (cases ks) auto

lemma walk_empty: "walk (k # ks) (JObj []) = JUndef"
  by (simp add: walk_undefined)

lemma set_loop_frame:
  assumes "set_loop rec ts d v = Inr d'" "list_all plain_token ts" "parted ks ts" "''length'' \<notin> set ks"
  shows "walk ks d' = walk ks d"
  using assms
proof (induction ts arbitrary: ks d d')
  case (Cons a as)
  then obtain k ks' where ks: "ks = k # ks'" by (cases ks) auto
  have a: "re_array a = None" "re_fn a = None" using Cons.prems(2) by (simp_all add: plain_token_def)
  have len: "k \<noteq> ''length''" using Cons.prems(4) ks by (metis list.set_intros(1))
  show ?case
  proof (cases as)
    case Nil
    with Cons.prems(1,3) a ks have "js_set_prop d a v = Inr d'" "k \<noteq> a" by (simp_all add: a)
    from set_prop_frame [OF this len] show ?thesis by (simp add: ks)
  next
    case as: (Cons b bs)
    from Cons.prems(1) a as obtain c where c: "js_prop d a = Inr c" by (auto simp: js_bind_Inr_iff)
    with Cons.prems(1) a as obtain d2 where loop: "set_loop rec as (if c = JNull \<or> c = JUndef then JObj [] else c) v = Inr d2"
      and d': "js_set_prop d a d2 = Inr d'"
      by (cases "c = JNull \<or> c = JUndef") (auto simp: js_bind_Inr_iff)
    show ?thesis
    proof (cases "k = a")
      case True
      with Cons.prems(3) ks have part: "parted ks' as" by simp
      then obtain l ls where l: "ks' = l # ls" by (cases ks') auto
      have "walk ks' d2 = walk ks' (if c = JNull \<or> c = JUndef then JObj [] else c)"
        by (rule Cons.IH [OF loop _ part]) (use Cons.prems(2,4) ks in auto)
      also have "\<dots> = walk ks' c" using l walk_empty [of l ls] by (auto simp: walk_undefined)
      finally show ?thesis using js_prop_set [OF d'] c by (simp add: ks True)
    qed (use set_prop_frame [OF d' _ len] ks in simp)
  qed
qed simp

lemma set_loop_empty: "ts \<noteq> [] \<Longrightarrow> list_all plain_token ts \<Longrightarrow> \<exists>d'. set_loop rec ts (JObj []) v = Inr d'"
proof (induction ts)
  case (Cons a ts)
  then show ?case by (cases ts) (auto simp: plain_token_def)
qed simp

section \<open>Properties\<close>

text \<open>C23: for every source that names one value (an index, a name, a dotted path without brackets and calls),
  reading through \<open>_fnGetObjectDataFn\<close> after a successful write through \<open>_fnSetObjectDataFn\<close> gives
  the value written, for every request type.  Whatever else the data held stays: along every path that parts from
  the source's, at any depth, through objects and arrays, the same is found as before (the length of an array, which a write
  may extend, apart).  And a write into an empty object always succeeds, creating the objects on the way.\<close>

theorem source_set_get:
  assumes "plain_src src" "set_data src d v = Inr d'"
  shows "get_data src d' ty extra = Inr v \<and>
    (\<forall>ks. parted ks (src_path src) \<and> ''length'' \<notin> set ks \<longrightarrow> walk ks d' = walk ks d) \<and>
    (\<exists>d0. set_data src (JObj []) v = Inr d0)"
proof -
  have simple: "?thesis" if h: "js_set_prop d a v = Inr d'" "src_path src = [a]" "get_data src d' ty extra = js_prop d' a"
    "\<exists>d0. set_data src (JObj []) v = Inr d0" for a
  proof (intro conjI allI impI)
    show "get_data src d' ty extra = Inr v" using h(1,3) by (simp add: js_prop_set)
    fix ks assume ks: "parted ks (src_path src) \<and> ''length'' \<notin> set ks"
    then obtain k ks' where k: "ks = k # ks'" "k \<noteq> a" using h(2) by (cases ks) auto
    with ks have "k \<noteq> ''length''" by (metis list.set_intros(1))
    with set_prop_frame [OF h(1)] k show "walk ks d' = walk ks d" by simp
  qed (rule h(4))
  show ?thesis
  proof (cases src)
    case (SrcInt i)
    with assms show ?thesis by (intro simple [of "show_int i"]) (auto simp: src_path_def)
  next
    case (SrcStr s)
    show ?thesis
    proof (cases "nested_src s")
      case False
      with SrcStr assms show ?thesis by (intro simple [of s]) (auto simp: src_path_def)
    next
      case True
      let ?ts = "map unescape_dot (raw_tokens s)"
      from True SrcStr assms(1) have ts: "raw_tokens s \<noteq> []" "list_all plain_token ?ts" by (auto simp: plain_src_def)
      then have s: "s \<noteq> []" "splitObjNotation s = Inr ?ts" by (auto simp: splitObjNotation_def)
      from assms(2) True SrcStr s have loop: "set_loop (set_nested (length s)) ?ts d v = Inr d'" by simp
      have path: "src_path src = ?ts" using SrcStr True by (simp add: src_path_def)
      have "get_data src d' ty extra = Inr v" using set_fetch_loop [OF loop ts(2)] True SrcStr s by simp
      moreover have "\<exists>d0. set_data src (JObj []) v = Inr d0" using set_loop_empty [OF _ ts(2)] ts(1) True SrcStr s by simp
      ultimately show ?thesis using set_loop_frame [OF loop ts(2)] path by auto
    qed
  qed (use assms in \<open>simp_all add: plain_src_def\<close>)
qed

theorem source_set_get_witness:
  "walk [''a'', ''c''] (JObj [(''a'', JObj [(''c'', JNull), (''b'', JBool True)])]) = JNull \<and>
   get_data (SrcStr ''a.b'') (JObj [(''a'', JObj [(''c'', JNull), (''b'', JBool True)])]) None JNull = Inr (JBool True)"
proof -
  have plain: "plain_src (SrcStr ''a.b'')"
    by (simp add: plain_src_def plain_token_def re_fn_def)
  have set: "set_data (SrcStr ''a.b'') (JObj [(''a'', JObj [(''c'', JNull)])]) (JBool True) =
      Inr (JObj [(''a'', JObj [(''c'', JNull), (''b'', JBool True)])])"
    by (simp add: nested_src_def splitObjNotation_def re_fn_def)
  have "parted [''a'', ''c''] (src_path (SrcStr ''a.b''))"
    by (simp add: src_path_def nested_src_def)
  with source_set_get [OF plain set] show ?thesis by auto
qed

end
