(* ===== verification/DT_Options.thy ===== *)
theory DT_Options
  imports DT_Objects
begin

text \<open>
  Option objects of the table engine (public/js/plugins/dataTables/jquery.dataTables.js, lines
  266 to 420 and 4699 to 4764): the camel case to Hungarian mapping, the compatibility maps,
  and object extension.  An object is the list of its own properties in insertion order; the
  loops visit the properties present when they start.
\<close>

type_synonym js_object = "(string \<times> jsval) list"

text \<open>\<open>o[k]\<close>, with \<^const>\<open>JUndef\<close> for a missing property.\<close>

definition opt_get :: "js_object \<Rightarrow> string \<Rightarrow> jsval" where
  "opt_get o' k = (case map_of o' k of None \<Rightarrow> JUndef | Some v \<Rightarrow> v)"

lemma opt_get_update [simp]: "opt_get (AList.update k v o') j = (if j = k then v else opt_get o' j)"
  by (simp add: opt_get_def update_conv')

section \<open>Mapping single properties\<close>

definition dt_fnMap :: "js_object \<Rightarrow> js_object \<Rightarrow> string \<Rightarrow> string option \<Rightarrow> js_object" where
  "dt_fnMap ret src name mapped =
    (let m = (case mapped of None \<Rightarrow> name | Some x \<Rightarrow> x)
     in if opt_get src name \<noteq> JUndef then AList.update m (opt_get src name) ret else ret)"

text \<open>The array form of \<open>_fnMap\<close>: names, or pairs of a name and its mapped name.\<close>

fun dt_fnMaps :: "js_object \<Rightarrow> js_object \<Rightarrow> (string \<times> string option) list \<Rightarrow> js_object" where
  "dt_fnMaps ret src [] = ret"
| "dt_fnMaps ret src ((n, m) # r) = dt_fnMaps (dt_fnMap ret src n m) src r"

definition compatMap :: "js_object \<Rightarrow> string \<Rightarrow> string \<Rightarrow> js_object" where
  "compatMap o' knew old = (if opt_get o' knew \<noteq> JUndef then AList.update old (opt_get o' knew) o' else o')"

definition compatOpts :: "js_object \<Rightarrow> js_object" where
  "compatOpts init = fold (\<lambda>(knew, old) o'. compatMap o' knew old)
    [(''ordering'', ''bSort''), (''orderMulti'', ''bSortMulti''), (''orderClasses'', ''bSortClasses''),
     (''orderCellsTop'', ''bSortCellsTop''), (''order'', ''aaSorting''), (''orderFixed'', ''aaSortingFixed''),
     (''paging'', ''bPaginate''), (''pagingType'', ''sPaginationType''), (''pageLength'', ''iDisplayLength''),
     (''searching'', ''bFilter'')] init"

definition compatCols :: "js_object \<Rightarrow> js_object" where
  "compatCols init = fold (\<lambda>(knew, old) o'. compatMap o' knew old)
    [(''orderable'', ''bSortable''), (''orderData'', ''aDataSort''), (''orderSequence'', ''asSorting''),
     (''orderDataType'', ''sortDataType'')] init"

text \<open>\<open>_fnLanguageCompat\<close>, with the default language object.\<close>

definition languageCompat :: "js_object \<Rightarrow> js_object \<Rightarrow> js_object" where
  "languageCompat defaults lang =
    (let zero = opt_get lang ''sZeroRecords'';
         l1 = (if js_not (opt_get lang ''sEmptyTable'') \<and> \<not> js_not zero \<and>
                  opt_get defaults ''sEmptyTable'' = JStr ''No data available in table''
               then dt_fnMap lang lang ''sZeroRecords'' (Some ''sEmptyTable'') else lang)
     in if js_not (opt_get l1 ''sLoadingRecords'') \<and> \<not> js_not zero \<and>
           opt_get defaults ''sLoadingRecords'' = JStr ''Loading...''
        then dt_fnMap l1 l1 ''sZeroRecords'' (Some ''sLoadingRecords'') else l1)"

section \<open>Hungarian names\<close>

definition is_upper :: "char \<Rightarrow> bool" where
  "is_upper c \<longleftrightarrow> 65 \<le> (of_char c :: nat) \<and> (of_char c :: nat) \<le> 90"

fun js_contains :: "string \<Rightarrow> string \<Rightarrow> bool" where
  "js_contains p [] = (p = [])"
| "js_contains p (c # cs) = (take (length p) (c # cs) = p \<or> js_contains p cs)"

text \<open>\<open>key.match(/^([^A-Z]+?)([A-Z])/)\<close> and the renamed key, when the prefix is a known one.\<close>

definition hungarian_key :: "string \<Rightarrow> (string \<times> string) option" where
  "hungarian_key key =
    (let p = takeWhile (\<lambda>c. \<not> is_upper c) key; r = dropWhile (\<lambda>c. \<not> is_upper c) key
     in case r of
          [] \<Rightarrow> None
        | u # rest \<Rightarrow> if p \<noteq> [] \<and> js_contains (p @ '' '') ''a aa ao as b fn i m o s ''
            then Some (p, to_lower u # rest) else None)"

text \<open>
  \<open>_fnHungarianMap\<close>: the map of one object.  It also builds the maps of the objects under
  keys with prefix \<open>o\<close>, which raises when such a value is no object.
\<close>

fun hungarian_map :: "jsval \<Rightarrow> js_object js_res"
  and hungarian_entries :: "(string \<times> jsval) list \<Rightarrow> js_object js_res" where
  "hungarian_map (JObj kvs) = hungarian_entries kvs"
| "hungarian_map (JArr xs) = (if xs = [] then Inr [] else Inl TypeError)"
| "hungarian_map v = Inl TypeError"
| "hungarian_entries [] = Inr []"
| "hungarian_entries ((key, val) # r) =
    (case hungarian_key key of
       None \<Rightarrow> hungarian_entries r
     | Some (p, newKey) \<Rightarrow>
         js_bind (if p = ''o'' then hungarian_map val else Inr []) (\<lambda>_.
         js_bind (hungarian_entries r) (\<lambda>m.
         Inr (if map_of m newKey = None then (newKey, JStr key) # m else m))))"

lemma jsval_member_size: "map_of kvs k = Some v \<Longrightarrow> size v < size (JObj kvs)"
  by (induction kvs) (auto split: if_splits)

lemma js_foldM_cong [fundef_cong]:
  "xs = ys \<Longrightarrow> s = t \<Longrightarrow> (\<And>x s. x \<in> set ys \<Longrightarrow> f x s = g x s) \<Longrightarrow> js_foldM f xs s = js_foldM g ys t"
  by (induction xs arbitrary: ys s t) (auto simp: js_bind_def split: sum.splits)

text \<open>
  \<open>_fnCamelToHungarian(src, user, force)\<close>; the nested call is made without \<open>force\<close> and
  changes the object that both names refer to.  A user value that is no object has no keys
  the map knows.
\<close>

function camelToHungarian :: "jsval \<Rightarrow> bool \<Rightarrow> jsval \<Rightarrow> jsval js_res" where
  "camelToHungarian src force user =
    js_bind (hungarian_map src) (\<lambda>m.
      case user of
        JUndef \<Rightarrow> Inl TypeError
      | JNull \<Rightarrow> Inl TypeError
      | JObj kvs \<Rightarrow>
          js_bind (js_foldM (\<lambda>key u.
              case map_of m key of
                Some (JStr hk) \<Rightarrow>
                  if force \<or> opt_get u hk = JUndef then
                    (let u1 = AList.update hk (opt_get u key) u
                     in if hk \<noteq> [] \<and> hd hk = CHR ''o'' then
                          (case src of
                             JObj skvs \<Rightarrow>
                               (case map_of skvs hk of
                                  Some sv \<Rightarrow> js_bind (camelToHungarian sv False (opt_get u key))
                                    (\<lambda>n. Inr (AList.update key n (AList.update hk n u1)))
                                | None \<Rightarrow> Inl TypeError)
                           | _ \<Rightarrow> Inl TypeError)
                        else Inr u1)
                  else Inr u
              | _ \<Rightarrow> Inr u) (map fst kvs) kvs) (\<lambda>kvs'. Inr (JObj kvs'))
      | v \<Rightarrow> Inr v)"
  by pat_completeness auto
termination
  by (relation "measure (\<lambda>(src, force, user). size src)") (auto dest: jsval_member_size)

section \<open>Extending objects\<close>

text \<open>jQuery's deep \<open>$.extend(true, target, options)\<close> on plain objects and arrays.\<close>

fun deep_val :: "jsval option \<Rightarrow> jsval \<Rightarrow> jsval"
  and deep_obj :: "js_object \<Rightarrow> js_object \<Rightarrow> js_object"
  and deep_arr :: "jsval list \<Rightarrow> jsval list \<Rightarrow> jsval list" where
  "deep_val src (JObj kvs) = JObj (deep_obj (case src of Some (JObj t) \<Rightarrow> t | _ \<Rightarrow> []) kvs)"
| "deep_val src (JArr ys) = JArr (deep_arr (case src of Some (JArr xs) \<Rightarrow> xs | _ \<Rightarrow> []) ys)"
| "deep_val src v = v"
| "deep_obj t [] = t"
| "deep_obj t ((k, v) # r) = deep_obj (if v = JUndef then t else AList.update k (deep_val (map_of t k) v) t) r"
| "deep_arr xs [] = xs"
| "deep_arr [] (y # ys) = deep_val None y # deep_arr [] ys"
| "deep_arr (x # xs) (y # ys) = (if y = JUndef then x else deep_val (Some x) y) # deep_arr xs ys"

text \<open>\<open>_fnExtend\<close>; slicing arrays (\<open>breakRefs\<close>) copies references only.\<close>

fun dt_extend :: "js_object \<Rightarrow> js_object \<Rightarrow> js_object" where
  "dt_extend out [] = out"
| "dt_extend out ((k, v) # r) =
    dt_extend (AList.update k (case v of
        JObj kvs \<Rightarrow> JObj (deep_obj (case map_of out k of Some (JObj t) \<Rightarrow> t | _ \<Rightarrow> []) kvs)
      | _ \<Rightarrow> v) out) r"

end
