(* ===== verification/DT_Table.thy ===== *)
theory DT_Table
  imports DT_Options
begin

text \<open>
  The state of a table (\<open>DataTable.models.oSettings\<close>, \<open>oColumn\<close>, \<open>oRow\<close>, \<open>oSearch\<close> of
  public/js/plugins/dataTables/jquery.dataTables.js) and its columns: \<open>_fnAddColumn\<close>,
  \<open>_fnColumnOptions\<close>, the visible/data index conversions, \<open>_fnColumnTypes\<close> and
  \<open>_fnApplyColumnDefs\<close>, with the cell access \<open>_fnGetCellData\<close> they share.

  A DOM row is kept as its id, its classes and the contents and attributes of its cells.  The warning
  that an unknown parameter was read (\<open>_fnLog\<close>, \<open>iDrawError\<close>) is not modelled.
\<close>

section \<open>State\<close>

record search =
  se_sSearch :: string
  se_bRegex :: "bool option"              \<comment> \<open>\<^const>\<open>None\<close> is undefined\<close>
  se_bSmart :: "bool option"
  se_bCaseInsensitive :: "bool option"

record th_node =
  th_html :: string
  th_classes :: "string list"

record dt_column =
  co_sType :: "string option"
  co_sManualType :: "string option"
  co_bVisible :: bool
  co_bSearchable :: bool
  co_bSortable :: bool
  co_asSorting :: "string list"
  co_aDataSort :: "nat list"
  co_mData :: data_src
  co_mRender :: data_src                  \<comment> \<open>falsy when there is none\<close>
  co_sDefaultContent :: jsval
  co_sSortDataType :: string
  co_sTitle :: string
  co_sName :: string
  co_sClass :: string
  co_sWidth :: "string option"
  co_sWidthOrig :: "string option"
  co_sSortingClass :: string
  co_sSortingClassJUI :: string
  co_bAttrSrc :: bool
  co_nTh :: th_node

datatype row_src = FromDom | FromData

text \<open>A cell element: its contents and its attributes.\<close>

record td =
  td_html :: string
  td_attrs :: "(string \<times> string) list"

record dt_row =
  ro_data :: jsval
  ro_sort :: "(nat \<times> sort_key) list option"    \<comment> \<open>\<open>_aSortData\<close>, by column\<close>
  ro_filter :: "jsval list option"              \<comment> \<open>\<open>_aFilterData\<close>\<close>
  ro_filterRow :: string                        \<comment> \<open>\<open>_sFilterRow\<close>\<close>
  ro_cells :: "td list option"                  \<comment> \<open>\<open>anCells\<close>; \<^const>\<open>None\<close> while \<open>nTr\<close> is null\<close>
  ro_stripe :: string                           \<comment> \<open>\<open>_sRowStripe\<close>\<close>
  ro_trId :: string                             \<comment> \<open>id and classes of \<open>nTr\<close>\<close>
  ro_trClasses :: "string list"
  ro_rowc :: "string list option"               \<comment> \<open>\<open>__rowc\<close>\<close>
  ro_src :: row_src

text \<open>An entry of \<open>aaSorting\<close>: column, direction, the third element, and the hidden \<open>_idx\<close>.\<close>

record sort_entry =
  so_col :: nat
  so_dir :: "string option"
  so_index :: "nat option"
  so_idx :: "nat option"

text \<open>\<open>aaSortingFixed\<close>: nothing, an array, or an object with optional arrays.\<close>

datatype fixed_sort = NoFixed | FixedArray "sort_entry list"
  | FixedObj "sort_entry list option" "sort_entry list option"

record flat_sort =
  fs_src :: nat
  fs_col :: nat
  fs_dir :: "string option"
  fs_index :: "nat option"
  fs_type :: string

datatype tbody = Rows "nat list" | EmptyMessage string

record settings =
  st_columns :: "dt_column list"
  st_data :: "dt_row list"
  st_display :: "nat list"                 \<comment> \<open>\<open>aiDisplay\<close>\<close>
  st_master :: "nat list"                  \<comment> \<open>\<open>aiDisplayMaster\<close>\<close>
  st_sorting :: "sort_entry list"
  st_fixed :: fixed_sort
  st_lastSort :: "flat_sort list"
  st_search :: search                      \<comment> \<open>\<open>oPreviousSearch\<close>\<close>
  st_colSearch :: "search option list"     \<comment> \<open>\<open>aoPreSearchCols\<close>\<close>
  st_start :: int                          \<comment> \<open>\<open>_iDisplayStart\<close>\<close>
  st_length :: int                         \<comment> \<open>\<open>_iDisplayLength\<close>\<close>
  st_initStart :: "int option"             \<comment> \<open>\<open>iInitDisplayStart\<close>\<close>
  st_recordsTotal :: int
  st_recordsDisplay :: int
  st_bSort :: bool
  st_bSortMulti :: bool
  st_bFilter :: bool
  st_bPaginate :: bool
  st_bServerSide :: bool
  st_bDeferRender :: bool
  st_ajax :: bool                          \<comment> \<open>an Ajax source is configured\<close>
  st_legacyAjax :: bool                    \<comment> \<open>\<open>sAjaxSource || DataTable.ext.legacy.ajax\<close>\<close>
  st_dataSrc :: data_src                   \<comment> \<open>\<open>ajax.dataSrc\<close> or \<open>sAjaxDataProp\<close>\<close>
  st_bSorted :: bool
  st_bFiltered :: bool
  st_bDrawing :: bool
  st_bDeferLoading :: bool
  st_ajaxDataGet :: bool                   \<comment> \<open>\<open>bAjaxDataGet\<close>: the next draw asks the server\<close>
  st_iDraw :: nat
  st_stripes :: "string list"
  st_tbody :: tbody
  st_sZeroRecords :: string
  st_sLoadingRecords :: string
  st_sEmptyTable :: string

text \<open>
  What the table engine calls outside itself: \<open>Date.parse\<close>, the custom search functions
  (\<open>DataTable.ext.search\<close>), the pre-draw callbacks, the custom sort data sources (\<open>DataTable.ext.order\<close>),
  decoding HTML entities through an element's text, and the array sort of the platform.
\<close>

record dt_env =
  en_date_parse :: "jsval \<Rightarrow> dbl"
  en_search :: "(settings \<Rightarrow> jsval list \<Rightarrow> nat \<Rightarrow> bool) list"
  en_order :: "string \<Rightarrow> (settings \<Rightarrow> nat \<Rightarrow> int option \<Rightarrow> jsval list) option"
  en_decode :: "string \<Rightarrow> string"
  en_sort :: "(nat \<Rightarrow> nat \<Rightarrow> int) \<Rightarrow> nat list \<Rightarrow> nat list"
  en_preDraw :: "(settings \<Rightarrow> bool option) list"

datatype data_source = SSP | Ajax | Dom

text \<open>\<open>_fnDataSource\<close>\<close>

definition dataSource :: "settings \<Rightarrow> data_source" where
  "dataSource s = (if st_bServerSide s then SSP else if st_ajax s then Ajax else Dom)"

section \<open>Cells\<close>

text \<open>\<open>oCol.fnGetData\<close>\<close>

definition col_get :: "dt_column \<Rightarrow> jsval \<Rightarrow> string option \<Rightarrow> jsval js_res" where
  "col_get c d ty =
    js_bind (get_data (co_mData c) d ty JUndef) (\<lambda>inner.
      if \<not> falsy_src (co_mRender c) \<and> ty \<noteq> None \<and> ty \<noteq> Some ''''
      then get_data (co_mRender c) inner ty d else Inr inner)"

text \<open>
  \<open>a === b\<close>: arrays and objects are compared as values, which agrees with identity unless a
  source function returns a copy of the whole row.
\<close>

definition strict_eq :: "jsval \<Rightarrow> jsval \<Rightarrow> bool" where
  "strict_eq a b \<longleftrightarrow> a = b \<and> a \<noteq> JNum DNaN"

text \<open>\<open>_fnGetCellData\<close>\<close>

definition cell_data :: "settings \<Rightarrow> nat \<Rightarrow> nat \<Rightarrow> string option \<Rightarrow> jsval js_res" where
  "cell_data s row col ty =
    (if row < length (st_data s) \<and> col < length (st_columns s) then
       (let c = st_columns s ! col; d = ro_data (st_data s ! row)
        in js_bind (col_get c d ty) (\<lambda>v.
             if v = JUndef then Inr (co_sDefaultContent c)
             else (let w = (if (strict_eq v d \<or> v = JNull) \<and> co_sDefaultContent c \<noteq> JNull
                            then co_sDefaultContent c else v)
                   in Inr (if w = JNull \<and> ty = Some ''display'' then JStr '''' else w))))
     else Inl TypeError)"

text \<open>\<open>_fnSetCellData\<close>\<close>

definition set_cell_data :: "settings \<Rightarrow> nat \<Rightarrow> nat \<Rightarrow> jsval \<Rightarrow> settings js_res" where
  "set_cell_data s row col v =
    (if row < length (st_data s) \<and> col < length (st_columns s) then
       js_bind (set_data (co_mData (st_columns s ! col)) (ro_data (st_data s ! row)) v) (\<lambda>d.
         Inr (s\<lparr>st_data := (st_data s)[row := (st_data s ! row)\<lparr>ro_data := d\<rparr>]\<rparr>))
     else Inl TypeError)"

text \<open>\<open>_fnGetRowData\<close>\<close>

definition row_data :: "settings \<Rightarrow> nat \<Rightarrow> string option \<Rightarrow> nat list \<Rightarrow> jsval list js_res" where
  "row_data s row ty cols = js_mapM (\<lambda>c. cell_data s row c ty) cols"

section \<open>Column indexes\<close>

text \<open>\<open>_fnGetColumns\<close>\<close>

definition get_columns :: "settings \<Rightarrow> (dt_column \<Rightarrow> bool) \<Rightarrow> nat list" where
  "get_columns s p = filter (\<lambda>i. p (st_columns s ! i)) [0..<length (st_columns s)]"

definition visibleToColumnIndex :: "settings \<Rightarrow> int \<Rightarrow> nat option" where
  "visibleToColumnIndex s m = js_nth (get_columns s co_bVisible) m"

definition columnIndexToVisible :: "settings \<Rightarrow> nat \<Rightarrow> int option" where
  "columnIndexToVisible s m =
    (let p = js_indexOf (get_columns s co_bVisible) m in if p \<noteq> -1 then Some p else None)"

definition visibleColumns :: "settings \<Rightarrow> nat" where
  "visibleColumns s = length (get_columns s co_bVisible)"

lemma get_columns_distinct: "distinct (get_columns s p)"
  by (simp add: get_columns_def)

lemma get_columns_set: "set (get_columns s p) = {i. i < length (st_columns s) \<and> p (st_columns s ! i)}"
  by (auto simp: get_columns_def)

section \<open>Column types\<close>

text \<open>One detector over the cells of a column, stopping at a miss and at \<open>html\<close>.\<close>

fun detect_rows :: "(nat \<Rightarrow> jsval js_res) \<Rightarrow> (jsval \<Rightarrow> string option) \<Rightarrow> nat list \<Rightarrow> string option \<Rightarrow>
    string option js_res" where
  "detect_rows cell f [] prev = Inr prev"
| "detect_rows cell f (k # ks) prev =
    js_bind (cell k) (\<lambda>c.
      if f c = None \<or> f c = Some ''html'' then Inr (f c) else detect_rows cell f ks (f c))"

fun detect_type :: "(nat \<Rightarrow> jsval js_res) \<Rightarrow> nat \<Rightarrow> (jsval \<Rightarrow> string option) list \<Rightarrow> string option js_res" where
  "detect_type cell n [] = Inr None"
| "detect_type cell n (f # fs) =
    js_bind (detect_rows cell f [0..<n] None) (\<lambda>t.
      if t \<noteq> None then Inr t else detect_type cell n fs)"

definition truthy_type :: "string option \<Rightarrow> bool" where
  "truthy_type t \<longleftrightarrow> t \<noteq> None \<and> t \<noteq> Some ''''"

definition column_type :: "dt_env \<Rightarrow> settings \<Rightarrow> nat \<Rightarrow> dt_column \<Rightarrow> string option js_res" where
  "column_type env s i c =
    (if truthy_type (co_sType c) then Inr (co_sType c)
     else if truthy_type (co_sManualType c) then Inr (co_sManualType c)
     else js_bind (detect_type (\<lambda>k. cell_data s k i (Some ''type'')) (length (st_data s))
            (builtin_detectors (\<lambda>d. en_date_parse env d \<noteq> DNaN)))
          (\<lambda>t. Inr (Some (case t of None \<Rightarrow> ''string'' | Some ty \<Rightarrow> ty))))"

text \<open>\<open>_fnColumnTypes\<close>; the types do not influence the cells, so the loop is a map.\<close>

definition columnTypes :: "dt_env \<Rightarrow> settings \<Rightarrow> settings js_res" where
  "columnTypes env s =
    js_bind (js_mapM (\<lambda>i. column_type env s i (st_columns s ! i)) [0..<length (st_columns s)]) (\<lambda>ts.
      Inr (s\<lparr>st_columns := map2 (\<lambda>c t. c\<lparr>co_sType := t\<rparr>) (st_columns s) ts\<rparr>))"

section \<open>What the cells depend on\<close>

definition untyped :: "dt_column \<Rightarrow> dt_column" where
  "untyped c = c\<lparr>co_sType := None\<rparr>"

text \<open>Two states with the same row data and the same columns up to their detected types.\<close>

definition cells_eq :: "settings \<Rightarrow> settings \<Rightarrow> bool" where
  "cells_eq s t \<longleftrightarrow> map ro_data (st_data s) = map ro_data (st_data t) \<and>
     map untyped (st_columns s) = map untyped (st_columns t)"

lemma untyped_fields:
  assumes "untyped c = untyped d"
  shows "co_mData c = co_mData d" "co_mRender c = co_mRender d" "co_sDefaultContent c = co_sDefaultContent d"
    "co_bSearchable c = co_bSearchable d" "co_bVisible c = co_bVisible d" "co_sSortDataType c = co_sSortDataType d"
    "co_aDataSort c = co_aDataSort d" "co_asSorting c = co_asSorting d" "co_sManualType c = co_sManualType d"
proof -
  have f: "co_mData (untyped c) = co_mData (untyped d)" "co_mRender (untyped c) = co_mRender (untyped d)"
    "co_sDefaultContent (untyped c) = co_sDefaultContent (untyped d)"
    "co_bSearchable (untyped c) = co_bSearchable (untyped d)" "co_bVisible (untyped c) = co_bVisible (untyped d)"
    "co_sSortDataType (untyped c) = co_sSortDataType (untyped d)" "co_aDataSort (untyped c) = co_aDataSort (untyped d)"
    "co_asSorting (untyped c) = co_asSorting (untyped d)" "co_sManualType (untyped c) = co_sManualType (untyped d)"
    using assms by simp_all
  then show "co_mData c = co_mData d" "co_mRender c = co_mRender d" "co_sDefaultContent c = co_sDefaultContent d"
    "co_bSearchable c = co_bSearchable d" "co_bVisible c = co_bVisible d" "co_sSortDataType c = co_sSortDataType d"
    "co_aDataSort c = co_aDataSort d" "co_asSorting c = co_asSorting d" "co_sManualType c = co_sManualType d"
    by (simp_all add: untyped_def)
qed

lemma cells_eq_refl [simp]: "cells_eq s s"
  by (simp add: cells_eq_def)

lemma cells_eq_sym: "cells_eq s t \<Longrightarrow> cells_eq t s"
  by (simp add: cells_eq_def)

lemma cells_eq_trans: "cells_eq s t \<Longrightarrow> cells_eq t u \<Longrightarrow> cells_eq s u"
  by (simp add: cells_eq_def)

lemma cells_eq_lengths: "cells_eq s t \<Longrightarrow> length (st_data s) = length (st_data t) \<and> length (st_columns s) = length (st_columns t)"
  unfolding cells_eq_def by (metis length_map)

lemma cells_eq_col:
  assumes "cells_eq s t" "i < length (st_columns s)"
  shows "untyped (st_columns s ! i) = untyped (st_columns t ! i)"
  using assms unfolding cells_eq_def by (metis length_map nth_map)

lemma cells_eq_row:
  assumes "cells_eq s t" "i < length (st_data s)"
  shows "ro_data (st_data s ! i) = ro_data (st_data t ! i)"
  using assms unfolding cells_eq_def by (metis length_map nth_map)

lemma cell_data_cong:
  assumes "cells_eq s t"
  shows "cell_data s = cell_data t"
proof (intro ext)
  fix i j ty
  note len = cells_eq_lengths [OF assms]
  show "cell_data s i j ty = cell_data t i j ty"
  proof (cases "i < length (st_data s) \<and> j < length (st_columns s)")
    case True
    then have cond: "(i < length (st_data s) \<and> j < length (st_columns s)) = True"
      "(i < length (st_data t) \<and> j < length (st_columns t)) = True" using len by simp_all
    note c = untyped_fields [OF cells_eq_col [OF assms, of j]] and d = cells_eq_row [OF assms, of i]
    from True have j: "j < length (st_columns s)" and i: "i < length (st_data s)" by simp_all
    show ?thesis
      unfolding cell_data_def col_get_def Let_def cond if_True c(1-3) [OF j] d [OF i] by (rule refl)
  next
    case False
    with len show ?thesis by (auto simp: cell_data_def)
  qed
qed

lemma get_columns_cong:
  assumes "cells_eq s t" "\<And>c d. untyped c = untyped d \<Longrightarrow> p c = p d"
  shows "get_columns s p = get_columns t p"
proof -
  have "p (st_columns s ! i) = p (st_columns t ! i)" if "i < length (st_columns s)" for i
    using cells_eq_col [OF assms(1) that] by (rule assms(2))
  then show ?thesis
    unfolding get_columns_def using cells_eq_lengths [OF assms(1)] by (intro filter_cong) simp_all
qed

lemma columnTypes_frame:
  assumes "columnTypes env s = Inr t"
  shows "cells_eq s t" "\<exists>cs. t = s\<lparr>st_columns := cs\<rparr>"
proof -
  from assms obtain ts where ts: "js_mapM (\<lambda>i. column_type env s i (st_columns s ! i)) [0..<length (st_columns s)] = Inr ts"
    and t: "t = s\<lparr>st_columns := map2 (\<lambda>c ty. c\<lparr>co_sType := ty\<rparr>) (st_columns s) ts\<rparr>"
    by (auto simp: columnTypes_def js_bind_Inr_iff)
  from ts have "length ts = length (st_columns s)"
    by (auto simp: js_mapM_Inr_iff dest: list_all2_lengthD)
  then have "map untyped (map2 (\<lambda>c ty. c\<lparr>co_sType := ty\<rparr>) (st_columns s) ts) = map untyped (st_columns s)"
    by (intro nth_equalityI) (auto simp: untyped_def)
  with t show "cells_eq s t" by (simp add: cells_eq_def)
  from t show "\<exists>cs. t = s\<lparr>st_columns := cs\<rparr>" by blast
qed

lemma columnTypes_nth:
  assumes "columnTypes env s = Inr t" "i < length (st_columns s)"
  shows "\<exists>ty. column_type env s i (st_columns s ! i) = Inr ty \<and> st_columns t ! i = (st_columns s ! i)\<lparr>co_sType := ty\<rparr>"
proof -
  from assms(1) obtain ts where ts: "js_mapM (\<lambda>i. column_type env s i (st_columns s ! i)) [0..<length (st_columns s)] = Inr ts"
    and t: "t = s\<lparr>st_columns := map2 (\<lambda>c ty. c\<lparr>co_sType := ty\<rparr>) (st_columns s) ts\<rparr>"
    by (auto simp: columnTypes_def js_bind_Inr_iff)
  from ts have all: "list_all2 (\<lambda>i y. column_type env s i (st_columns s ! i) = Inr y) [0..<length (st_columns s)] ts"
    by (simp add: js_mapM_Inr_iff)
  with assms(2) have "column_type env s i (st_columns s ! i) = Inr (ts ! i)" "i < length ts"
    by (auto simp: list_all2_conv_all_nth)
  with t assms(2) show ?thesis by auto
qed

section \<open>A small table\<close>

text \<open>Default columns over rows that are arrays of strings, used by the instances of the properties.\<close>

definition plain_column :: "int \<Rightarrow> dt_column" where
  "plain_column i = \<lparr>co_sType = None, co_sManualType = None, co_bVisible = True, co_bSearchable = True,
     co_bSortable = True, co_asSorting = [''asc'', ''desc''], co_aDataSort = [nat i], co_mData = SrcInt i,
     co_mRender = SrcNull, co_sDefaultContent = JNull, co_sSortDataType = ''std'', co_sTitle = ''T'', co_sName = [],
     co_sClass = '''', co_sWidth = None, co_sWidthOrig = None, co_sSortingClass = ''sorting'',
     co_sSortingClassJUI = '''', co_bAttrSrc = False, co_nTh = \<lparr>th_html = ''T'', th_classes = []\<rparr>\<rparr>"

definition plain_row :: "jsval list \<Rightarrow> dt_row" where
  "plain_row cells = \<lparr>ro_data = JArr cells, ro_sort = None, ro_filter = None, ro_filterRow = '''',
     ro_cells = Some (map (\<lambda>v. \<lparr>td_html = js_string v, td_attrs = []\<rparr>) cells), ro_stripe = '''',
     ro_trId = '''', ro_trClasses = [], ro_rowc = None, ro_src = FromData\<rparr>"

definition no_search :: search where
  "no_search = \<lparr>se_sSearch = '''', se_bRegex = Some False, se_bSmart = Some True, se_bCaseInsensitive = Some True\<rparr>"

definition small_table :: "nat \<Rightarrow> jsval list list \<Rightarrow> settings" where
  "small_table n rows = \<lparr>st_columns = map (\<lambda>i. plain_column (int i)) [0..<n], st_data = map plain_row rows,
     st_display = [0..<length rows], st_master = [0..<length rows],
     st_sorting = [\<lparr>so_col = 0, so_dir = Some ''asc'', so_index = Some 0, so_idx = None\<rparr>],
     st_fixed = NoFixed, st_lastSort = [], st_search = no_search, st_colSearch = replicate n (Some no_search),
     st_start = 0, st_length = 10, st_initStart = Some (-1), st_recordsTotal = 0, st_recordsDisplay = 0,
     st_bSort = True, st_bSortMulti = True, st_bFilter = True, st_bPaginate = True, st_bServerSide = False,
     st_bDeferRender = False, st_ajax = False, st_legacyAjax = False, st_dataSrc = SrcStr ''data'', st_bSorted = False, st_bFiltered = False, st_bDrawing = False,
     st_bDeferLoading = False, st_ajaxDataGet = True, st_iDraw = 0, st_stripes = [''odd'', ''even''], st_tbody = Rows [],
     st_sZeroRecords = ''No matching records found'', st_sLoadingRecords = ''Loading...'',
     st_sEmptyTable = ''No data available in table''\<rparr>"

end
