(* ===== verification/DT_Paging.thy ===== *)
theory DT_Paging
  imports DT_Table Pager_Spec
begin

text \<open>
  Paging of the table engine (public/js/plugins/dataTables/jquery.dataTables.js): the record
  counts of the settings object, \<open>_fnPageChange\<close>, \<open>_fnLengthChange\<close>, \<open>_fnLengthOverflow\<close>, the
  page buttons, \<open>page.info()\<close> and the information text.  The settings are shown to be a paged
  view (\<open>Pager_Spec\<close>), and the page actions to refine moving an abstract page number.
\<close>

section \<open>Record counts\<close>

text \<open>\<open>fnRecordsTotal\<close>, \<open>fnRecordsDisplay\<close> and \<open>fnDisplayEnd\<close>; a length of -1 shows all rows.\<close>

definition recordsTotal :: "settings \<Rightarrow> int" where
  "recordsTotal s = (if dataSource s = SSP then st_recordsTotal s else int (length (st_master s)))"

definition recordsDisplay :: "settings \<Rightarrow> int" where
  "recordsDisplay s = (if dataSource s = SSP then st_recordsDisplay s else int (length (st_display s)))"

definition displayEnd :: "settings \<Rightarrow> int" where
  "displayEnd s =
    (let len = st_length s; start = st_start s; calc = start + len; records = int (length (st_display s))
     in if st_bServerSide s
        then (if \<not> st_bPaginate s \<or> len = -1 then start + records else min (start + len) (st_recordsDisplay s))
        else (if \<not> st_bPaginate s \<or> calc > records \<or> len = -1 then records else calc))"

section \<open>Changing page and length\<close>

text \<open>
  \<open>_fnPageChange\<close> without its redraw: the new start and whether it changed.  An unknown action
  is logged and leaves the start.  \<open>last\<close> with a length of 0 gives \<open>NaN\<close> (\<open>Unsupported\<close>).
\<close>

datatype page_action = PageNo int | PageStr string

definition page_start :: "page_action \<Rightarrow> settings \<Rightarrow> int js_res" where
  "page_start action s =
    (let start = st_start s; len = st_length s; records = recordsDisplay s
     in if records = 0 \<or> len = -1 then Inr 0
        else case action of
            PageNo n \<Rightarrow> let start' = n * len in Inr (if start' > records then 0 else start')
          | PageStr a \<Rightarrow>
              if a = ''first'' then Inr 0
              else if a = ''previous'' then
                (let start' = (if len \<ge> 0 then start - len else 0) in Inr (if start' < 0 then 0 else start'))
              else if a = ''next'' then Inr (if start + len < records then start + len else start)
              else if a = ''last'' then (if len = 0 then Inl Unsupported else Inr ((records - 1) div len * len))
              else Inr start)"

definition pageChange :: "page_action \<Rightarrow> settings \<Rightarrow> (bool \<times> settings) js_res" where
  "pageChange action s =
    js_bind (page_start action s) (\<lambda>start. Inr (st_start s \<noteq> start, s\<lparr>st_start := start\<rparr>))"

definition lengthOverflow :: "settings \<Rightarrow> settings" where
  "lengthOverflow s =
    (let end = displayEnd s; len = st_length s;
         start = (if end = recordsDisplay s then end - len else st_start s)
     in s\<lparr>st_start := if len = -1 \<or> start < 0 then 0 else start\<rparr>)"

text \<open>\<open>_fnLengthChange\<close>: the length is read with \<open>parseInt\<close>; \<open>NaN\<close> is not represented.\<close>

definition lengthChange :: "jsval \<Rightarrow> settings \<Rightarrow> settings js_res" where
  "lengthChange val s = (case parse_int (js_string val) of
      None \<Rightarrow> Inl Unsupported
    | Some len \<Rightarrow> Inr (lengthOverflow (s\<lparr>st_length := len\<rparr>)))"

section \<open>What the controls show\<close>

definition ceil_div :: "int \<Rightarrow> int \<Rightarrow> int" where
  "ceil_div a b = - ((- a) div b)"

record info =
  in_page :: int
  in_pages :: int
  in_start :: int
  in_end :: int
  in_length :: int
  in_total :: int
  in_display :: int

text \<open>\<open>page.info()\<close>; a length of 0 divides by zero and is not represented.\<close>

definition page_info :: "settings \<Rightarrow> info js_res" where
  "page_info s =
    (let start = st_start s; len = st_length s; visRecords = recordsDisplay s; all = (len = -1)
     in if len = 0 then Inl Unsupported
        else Inr \<lparr>in_page = if all then 0 else start div len, in_pages = if all then 1 else ceil_div visRecords len,
                  in_start = start, in_end = displayEnd s, in_length = len,
                  in_total = recordsTotal s, in_display = visRecords\<rparr>)"

text \<open>
  The buttons a draw puts in the paging control: the page number and count computed by the draw
  callback of \<open>_fnFeatureHtmlPaginate\<close>, the items of the paging type, and the renderer
  \<open>pageButton\<close>, with the action each button carries.  The nested list of numbers becomes a span.
\<close>

record page_lang =
  pl_first :: string
  pl_previous :: string
  pl_next :: string
  pl_last :: string

record page_classes =
  pc_button :: string
  pc_active :: string
  pc_disabled :: string

datatype page_node = BtnNode string string page_action | GapNode

definition word_button :: "page_lang \<Rightarrow> page_classes \<Rightarrow> int \<Rightarrow> int \<Rightarrow> string \<Rightarrow> page_node list" where
  "word_button lang classes page pages button =
    (let disabled = '' '' @ pc_disabled classes;
         back = button @ (if page > 0 then '''' else disabled);
         fwd = button @ (if page < pages - 1 then '''' else disabled);
         (text, cls) =
           (if button = ''first'' then (pl_first lang, back)
            else if button = ''previous'' then (pl_previous lang, back)
            else if button = ''next'' then (pl_next lang, fwd)
            else if button = ''last'' then (pl_last lang, fwd)
            else (button @ ''1'', ''''))
     in if text = '''' then [] else [BtnNode text (pc_button classes @ '' '' @ cls) (PageStr button)])"

definition number_button :: "page_classes \<Rightarrow> int \<Rightarrow> page_btn \<Rightarrow> page_node" where
  "number_button classes page b = (case b of
      Ellipsis \<Rightarrow> GapNode
    | Page n \<Rightarrow> BtnNode (show_int (n + 1)) (pc_button classes @ '' '' @ (if page = n then pc_active classes else '''')) (PageNo n))"

definition render_item :: "page_lang \<Rightarrow> page_classes \<Rightarrow> int \<Rightarrow> int \<Rightarrow> pager_item \<Rightarrow> page_node list" where
  "render_item lang classes page pages item = (case item of
      Btn button \<Rightarrow> word_button lang classes page pages button
    | Numbers bs \<Rightarrow> map (number_button classes page) bs)"

definition page_buttons :: "(int \<Rightarrow> int \<Rightarrow> pager_item list) \<Rightarrow> page_lang \<Rightarrow> page_classes \<Rightarrow> settings
    \<Rightarrow> page_node list js_res" where
  "page_buttons plugin lang classes s =
    (let start = st_start s; len = st_length s; visRecords = recordsDisplay s; all = (len = -1)
     in if len = 0 then Inl Unsupported
        else let page = (if all then 0 else ceil_div start len); pages = (if all then 1 else ceil_div visRecords len)
             in Inr (concat (map (render_item lang classes page pages) (plugin page pages))))"

section \<open>The information text\<close>

text \<open>\<open>s.replace(/pat/g, r)\<close> for a literal pattern and a replacement without \<open>$\<close>.\<close>

function replace_all :: "string \<Rightarrow> string \<Rightarrow> string \<Rightarrow> string" where
  "replace_all pat r [] = []"
| "replace_all pat r (c # s) =
    (if pat \<noteq> [] \<and> take (length pat) (c # s) = pat then r @ replace_all pat r (drop (length pat - 1) s)
     else c # replace_all pat r s)"
  by pat_completeness auto
termination by (relation "measure (\<lambda>(_, _, s). length s)") auto

text \<open>The default \<open>fnFormatNumber\<close>: a separator before every group of three digits that ends the number.\<close>

fun group_digits :: "string \<Rightarrow> string \<Rightarrow> string" where
  "group_digits sep [] = []"
| "group_digits sep (d # ds) =
    d # (if ds \<noteq> [] \<and> length ds mod 3 = 0 then sep @ group_digits sep ds else group_digits sep ds)"

definition format_number :: "string \<Rightarrow> int \<Rightarrow> string" where
  "format_number sep n = (if n < 0 then CHR ''-'' # group_digits sep (show_nat (nat (- n))) else group_digits sep (show_nat (nat n)))"

record info_lang =
  il_info :: string
  il_empty :: string
  il_filtered :: string
  il_postfix :: string

definition info_macros :: "(int \<Rightarrow> string) \<Rightarrow> settings \<Rightarrow> string \<Rightarrow> string js_res" where
  "info_macros formatter s str =
    (let start = st_start s + 1; len = st_length s; vis = recordsDisplay s; all = (len = -1)
     in if len = 0 then Inl Unsupported
        else Inr (replace_all ''_PAGES_'' (formatter (if all then 1 else ceil_div vis len))
          (replace_all ''_PAGE_'' (formatter (if all then 1 else ceil_div start len))
          (replace_all ''_TOTAL_'' (formatter vis)
          (replace_all ''_MAX_'' (formatter (recordsTotal s))
          (replace_all ''_END_'' (formatter (displayEnd s))
          (replace_all ''_START_'' (formatter start) str)))))))"

text \<open>\<open>_fnUpdateInfo\<close>, without \<open>fnInfoCallback\<close> (a hook of the page, absent by default).\<close>

definition update_info :: "(int \<Rightarrow> string) \<Rightarrow> info_lang \<Rightarrow> settings \<Rightarrow> string js_res" where
  "update_info formatter lang s =
    (let max = recordsTotal s; total = recordsDisplay s;
         out = (if total \<noteq> 0 then il_info lang else il_empty lang);
         out = (if total \<noteq> max then out @ '' '' @ il_filtered lang else out)
     in info_macros formatter s (out @ il_postfix lang))"

section \<open>Lemmas\<close>

lemma records_start [simp]:
  "recordsTotal (s\<lparr>st_start := n\<rparr>) = recordsTotal s" "recordsDisplay (s\<lparr>st_start := n\<rparr>) = recordsDisplay s"
  "dataSource (s\<lparr>st_start := n\<rparr>) = dataSource s"
  by (simp_all add: recordsTotal_def recordsDisplay_def dataSource_def)

lemma records_length [simp]:
  "recordsDisplay (s\<lparr>st_length := n\<rparr>) = recordsDisplay s" "dataSource (s\<lparr>st_length := n\<rparr>) = dataSource s"
  by (simp_all add: recordsDisplay_def dataSource_def)

lemma int_div_less: "0 < b \<Longrightarrow> (a::int) div b < k \<longleftrightarrow> a < k * b"
proof -
  assume b: "0 < b"
  have "k * b \<le> a \<Longrightarrow> k \<le> a div b" using zdiv_mono1 [of "k * b" a b] b by simp
  moreover have "k \<le> a div b \<Longrightarrow> k * b \<le> a"
    using mult_right_mono [of k "a div b" b] div_mult_mod_eq [of a b] pos_mod_sign [OF b, of a] b by linarith
  ultimately show ?thesis by force
qed

lemma less_ceil_div: "0 < b \<Longrightarrow> k < ceil_div a b \<longleftrightarrow> k * b < a"
proof -
  assume b: "0 < b"
  have "k < ceil_div a b \<longleftrightarrow> (- a) div b < - k" by (auto simp: ceil_div_def)
  also have "\<dots> \<longleftrightarrow> - a < - k * b" using b by (rule int_div_less)
  finally show ?thesis by simp
qed

lemma ceil_div_multiple: "0 < b \<Longrightarrow> b dvd a \<Longrightarrow> ceil_div a b = a div b"
  by (auto simp: ceil_div_def mult_minus_right [symmetric] simp del: mult_minus_right elim!: dvdE)

lemma last_page: "0 < b \<Longrightarrow> 0 < a \<Longrightarrow> (a - 1) div b = ceil_div a b - 1"
proof -
  assume *: "0 < b" "0 < a"
  have "(a - 1) div b < k \<longleftrightarrow> ceil_div a b \<le> k" for k
    using less_ceil_div [OF *(1), of k a] int_div_less [OF *(1), of "a - 1" k] by auto
  from this [of "ceil_div a b"] this [of "ceil_div a b - 1"] show ?thesis by auto
qed

text \<open>A paged view: pages of positive length, and a start on a page that shows a record.\<close>

definition page_ok :: "settings \<Rightarrow> bool" where
  "page_ok s \<longleftrightarrow> 0 < st_length s \<and> 0 \<le> st_start s \<and> st_length s dvd st_start s \<and> 0 \<le> recordsDisplay s \<and>
     (st_start s = 0 \<or> st_start s < recordsDisplay s)"

definition page_of :: "settings \<Rightarrow> int" where
  "page_of s = st_start s div st_length s"

definition page_count :: "settings \<Rightarrow> int" where
  "page_count s = ceil_div (recordsDisplay s) (st_length s)"

text \<open>The abstract pager: an action on a page number, given the number of pages.\<close>

fun goto_page :: "page_action \<Rightarrow> int \<Rightarrow> int \<Rightarrow> int" where
  "goto_page (PageNo k) n p = (if k < n then k else 0)"
| "goto_page (PageStr a) n p =
    (if n = 0 \<or> a = ''first'' then 0
     else if a = ''previous'' then max 0 (p - 1)
     else if a = ''next'' then (if p + 1 < n then p + 1 else p)
     else if a = ''last'' then n - 1 else p)"

fun page_exists :: "page_action \<Rightarrow> settings \<Rightarrow> bool" where
  "page_exists (PageNo k) s = (0 \<le> k \<and> (k = 0 \<or> k * st_length s \<noteq> recordsDisplay s))"
| "page_exists (PageStr a) s = True"

lemma page_count_zero: "page_ok s \<Longrightarrow> page_count s = 0 \<longleftrightarrow> recordsDisplay s = 0"
  using less_ceil_div [of "st_length s" 0 "recordsDisplay s"]
    less_ceil_div [of "st_length s" "-1" "recordsDisplay s"]
  by (auto simp: page_ok_def page_count_def)

lemma page_start_goto:
  assumes ok: "page_ok s" and ex: "page_exists a s"
  shows "page_start a s = Inr (goto_page a (page_count s) (page_of s) * st_length s)"
proof -
  let ?L = "st_length s" and ?R = "recordsDisplay s"
  have L: "0 < ?L" using ok by (simp add: page_ok_def)
  obtain p where p: "st_start s = p * ?L" "page_of s = p" "0 \<le> p"
    using ok L by (auto simp: page_ok_def page_of_def mult.commute zero_le_mult_iff elim!: dvdE)
  have lt: "k < page_count s \<longleftrightarrow> k * ?L < ?R" for k
    unfolding page_count_def by (rule less_ceil_div [OF L])
  show ?thesis
  proof (cases "?R = 0")
    case True
    then have "page_count s = 0" using page_count_zero [OF ok] by simp
    with True show ?thesis using ex by (cases a) (auto simp: page_start_def)
  next
    case R: False
    then have n: "page_count s \<noteq> 0" using page_count_zero [OF ok] by simp
    have R0: "0 < ?R" using R ok by (simp add: page_ok_def)
    show ?thesis
    proof (cases a)
      case (PageNo k)
      with ex L R show ?thesis by (auto simp: page_start_def lt)
    next
      case (PageStr w)
      have prev: "(if p * ?L - ?L < 0 then 0 else p * ?L - ?L) = max 0 (p - 1) * ?L"
        using L p(3) mult_le_cancel_right1 [of ?L p] by (cases "p = 0") (auto simp: left_diff_distrib max_def)
      have nxt: "p * ?L + ?L < ?R \<longleftrightarrow> p + 1 < page_count s" by (simp add: lt distrib_right)
      have lst: "(?R - 1) div ?L = page_count s - 1"
        unfolding page_count_def by (rule last_page [OF L R0])
      show ?thesis using L R n by (simp add: PageStr page_start_def Let_def prev nxt lst p distrib_right left_diff_distrib)
    qed
  qed
qed

lemma page_of_range: "page_ok s \<Longrightarrow> 0 \<le> page_of s \<and> (page_of s = 0 \<or> page_of s < page_count s)"
  by (auto simp: page_ok_def page_of_def page_count_def less_ceil_div pos_imp_zdiv_nonneg_iff elim!: dvdE)

lemma page_count_nonneg: "page_ok s \<Longrightarrow> 0 \<le> page_count s"
  using less_ceil_div [of "st_length s" "-1" "recordsDisplay s"] by (auto simp: page_count_def page_ok_def)

lemma goto_page_range:
  assumes "page_ok s" "page_exists a s"
  shows "0 \<le> goto_page a (page_count s) (page_of s) \<and>
    (goto_page a (page_count s) (page_of s) = 0 \<or> goto_page a (page_count s) (page_of s) < page_count s)"
  using page_of_range [OF assms(1)] page_count_nonneg [OF assms(1)] assms(2) by (cases a) (auto simp: max_def)

lemma page_of_start: "0 < st_length s \<Longrightarrow> page_of (s\<lparr>st_start := k * st_length s\<rparr>) = k"
  by (simp add: page_of_def)

lemma page_ok_start:
  assumes "page_ok s" "0 \<le> k" "k = 0 \<or> k < page_count s"
  shows "page_ok (s\<lparr>st_start := k * st_length s\<rparr>)"
  using assms less_ceil_div [of "st_length s" k "recordsDisplay s"]
  by (auto simp: page_ok_def page_count_def)

definition turn :: "string \<Rightarrow> settings \<Rightarrow> settings" where
  "turn a s = (case pageChange (PageStr a) s of Inl _ \<Rightarrow> s | Inr (_, t) \<Rightarrow> t)"

lemma turn_goto: "page_ok s \<Longrightarrow> turn a s = s\<lparr>st_start := goto_page (PageStr a) (page_count s) (page_of s) * st_length s\<rparr>"
  by (simp add: turn_def pageChange_def page_start_goto)

lemma turn_ok: "page_ok s \<Longrightarrow> page_ok (turn a s)"
  using goto_page_range [of s "PageStr a"] by (simp add: turn_goto page_ok_start del: goto_page.simps)

lemma start_page_of: "page_ok s \<Longrightarrow> st_start s = page_of s * st_length s"
  by (auto simp: page_ok_def page_of_def)

interpretation dt_pager: pager page_ok st_start st_length "turn ''previous''" "turn ''next''"
proof unfold_locales
  fix s assume ok: "page_ok s"
  then show "0 < st_length s" "0 \<le> st_start s" "st_length s dvd st_start s" by (simp_all add: page_ok_def)
  show "page_ok (turn ''previous'' s)" "page_ok (turn ''next'' s)" by (rule turn_ok [OF ok])+
  show "st_length (turn ''previous'' s) = st_length s" "st_length (turn ''next'' s) = st_length s"
    by (simp_all add: turn_goto [OF ok])
  have z: "page_count s = 0 \<Longrightarrow> st_start s = 0"
    using page_count_zero [OF ok] ok by (auto simp: page_ok_def)
  have "0 < st_length s" "0 \<le> page_of s"
    using ok by (simp_all add: page_ok_def page_of_def pos_imp_zdiv_nonneg_iff)
  then have "max 0 (page_of s * st_length s - st_length s) = max 0 (page_of s - 1) * st_length s"
    using mult_le_cancel_right1 [of "st_length s" "page_of s"]
    by (cases "page_of s = 0") (auto simp: left_diff_distrib max_def)
  then show "st_start (turn ''previous'' s) = max 0 (st_start s - st_length s)"
    using z start_page_of [OF ok] \<open>0 < st_length s\<close> by (auto simp: turn_goto [OF ok])
  show "st_start (turn ''next'' s) = st_start s \<or> st_start (turn ''next'' s) = st_start s + st_length s"
    using z start_page_of [OF ok] by (auto simp: turn_goto [OF ok] distrib_right)
qed

section \<open>Page actions\<close>

text \<open>C20: on a paged view every page action (first, previous, next, last, or a number that is not negative) succeeds
  and does to the start what the abstract pager does to the page number, with page 0 for a number past the
  last page; the result says whether it moved.  The one exception is the number equal to the page count when the
  last page is full: it is taken as it is, and the view is then past its last page.  In all other cases the view
  stays paged.\<close>

theorem page_actions_refine:
  assumes "page_ok s" "case a of PageNo k \<Rightarrow> 0 \<le> k | PageStr w \<Rightarrow> True"
  shows "\<exists>t. pageChange a s = Inr (page_of t \<noteq> page_of s, t) \<and> t = s\<lparr>st_start := page_of t * st_length s\<rparr> \<and>
    (if page_exists a s then page_of t = goto_page a (page_count s) (page_of s) \<and> page_ok t
     else page_of t = page_count s \<and> \<not> page_ok t \<and> (\<exists>k. a = PageNo k \<and> k * st_length s = recordsDisplay s))"
proof -
  have L: "0 < st_length s" using assms(1) by (simp add: page_ok_def)
  have step: "\<exists>t. pageChange a s = Inr (page_of t \<noteq> page_of s, t) \<and> t = s\<lparr>st_start := page_of t * st_length s\<rparr> \<and> page_of t = p"
    if "page_start a s = Inr (p * st_length s)" for p
  proof -
    let ?t = "s\<lparr>st_start := p * st_length s\<rparr>"
    have p: "page_of ?t = p" by (rule page_of_start [OF L])
    moreover have "pageChange a s = Inr (page_of ?t \<noteq> page_of s, ?t)"
      using L start_page_of [OF assms(1)] that by (auto simp: pageChange_def p)
    ultimately show ?thesis by metis
  qed
  show ?thesis
  proof (cases "page_exists a s")
    case True
    from step [OF page_start_goto [OF assms(1) True]] obtain t where
      t: "pageChange a s = Inr (page_of t \<noteq> page_of s, t)" "t = s\<lparr>st_start := page_of t * st_length s\<rparr>"
        "page_of t = goto_page a (page_count s) (page_of s)" by blast
    then have "page_ok t" using goto_page_range [OF assms(1) True] page_ok_start [OF assms(1), of "page_of t"] by metis
    with t True show ?thesis by auto
  next
    case False
    then obtain k where k: "a = PageNo k" "0 < k" "k * st_length s = recordsDisplay s"
      using assms(2) by (cases a) auto
    have lt: "i < page_count s \<longleftrightarrow> i * st_length s < recordsDisplay s" for i
      unfolding page_count_def by (rule less_ceil_div [OF L])
    have "\<not> k < page_count s" "k - 1 < page_count s"
      using k L by (auto simp: lt left_diff_distrib)
    then have pc: "page_count s = k" by simp
    have R: "0 < recordsDisplay s" using k L by (simp flip: k(3))
    have "page_start a s = Inr (k * st_length s)" using k L R by (simp add: page_start_def Let_def)
    from step [OF this] obtain t where t: "pageChange a s = Inr (page_of t \<noteq> page_of s, t)"
      "t = s\<lparr>st_start := page_of t * st_length s\<rparr>" "page_of t = k" by blast
    have "recordsDisplay t = recordsDisplay s" by (subst t(2)) (simp add: recordsDisplay_def dataSource_def)
    moreover have "st_start t = recordsDisplay s" by (subst t(2)) (simp add: t(3) k(3))
    ultimately have "\<not> page_ok t" using R by (simp add: page_ok_def)
    with t pc k False show ?thesis by auto
  qed
qed

definition letters :: settings where
  "letters = small_table 1 (map (\<lambda>c. [JStr [c]]) ''abcdefghijklmnopqrstuvwxy'')"

lemma letters_paged: "page_ok letters" "recordsDisplay letters = 25" "st_length letters = 10" "st_start letters = 0"
  by (simp_all add: page_ok_def letters_def small_table_def recordsDisplay_def dataSource_def)

lemma letters_pages: "page_of letters = 0" "page_count letters = 3"
  by (simp_all add: page_of_def page_count_def ceil_div_def letters_paged)

theorem page_actions_refine_witness:
  "\<exists>t. pageChange (PageStr ''last'') letters = Inr (True, t) \<and> page_of t = 2 \<and> page_ok t"
  using page_actions_refine [OF letters_paged(1), of "PageStr ''last''"] by (auto simp: letters_pages)

section \<open>The rows of a page\<close>

text \<open>The entries of the display list a page shows.\<close>

definition page_slice :: "settings \<Rightarrow> nat list" where
  "page_slice s = take (nat (displayEnd s - st_start s)) (drop (nat (st_start s)) (st_display s))"

lemma slices_concat: "concat (map (\<lambda>k. take n (drop (k * n) xs)) [0..<m]) = take (m * n) xs"
  by (induction m) (simp_all add: take_add [symmetric] add.commute [of n])

lemma page_slice_nth:
  assumes "\<not> st_bServerSide s" "st_bPaginate s" "0 < st_length s" "0 \<le> st_start s"
  shows "page_slice s = take (nat (st_length s)) (drop (nat (st_start s)) (st_display s))"
  using assms by (auto simp: page_slice_def displayEnd_def Let_def nat_diff_distrib)

text \<open>opening the numbered pages one after the other shows every row of the filtered and sorted
  list exactly once and in its order.\<close>

theorem pages_partition:
  assumes "page_ok s" "\<not> st_bServerSide s" "st_bPaginate s"
  shows "concat (map (\<lambda>k. case pageChange (PageNo (int k)) s of Inl _ \<Rightarrow> [] | Inr (_, t) \<Rightarrow> page_slice t)
      [0..<nat (page_count s)]) = st_display s"
proof -
  let ?n = "nat (st_length s)"
  have L: "0 < st_length s" using assms(1) by (simp add: page_ok_def)
  have R: "recordsDisplay s = int (length (st_display s))"
    using assms(2) by (simp add: recordsDisplay_def dataSource_def)
  have lt: "k < page_count s \<longleftrightarrow> k * st_length s < recordsDisplay s" for k
    unfolding page_count_def by (rule less_ceil_div [OF L])
  have "(case pageChange (PageNo (int k)) s of Inl _ \<Rightarrow> [] | Inr (_, t) \<Rightarrow> page_slice t)
      = take ?n (drop (k * ?n) (st_display s))" if "k < nat (page_count s)" for k
  proof -
    have k: "int k < page_count s" using that by simp
    then have "page_exists (PageNo (int k)) s" using lt by auto
    with k L show ?thesis
      by (simp add: pageChange_def page_start_goto [OF assms(1)] page_slice_nth assms nat_mult_distrib)
  qed
  then have "concat (map (\<lambda>k. case pageChange (PageNo (int k)) s of Inl _ \<Rightarrow> [] | Inr (_, t) \<Rightarrow> page_slice t)
      [0..<nat (page_count s)]) = concat (map (\<lambda>k. take ?n (drop (k * ?n) (st_display s))) [0..<nat (page_count s)])"
    by (intro arg_cong [where f = concat] map_cong) auto
  also have "\<dots> = take (nat (page_count s) * ?n) (st_display s)" by (rule slices_concat)
  also have "\<dots> = st_display s"
  proof -
    have "recordsDisplay s \<le> page_count s * st_length s" using lt [of "page_count s"] by simp
    then have "int (length (st_display s)) \<le> st_length s * page_count s" by (simp add: R mult.commute)
    then have "length (st_display s) \<le> nat (st_length s * page_count s)" by linarith
    then have "length (st_display s) \<le> nat (page_count s) * ?n"
      using L nat_mult_distrib [of "st_length s" "page_count s"] by (simp add: mult.commute)
    then show ?thesis by simp
  qed
  finally show ?thesis .
qed

text \<open>the page number equal to the number of full pages is not reset to the first page as every
  larger number is: it shows an empty page although the table has rows.\<close>

theorem page_past_end_empty:
  assumes "page_ok s" "\<not> st_bServerSide s" "st_bPaginate s" "0 < k" "recordsDisplay s = k * st_length s"
  shows "\<exists>t u. pageChange (PageNo k) s = Inr (True, t) \<and> page_slice t = [] \<and> st_display t \<noteq> [] \<and>
    pageChange (PageNo (k + 1)) s = Inr (st_start s \<noteq> 0, u) \<and> st_start u = 0 \<and> page_slice u \<noteq> []"
proof -
  let ?t = "s\<lparr>st_start := k * st_length s\<rparr>" and ?u = "s\<lparr>st_start := 0\<rparr>"
  have L: "0 < st_length s" using assms(1) by (simp add: page_ok_def)
  then have kL: "0 < k * st_length s" using assms(4) by simp
  have D: "int (length (st_display s)) = k * st_length s"
    using assms(2,5) by (simp add: recordsDisplay_def dataSource_def split: if_splits)
  have "st_start s \<noteq> k * st_length s" using assms(1,5) kL by (auto simp: page_ok_def)
  then have "pageChange (PageNo k) s = Inr (True, ?t)"
    using L kL assms(4,5) by (simp add: pageChange_def page_start_def Let_def)
  moreover have "pageChange (PageNo (k + 1)) s = Inr (st_start s \<noteq> 0, ?u)"
    using L kL assms(4,5) by (simp add: pageChange_def page_start_def Let_def distrib_right)
  moreover have "page_slice ?t = []" using L kL D assms(2,3) by (simp add: page_slice_nth)
  moreover have "page_slice ?u \<noteq> []" "st_display s \<noteq> []" using L kL D assms(2,3) by (auto simp: page_slice_nth)
  ultimately show ?thesis by (intro exI [of _ ?t] exI [of _ ?u]) simp
qed

lemma letters_rows: "st_display letters = [0..<25]" "\<not> st_bServerSide letters" "st_bPaginate letters"
  by code_simp+

theorem pages_partition_witness:
  "concat (map (\<lambda>k. case pageChange (PageNo (int k)) letters of Inl _ \<Rightarrow> [] | Inr (_, t) \<Rightarrow> page_slice t) [0..<3])
    = [0..<25]"
  using pages_partition [OF letters_paged(1)] by (simp add: letters_pages letters_rows)

definition two_pages :: settings where
  "two_pages = small_table 1 (replicate 20 [JStr ''a''])"

lemma two_pages_paged: "page_ok two_pages" "recordsDisplay two_pages = 20" "st_length two_pages = 10"
  "\<not> st_bServerSide two_pages" "st_bPaginate two_pages"
  by (simp_all add: page_ok_def two_pages_def small_table_def recordsDisplay_def dataSource_def)

theorem page_past_end_empty_witness:
  "\<exists>t. pageChange (PageNo 2) two_pages = Inr (True, t) \<and> page_slice t = [] \<and> st_display t \<noteq> []"
  using page_past_end_empty [of two_pages 2] two_pages_paged by auto

section \<open>Changing the page length\<close>

text \<open>C21: after a change of the page length to a positive number the row that was first on the page
  is still shown, the start is inside the table, and the page is full whenever the table has
  enough rows; with -1 all rows are shown.\<close>

theorem length_change_keeps_row:
  assumes "\<not> st_bServerSide s" "st_bPaginate s" "0 \<le> st_start s" "st_start s < recordsDisplay s"
    and "parse_int (js_string v) = Some n" "0 < n \<or> n = -1"
  shows "\<exists>t. lengthChange v s = Inr t \<and> st_length t = n \<and> st_display t = st_display s \<and>
    0 \<le> st_start t \<and> st_start t \<le> st_start s \<and> st_start s < displayEnd t \<and> displayEnd t \<le> recordsDisplay s \<and>
    displayEnd t - st_start t = (if n = -1 then recordsDisplay s else min n (recordsDisplay s))"
proof -
  have "recordsDisplay s = int (length (st_display s))"
    using assms(1) by (simp add: recordsDisplay_def dataSource_def)
  with assms show ?thesis
    by (auto simp: lengthChange_def lengthOverflow_def displayEnd_def Let_def)
qed

lemma fifty: "parse_int ''50'' = Some 50"
  by code_simp

theorem length_change_keeps_row_witness:
  "(let s = letters\<lparr>st_start := 20\<rparr> in
    \<exists>t. lengthChange (JStr ''50'') s = Inr t \<and> st_start t = 0 \<and> displayEnd t = 25)"
  using length_change_keeps_row [of "letters\<lparr>st_start := 20\<rparr>" "JStr ''50''" 50]
  by (auto simp: letters_rows letters_paged fifty)

section \<open>The page buttons\<close>

lemma render_numbers:
  assumes "page_ok s" "set (btn_pages bs) \<subseteq> {0..<page_count s}"
  shows "map (number_button classes (page_of s)) bs = map (\<lambda>b. case b of Ellipsis \<Rightarrow> GapNode
    | Page n \<Rightarrow> BtnNode (show_int (n + 1)) (pc_button classes @ '' '' @
        (if pageChange (PageNo n) s = Inr (False, s) then pc_active classes else '''')) (PageNo n)) bs"
proof (rule map_cong [OF refl])
  fix b assume b: "b \<in> set bs"
  have L: "0 < st_length s" using assms(1) by (simp add: page_ok_def)
  show "number_button classes (page_of s) b = (case b of Ellipsis \<Rightarrow> GapNode
    | Page n \<Rightarrow> BtnNode (show_int (n + 1)) (pc_button classes @ '' '' @
        (if pageChange (PageNo n) s = Inr (False, s) then pc_active classes else '''')) (PageNo n))"
  proof (cases b)
    case (Page n)
    then have n: "0 \<le> n" "n < page_count s" using assms(2) b by (force simp: btn_pages_def)+
    then have "page_exists (PageNo n) s" using L by (auto simp: page_count_def less_ceil_div)
    then have "pageChange (PageNo n) s = Inr (False, s) \<longleftrightarrow> page_of s = n"
      using n L start_page_of [OF assms(1)] by (auto simp: pageChange_def page_start_goto [OF assms(1)])
    then show ?thesis by (simp add: Page number_button_def)
  qed (simp add: number_button_def)
qed

lemma start_same: "s\<lparr>st_start := n\<rparr> = s \<longleftrightarrow> n = st_start s"
  by (cases s) auto

lemma turn_same: "page_ok s \<Longrightarrow> turn a s = s \<longleftrightarrow> goto_page (PageStr a) (page_count s) (page_of s) = page_of s"
proof -
  assume ok: "page_ok s"
  then have L: "0 < st_length s" by (simp add: page_ok_def)
  have "turn a s = s \<longleftrightarrow> st_start (turn a s) = st_start s" by (simp add: turn_goto [OF ok] start_same del: goto_page.simps)
  also have "\<dots> \<longleftrightarrow> goto_page (PageStr a) (page_count s) (page_of s) = page_of s"
    using L by (subst start_page_of [OF ok]) (simp add: turn_goto [OF ok] del: goto_page.simps)
  finally show ?thesis .
qed

text \<open>C22: on a paged view the full numbered control shows a word button for each move that is
  disabled exactly when pressing it would leave the page, and a numbered button for each of its
  pages that is marked active exactly when it is the page shown.\<close>

theorem page_buttons_truthful:
  fixes classes :: page_classes and lang :: page_lang
  assumes "page_ok s" "pl_first lang \<noteq> ''''" "pl_previous lang \<noteq> ''''" "pl_next lang \<noteq> ''''" "pl_last lang \<noteq> ''''"
  defines "word \<equiv> \<lambda>text w. BtnNode (text lang)
    (pc_button classes @ '' '' @ w @ (if turn w s = s then '' '' @ pc_disabled classes else '''')) (PageStr w)"
  defines "num \<equiv> \<lambda>b. case b of Ellipsis \<Rightarrow> GapNode
    | Page n \<Rightarrow> BtnNode (show_int (n + 1)) (pc_button classes @ '' '' @
        (if pageChange (PageNo n) s = Inr (False, s) then pc_active classes else '''')) (PageNo n)"
  shows "page_buttons pager_full_numbers lang classes s = Inr ([word pl_first ''first'', word pl_previous ''previous''] @
    map num (dt_numbers 7 (page_of s) (page_count s)) @ [word pl_next ''next'', word pl_last ''last''])"
proof -
  have L: "0 < st_length s" using assms(1) by (simp add: page_ok_def)
  have page: "ceil_div (st_start s) (st_length s) = page_of s"
    using assms(1) L by (simp add: ceil_div_multiple page_ok_def page_of_def)
  have nums: "map (number_button classes (page_of s)) (dt_numbers 7 (page_of s) (page_count s))
      = map num (dt_numbers 7 (page_of s) (page_count s))"
    unfolding num_def by (rule render_numbers [OF assms(1) numbers_in_range]) (use page_of_range [OF assms(1)] in auto)
  show ?thesis using page_of_range [OF assms(1)] page_count_nonneg [OF assms(1)] L
    by (auto simp: page_buttons_def Let_def page page_count_def [symmetric] pager_full_numbers_def render_item_def nums
        word_button_def assms(2-5) word_def turn_same [OF assms(1)])
qed

definition button_texts :: page_lang where
  "button_texts = \<lparr>pl_first = ''First'', pl_previous = ''Previous'', pl_next = ''Next'', pl_last = ''Last''\<rparr>"

definition button_classes :: page_classes where
  "button_classes = \<lparr>pc_button = ''paginate_button'', pc_active = ''current'', pc_disabled = ''disabled''\<rparr>"

theorem page_buttons_truthful_witness:
  "\<exists>bs. page_buttons pager_full_numbers button_texts button_classes letters = Inr bs \<and>
    hd bs = BtnNode ''First'' ''paginate_button first disabled'' (PageStr ''first'') \<and>
    last bs = BtnNode ''Last'' ''paginate_button last'' (PageStr ''last'')"
  using page_buttons_truthful [OF letters_paged(1), of button_texts button_classes]
  by (simp add: button_texts_def button_classes_def turn_same letters_paged letters_pages)

section \<open>The information text\<close>

definition english_info :: info_lang where
  "english_info = \<lparr>il_info = ''Showing _START_ to _END_ of _TOTAL_ entries'',
     il_empty = ''Showing 0 to 0 of 0 entries'', il_filtered = ''(filtered from _MAX_ total entries)'', il_postfix = ''''\<rparr>"

lemma replace_all_skip:
  "CHR ''_'' \<notin> set w \<Longrightarrow> replace_all (CHR ''_'' # p) r (w @ s) = w @ replace_all (CHR ''_'' # p) r s"
  by (induction w) auto

lemma group_digits_chars: "set (group_digits sep ds) \<subseteq> set ds \<union> set sep"
  by (induction ds) auto

lemma show_nat_no_underscore: "CHR ''_'' \<notin> set (show_nat n)"
  using show_nat_digits [of n] by (auto simp: list_all_iff is_digit_def)

lemma format_number_plain: "CHR ''_'' \<notin> set (format_number '','' n)"
proof -
  have "CHR ''_'' \<notin> set (group_digits '','' (show_nat k))" for k
    using group_digits_chars [of "'',''" "show_nat k"] show_nat_no_underscore [of k] by auto
  then show ?thesis by (simp add: format_number_def)
qed

lemma replace_number [simp]:
  "replace_all (CHR ''_'' # p) r (format_number '','' n @ s) = format_number '','' n @ replace_all (CHR ''_'' # p) r s"
  by (rule replace_all_skip [OF format_number_plain])

lemma group_digits_read: "list_all is_digit ds \<Longrightarrow> filter is_digit (group_digits '','' ds) = ds"
  by (induction ds) (auto simp: is_digit_def)

lemma format_number_read: "0 \<le> n \<Longrightarrow> read_digits (filter is_digit (format_number '','' n)) = nat n"
  by (simp add: format_number_def group_digits_read show_nat_digits read_show_nat)

lemma info_text:
  assumes "st_length s \<noteq> 0" "recordsDisplay s \<noteq> 0"
  shows "update_info (format_number '','') english_info s =
    Inr (''Showing '' @ format_number '','' (st_start s + 1) @ '' to '' @ format_number '','' (displayEnd s) @
      '' of '' @ format_number '','' (recordsDisplay s) @ '' entries'' @
      (if recordsDisplay s = recordsTotal s then ''''
       else '' (filtered from '' @ format_number '','' (recordsTotal s) @ '' total entries)''))"
  using assms by (simp add: update_info_def info_macros_def english_info_def Let_def)

text \<open>below a paged view of at least one row the default text names the first and the last row
  of the page, counted from 1, and the number of rows (with the total when a filter hides some);
  the numbers are grouped in thousands and read back as what they count.\<close>

theorem info_names_page:
  assumes "page_ok s" "\<not> st_bServerSide s" "st_bPaginate s" "0 < recordsDisplay s"
  shows "update_info (format_number '','') english_info s =
      Inr (''Showing '' @ format_number '','' (st_start s + 1) @ '' to '' @ format_number '','' (displayEnd s) @
        '' of '' @ format_number '','' (recordsDisplay s) @ '' entries'' @
        (if recordsDisplay s = recordsTotal s then ''''
         else '' (filtered from '' @ format_number '','' (recordsTotal s) @ '' total entries)'')) \<and>
    1 \<le> st_start s + 1 \<and> st_start s + 1 \<le> displayEnd s \<and> displayEnd s \<le> recordsDisplay s \<and>
    page_slice s = map (\<lambda>i. st_display s ! i) [nat (st_start s)..<nat (displayEnd s)] \<and>
    list_all (\<lambda>n. read_digits (filter is_digit (format_number '','' n)) = nat n)
      [st_start s + 1, displayEnd s, recordsDisplay s, recordsTotal s]"
proof -
  have L: "0 < st_length s" "0 \<le> st_start s" and R: "recordsDisplay s = int (length (st_display s))"
    using assms by (simp_all add: page_ok_def recordsDisplay_def dataSource_def)
  then have e: "displayEnd s = min (st_start s + st_length s) (int (length (st_display s)))"
    using assms(2,3) by (simp add: displayEnd_def Let_def)
  have start: "st_start s < recordsDisplay s" using assms(1,4) by (auto simp: page_ok_def)
  have T: "0 \<le> recordsTotal s" using assms(2) by (simp add: recordsTotal_def dataSource_def)
  have "page_slice s = map (\<lambda>i. st_display s ! i) [nat (st_start s)..<nat (displayEnd s)]"
    using L start R unfolding page_slice_def
    by (auto simp: e intro!: nth_equalityI)
  then show ?thesis using L start R T e assms(4)
    by (simp add: info_text format_number_read)
qed

theorem info_names_page_witness:
  "update_info (format_number '','') english_info letters = Inr ''Showing 1 to 10 of 25 entries''"
proof -
  have "displayEnd letters = 10" "recordsTotal letters = 25"
    by (simp_all add: displayEnd_def letters_rows letters_paged recordsTotal_def dataSource_def)
       (simp add: letters_def small_table_def)
  moreover have "format_number '','' 1 = ''1''" "format_number '','' 10 = ''10''" "format_number '','' 25 = ''25''"
    by code_simp+
  ultimately show ?thesis
    using info_names_page [OF letters_paged(1)]
    by (simp add: letters_rows letters_paged)
qed

end
