(* ===== verification/DT_Columns.thy ===== *)
theory DT_Columns
  imports DT_Table
begin

text \<open>
  Setting up columns (public/js/plugins/dataTables/jquery.dataTables.js, lines 472 to 842):
  \<open>_fnAddColumn\<close>, \<open>_fnColumnOptions\<close> and \<open>_fnApplyColumnDefs\<close>, and the facts about column
  indexes and detected types that the rest of the engine relies on.  The options of a column
  are given after the name mapping of \<open>DT_Options\<close>.
\<close>

section \<open>Adding a column\<close>

text \<open>\<open>DataTable.defaults.column\<close>\<close>

record col_defaults =
  cd_column :: dt_column             \<comment> \<open>the fields that are copied as they are\<close>
  cd_sTitle :: "string option"
  cd_aDataSort :: "nat list option"
  cd_mData :: data_src

record sort_classes =
  sc_sSortable :: string
  sc_sSortableAsc :: string
  sc_sSortableDesc :: string
  sc_sSortableNone :: string
  sc_sSortJUI :: string
  sc_sSortJUIAscAllowed :: string
  sc_sSortJUIDescAllowed :: string

text \<open>The user's options for a column; \<^const>\<open>None\<close> is an option not given.\<close>

record col_options =
  op_sType :: "string option"
  op_mData :: "data_src option"
  op_mDataProp :: "data_src option"
  op_mRender :: "data_src option"
  op_className :: "string option"
  op_sClass :: "string option"
  op_sWidth :: "string option"
  op_sTitle :: "string option"
  op_sName :: "string option"
  op_bVisible :: "bool option"
  op_bSearchable :: "bool option"
  op_bSortable :: "bool option"
  op_asSorting :: "string list option"
  op_sDefaultContent :: "jsval option"
  op_sSortDataType :: "string option"
  op_iDataSort :: "nat option"
  op_aDataSort :: "nat list option"

definition override :: "'a option \<Rightarrow> 'a \<Rightarrow> 'a" where
  "override o' x = (case o' of None \<Rightarrow> x | Some v \<Rightarrow> v)"

lemma override_simps [simp]: "override None x = x" "override (Some v) x = v"
  by (simp_all add: override_def)

text \<open>The part of \<open>_fnColumnOptions\<close> under \<open>if (oOptions)\<close>.\<close>

definition apply_options :: "col_options \<Rightarrow> dt_column \<Rightarrow> dt_column" where
  "apply_options op c =
    (let mData = (if op_mDataProp op \<noteq> None \<and> (case op_mData op of None \<Rightarrow> True | Some m \<Rightarrow> falsy_src m)
                  then op_mDataProp op else op_mData op);
         sClass = (if \<not> falsy_string (op_className op) \<and> falsy_string (op_sClass op)
                   then op_className op else op_sClass op);
         dataSort = (case op_iDataSort op of None \<Rightarrow> co_aDataSort c | Some i \<Rightarrow> [i])
     in c\<lparr>co_sManualType := op_sType op,
          co_sType := (case op_sType op of None \<Rightarrow> co_sType c | Some t \<Rightarrow> Some t),
          co_mData := override mData (co_mData c), co_mRender := override (op_mRender op) (co_mRender c),
          co_sClass := override sClass (co_sClass c), co_sTitle := override (op_sTitle op) (co_sTitle c),
          co_sWidth := (case op_sWidth op of None \<Rightarrow> co_sWidth c | Some w \<Rightarrow> Some w),
          co_sWidthOrig := (case op_sWidth op of None \<Rightarrow> co_sWidthOrig c | Some w \<Rightarrow> Some w),
          co_sName := override (op_sName op) (co_sName c),
          co_bVisible := override (op_bVisible op) (co_bVisible c),
          co_bSearchable := override (op_bSearchable op) (co_bSearchable c),
          co_bSortable := override (op_bSortable op) (co_bSortable c),
          co_asSorting := override (op_asSorting op) (co_asSorting c),
          co_sDefaultContent := override (op_sDefaultContent op) (co_sDefaultContent c),
          co_sSortDataType := override (op_sSortDataType op) (co_sSortDataType c),
          co_aDataSort := override (op_aDataSort op) dataSort\<rparr>)"

text \<open>\<open>attrTest(mDataSrc.sort) || ...\<close>\<close>

definition attr_test :: "data_src \<Rightarrow> bool" where
  "attr_test src = (case src of
      SrcObj kvs \<Rightarrow> list_ex (\<lambda>k. case map_of kvs k of Some (SrcStr s) \<Rightarrow> CHR ''@'' \<in> set s | _ \<Rightarrow> False)
        [''sort'', ''type'', ''filter'']
    | _ \<Rightarrow> False)"

text \<open>The rest: derived fields, and the sorting classes.\<close>

definition finish_options :: "sort_classes \<Rightarrow> bool \<Rightarrow> dt_column \<Rightarrow> dt_column" where
  "finish_options cls bSort c =
    (let c1 = c\<lparr>co_bAttrSrc := attr_test (co_mData c), co_bSortable := co_bSortable c \<and> bSort\<rparr>;
         asc = ''asc'' \<in> set (co_asSorting c); desc = ''desc'' \<in> set (co_asSorting c)
     in if \<not> co_bSortable c1 \<or> (\<not> asc \<and> \<not> desc) then
          c1\<lparr>co_sSortingClass := sc_sSortableNone cls, co_sSortingClassJUI := ''''\<rparr>
        else if asc \<and> \<not> desc then
          c1\<lparr>co_sSortingClass := sc_sSortableAsc cls, co_sSortingClassJUI := sc_sSortJUIAscAllowed cls\<rparr>
        else if \<not> asc \<and> desc then
          c1\<lparr>co_sSortingClass := sc_sSortableDesc cls, co_sSortingClassJUI := sc_sSortJUIDescAllowed cls\<rparr>
        else c1)"

definition columnOptions :: "sort_classes \<Rightarrow> int \<Rightarrow> col_options option \<Rightarrow> settings \<Rightarrow> settings js_res" where
  "columnOptions cls iCol op s =
    (if 0 \<le> iCol \<and> iCol < int (length (st_columns s)) then
       (let i = nat iCol; c = st_columns s ! i;
            c1 = (case op of None \<Rightarrow> c | Some x \<Rightarrow> apply_options x c)
        in Inr (s\<lparr>st_columns := (st_columns s)[i := finish_options cls (st_bSort s) c1]\<rparr>))
     else Inl TypeError)"

text \<open>\<open>DataTable.models.oSearch\<close>\<close>

definition default_search :: search where
  "default_search = \<lparr>se_sSearch = '''', se_bRegex = Some False, se_bSmart = Some True, se_bCaseInsensitive = Some True\<rparr>"

definition fill_search :: "search option \<Rightarrow> search" where
  "fill_search p = (case p of
      None \<Rightarrow> default_search
    | Some x \<Rightarrow> x\<lparr>se_bRegex := Some (override (se_bRegex x) True), se_bSmart := Some (override (se_bSmart x) True),
        se_bCaseInsensitive := Some (override (se_bCaseInsensitive x) True)\<rparr>)"

definition addColumn :: "sort_classes \<Rightarrow> col_defaults \<Rightarrow> th_node option \<Rightarrow> settings \<Rightarrow> settings js_res" where
  "addColumn cls d th s =
    (let i = length (st_columns s);
         c = (cd_column d)\<lparr>co_sSortingClass := sc_sSortable cls, co_sSortingClassJUI := sc_sSortJUI cls,
               co_nTh := (case th of None \<Rightarrow> \<lparr>th_html = '''', th_classes = []\<rparr> | Some n \<Rightarrow> n),
               co_sTitle := (if \<not> falsy_string (cd_sTitle d) then the (cd_sTitle d)
                             else case th of None \<Rightarrow> '''' | Some n \<Rightarrow> th_html n),
               co_aDataSort := (case cd_aDataSort d of None \<Rightarrow> [i] | Some a \<Rightarrow> a),
               co_mData := (if falsy_src (cd_mData d) then SrcInt (int i) else cd_mData d)\<rparr>;
         pre = st_colSearch s @ replicate (Suc i - length (st_colSearch s)) None
     in columnOptions cls (int i) None
          (s\<lparr>st_columns := st_columns s @ [c], st_colSearch := pre[i := Some (fill_search (pre ! i))]\<rparr>))"

section \<open>Column definitions\<close>

datatype target = TInt int | TStr string | TOther

text \<open>\<open>while (aoColumns.length <= t) _fnAddColumn(...)\<close>, adding the given number of columns.\<close>

fun add_columns :: "(settings \<Rightarrow> settings js_res) \<Rightarrow> nat \<Rightarrow> settings \<Rightarrow> settings js_res" where
  "add_columns add 0 s = Inr s"
| "add_columns add (Suc n) s = js_bind (add s) (add_columns add n)"

definition apply_target :: "(settings \<Rightarrow> settings js_res) \<Rightarrow> (int \<Rightarrow> 'd \<Rightarrow> settings \<Rightarrow> settings js_res) \<Rightarrow>
    'd \<Rightarrow> target \<Rightarrow> settings \<Rightarrow> settings js_res" where
  "apply_target add fn def t s =
    (case t of
       TInt n \<Rightarrow>
         if 0 \<le> n then js_bind (add_columns add (Suc (nat n) - length (st_columns s)) s) (fn n def)
         else fn (int (length (st_columns s)) + n) def s
     | TStr c \<Rightarrow>
         js_foldM (\<lambda>k s'. if c = ''_all'' \<or> c \<in> set (th_classes (co_nTh (st_columns s' ! k)))
            then fn (int k) def s' else Inr s') [0..<length (st_columns s)] s
     | TOther \<Rightarrow> Inr s)"

text \<open>\<open>_fnApplyColumnDefs\<close>: definitions with targets in reverse, then the static columns.\<close>

definition applyColumnDefs :: "(settings \<Rightarrow> settings js_res) \<Rightarrow> (int \<Rightarrow> 'd \<Rightarrow> settings \<Rightarrow> settings js_res) \<Rightarrow>
    ('d \<times> target list) list \<Rightarrow> 'd list \<Rightarrow> settings \<Rightarrow> settings js_res" where
  "applyColumnDefs add fn defs cols s =
    js_bind (js_foldM (\<lambda>(def, ts) s'. js_foldM (apply_target add fn def) ts s') (rev defs) s)
      (js_foldM (\<lambda>(i, def) s'. fn (int i) def s') (enumerate 0 cols))"

section \<open>Column indexes\<close>

lemma visible_roundtrip:
  "visibleToColumnIndex s m = Some c \<longleftrightarrow> columnIndexToVisible s c = Some m"
proof -
  let ?v = "get_columns s co_bVisible"
  show ?thesis
  proof
    assume "visibleToColumnIndex s m = Some c"
    then have m: "0 \<le> m" "nat m < length ?v" "?v ! nat m = c"
      by (simp_all add: visibleToColumnIndex_def js_nth_Some_iff)
    then have "c \<in> set ?v" by auto
    from js_indexOf_present [OF this] m get_columns_distinct [of s co_bVisible]
    have "nat (js_indexOf ?v c) = nat m"
      by (metis nat_less_iff nth_eq_iff_index_eq)
    with js_indexOf_present [OF \<open>c \<in> set ?v\<close>] m have "js_indexOf ?v c = m" by linarith
    with m show "columnIndexToVisible s c = Some m" by (simp add: columnIndexToVisible_def)
  next
    assume "columnIndexToVisible s c = Some m"
    then have m: "js_indexOf ?v c = m" "m \<noteq> -1" by (auto simp: columnIndexToVisible_def Let_def split: if_splits)
    then have "c \<in> set ?v" using js_indexOf_absent [of c ?v] by blast
    with js_indexOf_present [OF this] m show "visibleToColumnIndex s m = Some c"
      by (simp add: visibleToColumnIndex_def js_nth_Some_iff nat_less_iff)
  qed
qed

lemma columnIndexToVisible_iff:
  "columnIndexToVisible s c \<noteq> None \<longleftrightarrow> c < length (st_columns s) \<and> co_bVisible (st_columns s ! c)"
proof -
  have "columnIndexToVisible s c \<noteq> None \<longleftrightarrow> c \<in> set (get_columns s co_bVisible)"
    using js_indexOf_present [of c "get_columns s co_bVisible"]
    by (cases "c \<in> set (get_columns s co_bVisible)") (auto simp: columnIndexToVisible_def Let_def)
  then show ?thesis by (simp add: get_columns_set)
qed

section \<open>Detected types\<close>

lemma detect_rows_all:
  "detect_rows cell f ks prev = Inr (Some t) \<Longrightarrow> ks \<noteq> [] \<Longrightarrow> t \<noteq> ''html'' \<Longrightarrow>
    \<forall>k \<in> set ks. \<exists>c. cell k = Inr c \<and> f c \<noteq> None"
proof (induction ks arbitrary: prev)
  case (Cons k ks)
  then obtain c where c: "cell k = Inr c" "f c \<noteq> None" "f c \<noteq> Some ''html''"
    "detect_rows cell f ks (f c) = Inr (Some t)"
    by (auto simp: js_bind_Inr_iff split: if_splits)
  with Cons show ?case by (cases ks) auto
qed simp

lemma detect_rows_nonempty: "detect_rows cell f ks None = Inr (Some t) \<Longrightarrow> ks \<noteq> []"
  by auto

lemma detect_rows_value:
  "detect_rows cell f ks prev = Inr (Some t) \<Longrightarrow> prev = None \<or> (\<exists>c. f c = prev) \<Longrightarrow> \<exists>c. f c = Some t"
  by (induction ks arbitrary: prev) (auto simp: js_bind_Inr_iff split: if_splits)

text \<open>The type of a column comes from the first detector that accepts all of its cells.\<close>

lemma detect_type_all:
  "detect_type cell n fs = Inr (Some t) \<Longrightarrow> t \<noteq> ''html'' \<Longrightarrow>
    \<exists>f \<in> set fs. (\<exists>c. f c = Some t) \<and> (\<forall>k < n. \<exists>c. cell k = Inr c \<and> f c \<noteq> None)"
proof (induction fs)
  case (Cons f fs)
  then obtain u where u: "detect_rows cell f [0..<n] None = Inr u"
    by (auto simp: js_bind_Inr_iff)
  show ?case
  proof (cases u)
    case None
    with u Cons show ?thesis by auto
  next
    case (Some t')
    with u Cons.prems have "t' = t" by simp
    with u Some have d: "detect_rows cell f [0..<n] None = Inr (Some t)" by simp
    from detect_rows_all [OF d detect_rows_nonempty [OF d] Cons.prems(2)] detect_rows_value [OF d]
    show ?thesis by auto
  qed
qed simp

lemma detector_names:
  assumes "f \<in> set (builtin_detectors is_date)" "f c = Some t"
  shows "(t = ''numeric'' \<longrightarrow> f = detect_numeric)"
  using assms
  by (auto simp: builtin_detectors_def detect_numeric_def detect_date_def detect_numeric_fmt_def
      detect_html_numeric_def detect_html_numeric_fmt_def detect_html_def Let_def split: if_splits)

lemma column_type_numeric:
  assumes "column_type env s i c = Inr (Some ''numeric'')" "co_sType c = None" "co_sManualType c = None"
    and "k < length (st_data s)"
  shows "\<exists>v. cell_data s k i (Some ''type'') = Inr v \<and> dt_isNumber v False"
proof -
  from assms(1-3) have "detect_type (\<lambda>k. cell_data s k i (Some ''type'')) (length (st_data s))
      (builtin_detectors (\<lambda>d. en_date_parse env d \<noteq> DNaN)) = Inr (Some ''numeric'')"
    by (auto simp: column_type_def truthy_type_def js_bind_Inr_iff split: option.splits)
  from detect_type_all [OF this] obtain f where f: "f \<in> set (builtin_detectors (\<lambda>d. en_date_parse env d \<noteq> DNaN))"
    "\<exists>c. f c = Some ''numeric''"
    and all: "\<forall>k < length (st_data s). \<exists>c. cell_data s k i (Some ''type'') = Inr c \<and> f c \<noteq> None"
    by (auto simp del: not_None_eq)
  from all assms(4) have f3: "\<exists>c. cell_data s k i (Some ''type'') = Inr c \<and> f c \<noteq> None" by blast
  from f(2) detector_names [OF f(1)] have "f = detect_numeric" by blast
  with f3 show ?thesis by (auto simp: detect_numeric_def split: if_splits)
qed

end
