(* ===== verification/DT_Rows.thy ===== *)
theory DT_Rows
  imports DT_Paging DT_Columns
begin

text \<open>
  Rows of a table (public/js/plugins/dataTables/jquery.dataTables.js): reading them from the
  document (\<open>_fnGetRowElements\<close>), adding (\<open>_fnAddData\<close>, \<open>_fnAddTr\<close>, \<open>rows.add()\<close>), creating their
  elements (\<open>_fnCreateTr\<close>, \<open>_fnRowAttributes\<close>), invalidating (\<open>_fnInvalidateRow\<close>, \<open>row().data()\<close>),
  removing (\<open>_fnDeleteIndex\<close>, \<open>rows().remove()\<close>, \<open>_fnClearTable\<close>) and selecting them by index
  (\<open>_selector_opts\<close>, \<open>_selector_row_indexes\<close>).

  The position of a cell element in the document, \<open>DT_RowData\<close> (jQuery's data store) and the
  created-row and created-cell callbacks are not modelled.
\<close>

section \<open>Class lists\<close>

text \<open>jQuery's \<open>addClass\<close> and \<open>removeClass\<close> on a list of class names.\<close>

definition class_words :: "string \<Rightarrow> string list" where
  "class_words s = filter (\<lambda>w. w \<noteq> []) (split_on (CHR '' '') s)"

definition add_class :: "string list \<Rightarrow> string list \<Rightarrow> string list" where
  "add_class ws cs = fold (\<lambda>w cs. if w \<in> set cs then cs else cs @ [w]) ws cs"

definition remove_class :: "string list \<Rightarrow> string list \<Rightarrow> string list" where
  "remove_class ws cs = filter (\<lambda>c. c \<notin> set ws) cs"

section \<open>Reading a row from the document\<close>

text \<open>\<open>attr(str, data, td)\<close>: a source with an \<open>@\<close> names an attribute, \<open>null\<close> when it is absent.\<close>

definition after_at :: "string \<Rightarrow> string option" where
  "after_at s = (if CHR ''@'' \<in> set s then Some (tl (dropWhile (\<lambda>c. c \<noteq> CHR ''@'') s)) else None)"

definition row_attr :: "data_src \<Rightarrow> td \<Rightarrow> js_object \<Rightarrow> js_object" where
  "row_attr src td o' = (case src of
      SrcStr s \<Rightarrow> (case after_at s of
          Some a \<Rightarrow> AList.update (CHR ''@'' # a)
            (case map_of (td_attrs td) a of Some v \<Rightarrow> JStr v | None \<Rightarrow> JNull) o'
        | None \<Rightarrow> o')
    | _ \<Rightarrow> o')"

definition src_member :: "data_src \<Rightarrow> string \<Rightarrow> data_src" where
  "src_member m k = (case m of SrcObj kvs \<Rightarrow> (case map_of kvs k of Some v \<Rightarrow> v | None \<Rightarrow> SrcUndef) | _ \<Rightarrow> SrcUndef)"

definition cell_element :: "dt_column list \<Rightarrow> nat \<Rightarrow> td \<Rightarrow> jsval" where
  "cell_element columns i td =
    (let contents = js_trim (td_html td)
     in if i < length columns \<and> co_bAttrSrc (columns ! i)
        then (let m = co_mData (columns ! i)
              in JObj (row_attr (src_member m ''filter'') td
                   (row_attr (src_member m ''type'') td
                   (row_attr (src_member m ''sort'') td [(''display'', JStr contents)]))))
        else JStr contents)"

text \<open>\<open>_fnGetRowElements\<close> on the cells of the row\<close>

definition rowElements :: "settings \<Rightarrow> td list \<Rightarrow> jsval" where
  "rowElements s tds = JArr (map (\<lambda>(i, td). cell_element (st_columns s) i td) (enumerate 0 tds))"

section \<open>Creating the elements of a row\<close>

text \<open>\<open>_fnRowAttributes\<close> when \<open>nTr\<close> exists; \<open>split\<close> is a method of strings.\<close>

definition rowAttributes :: "dt_row \<Rightarrow> dt_row js_res" where
  "rowAttributes row = (if ro_cells row = None then Inr row else
    js_bind (js_prop (ro_data row) ''DT_RowId'') (\<lambda>rid.
    js_bind (js_prop (ro_data row) ''DT_RowClass'') (\<lambda>rc.
      (let row1 = (if js_not rid then row else row\<lparr>ro_trId := js_string rid\<rparr>)
       in if js_not rc then Inr row1
          else case rc of
              JStr c \<Rightarrow>
                (let a = split_on (CHR '' '') c;
                     rowc = (case ro_rowc row1 of Some w \<Rightarrow> dt_unique (w @ a) | None \<Rightarrow> a)
                 in Inr (row1\<lparr>ro_rowc := Some rowc,
                      ro_trClasses := add_class (class_words c) (remove_class rowc (ro_trClasses row1))\<rparr>))
            | _ \<Rightarrow> Inl TypeError))))"

text \<open>\<open>element.innerHTML = v\<close>\<close>

definition html_of :: "jsval \<Rightarrow> string" where
  "html_of v = (if v = JNull then '''' else js_string v)"

definition reads_index :: "data_src \<Rightarrow> nat \<Rightarrow> bool" where
  "reads_index m i = (case m of SrcInt n \<Rightarrow> n = int i | _ \<Rightarrow> False)"

text \<open>One column of \<open>_fnCreateTr\<close>; a given row without a cell for the column raises.\<close>

definition create_cell :: "settings \<Rightarrow> nat \<Rightarrow> td list option \<Rightarrow> nat \<Rightarrow> td js_res" where
  "create_cell s row tds i =
    (let c = st_columns s ! i
     in case tds of
          None \<Rightarrow> js_bind (cell_data s row i (Some ''display'')) (\<lambda>v.
            Inr \<lparr>td_html = html_of v, td_attrs = [(''class'', '' '' @ co_sClass c)]\<rparr>)
        | Some xs \<Rightarrow>
            if length xs \<le> i then Inl TypeError
            else (let td = xs ! i; cls = (case map_of (td_attrs td) ''class'' of Some v \<Rightarrow> v | None \<Rightarrow> '''');
                      mark = td\<lparr>td_attrs := AList.update ''class'' (cls @ '' '' @ co_sClass c) (td_attrs td)\<rparr>
                  in if \<not> falsy_src (co_mRender c) \<or> \<not> reads_index (co_mData c) i
                     then js_bind (cell_data s row i (Some ''display'')) (\<lambda>v. Inr (mark\<lparr>td_html := html_of v\<rparr>))
                     else Inr mark))"

text \<open>\<open>_fnCreateTr\<close>; the attributes of a given TR are its id and classes.\<close>

definition createTr :: "nat \<Rightarrow> (string \<times> string list \<times> td list) option \<Rightarrow> settings \<Rightarrow> settings js_res" where
  "createTr row tr s =
    (if length (st_data s) \<le> row then Inl TypeError
     else let r = st_data s ! row
     in if ro_cells r \<noteq> None then Inr s
        else let r1 = (case tr of
                 None \<Rightarrow> r\<lparr>ro_cells := Some [], ro_trId := '''', ro_trClasses := []\<rparr>
               | Some (i, cs, tds) \<Rightarrow> r\<lparr>ro_cells := Some [], ro_trId := i, ro_trClasses := cs\<rparr>)
        in js_bind (rowAttributes r1) (\<lambda>r2.
           js_bind (js_mapM (create_cell s row (map_option (snd \<circ> snd) tr)) [0..<length (st_columns s)]) (\<lambda>cells.
             Inr (s\<lparr>st_data := (st_data s)[row := r2\<lparr>ro_cells := Some cells\<rparr>]\<rparr>))))"

section \<open>Adding\<close>

definition new_row :: "jsval \<Rightarrow> row_src \<Rightarrow> dt_row" where
  "new_row d src = \<lparr>ro_data = d, ro_sort = None, ro_filter = None, ro_filterRow = '''', ro_cells = None,
     ro_stripe = '''', ro_trId = '''', ro_trClasses = [], ro_rowc = None, ro_src = src\<rparr>"

text \<open>The column loop of \<open>_fnAddData\<close> for a row given as a TR.\<close>

definition copy_cell :: "nat \<Rightarrow> nat \<Rightarrow> settings \<Rightarrow> settings js_res" where
  "copy_cell row i s = js_bind (cell_data s row i None) (\<lambda>v. set_cell_data s row i v)"

text \<open>\<open>_fnAddData\<close>: the index of the new row and the state\<close>

definition addData :: "jsval \<Rightarrow> (string \<times> string list \<times> td list) option \<Rightarrow> settings \<Rightarrow> (nat \<times> settings) js_res" where
  "addData d tr s =
    (let row = length (st_data s);
         s1 = s\<lparr>st_data := st_data s @ [new_row d (if tr = None then FromData else FromDom)]\<rparr>
     in js_bind (if tr = None then Inr s1 else js_foldM (copy_cell row) [0..<length (st_columns s)] s1) (\<lambda>s2.
        (let s3 = s2\<lparr>st_columns := map untyped (st_columns s2), st_master := st_master s2 @ [row]\<rparr>
         in if st_bDeferRender s3 then Inr (row, s3)
            else js_bind (createTr row tr s3) (\<lambda>s4. Inr (row, s4)))))"

text \<open>\<open>_fnAddTr\<close> for one row; more cells than columns are not represented.\<close>

definition addTr :: "string \<times> string list \<times> td list \<Rightarrow> settings \<Rightarrow> (nat \<times> settings) js_res" where
  "addTr tr s = (if length (st_columns s) < length (snd (snd tr)) then Inl Unsupported
     else addData (rowElements s (snd (snd tr))) (Some tr) s)"

datatype row_input = NewData jsval | NewTr "string \<times> string list \<times> td list"

text \<open>\<open>rows.add()\<close> on one table\<close>

fun rows_add :: "row_input list \<Rightarrow> settings \<Rightarrow> (nat list \<times> settings) js_res" where
  "rows_add [] s = Inr ([], s)"
| "rows_add (r # rs) s =
    js_bind (case r of NewData d \<Rightarrow> addData d None s | NewTr tr \<Rightarrow> addTr tr s) (\<lambda>(i, s1).
    js_bind (rows_add rs s1) (\<lambda>(is, s2). Inr (i # is, s2)))"

section \<open>Invalidating\<close>

text \<open>The cells in the TR of a row: those of the visible columns.\<close>

definition tr_children :: "settings \<Rightarrow> td list \<Rightarrow> td list" where
  "tr_children s cells = map snd (filter (\<lambda>(i, _). i < length (st_columns s) \<and> co_bVisible (st_columns s ! i)) (enumerate 0 cells))"

text \<open>\<open>_fnInvalidateRow(settings, row, src, column)\<close>\<close>

definition invalidate_row :: "nat \<Rightarrow> string option \<Rightarrow> nat option \<Rightarrow> settings \<Rightarrow> settings js_res" where
  "invalidate_row row src column s =
    (if length (st_data s) \<le> row then Inl TypeError
     else let r = st_data s ! row
     in js_bind
       (if src = Some ''dom'' \<or> ((falsy_string src \<or> src = Some ''auto'') \<and> ro_src r = FromDom)
        then (case ro_cells r of
            None \<Rightarrow> Inl TypeError
          | Some cells \<Rightarrow> Inr (r\<lparr>ro_data := rowElements s (tr_children s cells)\<rparr>))
        else (case ro_cells r of
            None \<Rightarrow> Inl TypeError
          | Some cells \<Rightarrow> js_bind (js_mapM (\<lambda>(i, td). js_bind (cell_data s row i (Some ''display''))
                (\<lambda>v. Inr (td\<lparr>td_html := html_of v\<rparr>))) (enumerate 0 cells)) (\<lambda>cells'.
              Inr (r\<lparr>ro_cells := Some cells'\<rparr>)))) (\<lambda>r1.
       (let cols = (case column of
              None \<Rightarrow> map untyped (st_columns s)
            | Some c \<Rightarrow> (st_columns s)[c := untyped (st_columns s ! c)])
        in if (case column of Some c \<Rightarrow> length (st_columns s) \<le> c | None \<Rightarrow> False) then Inl TypeError
           else js_bind (rowAttributes (r1\<lparr>ro_sort := None, ro_filter := None\<rparr>)) (\<lambda>r2.
             Inr (s\<lparr>st_data := (st_data s)[row := r2], st_columns := cols\<rparr>)))))"

text \<open>\<open>row().data(d)\<close> on a row\<close>

definition set_row_data :: "nat \<Rightarrow> jsval \<Rightarrow> settings \<Rightarrow> settings js_res" where
  "set_row_data row d s =
    (if length (st_data s) \<le> row then Inl TypeError
     else invalidate_row row (Some ''data'') None
       (s\<lparr>st_data := (st_data s)[row := (st_data s ! row)\<lparr>ro_data := d\<rparr>]\<rparr>))"

section \<open>Removing\<close>

definition clearTable :: "settings \<Rightarrow> settings" where
  "clearTable s = s\<lparr>st_data := [], st_master := [], st_display := []\<rparr>"

text \<open>\<open>_fnDeleteIndex\<close>, without and with its \<open>splice\<close> argument.\<close>

definition dec_above :: "nat \<Rightarrow> nat \<Rightarrow> nat" where
  "dec_above t x = (if x > t then x - 1 else x)"

definition last_index :: "nat \<Rightarrow> nat list \<Rightarrow> nat option" where
  "last_index t a = (if t \<in> set a then Some (length a - 1 - length (takeWhile (\<lambda>x. x \<noteq> t) (rev a))) else None)"

definition deleteIndex :: "nat \<Rightarrow> nat list \<Rightarrow> nat list" where
  "deleteIndex t a =
    (let b = map (dec_above t) a
     in case last_index t a of Some i \<Rightarrow> take i b @ drop (Suc i) b | None \<Rightarrow> b)"

definition keepIndex :: "nat \<Rightarrow> nat list \<Rightarrow> nat list" where
  "keepIndex t a = map (dec_above t) a"

text \<open>One round of \<open>rows().remove()\<close>\<close>

definition remove_row :: "nat \<Rightarrow> settings \<Rightarrow> settings" where
  "remove_row row s = lengthOverflow (s\<lparr>st_data := take row (st_data s) @ drop (Suc row) (st_data s),
     st_master := deleteIndex row (st_master s), st_display := deleteIndex row (st_display s)\<rparr>)"

text \<open>\<open>rows().remove()\<close> on one table: the later row indexes of the instance are adjusted in place.\<close>

function rows_remove :: "nat list \<Rightarrow> settings \<Rightarrow> settings" where
  "rows_remove [] s = s"
| "rows_remove (r # rs) s = rows_remove (keepIndex r rs) (remove_row r s)"
  by pat_completeness auto
termination by (relation "measure (\<lambda>(rs, s). length rs)") (auto simp: keepIndex_def)

section \<open>Selecting rows by index\<close>

record sel_opts =
  sl_search :: string
  sl_order :: string
  sl_page :: string

text \<open>\<open>_selector_opts\<close>; \<^const>\<open>None\<close> is an option not given.\<close>

definition selector_opts :: "string option \<Rightarrow> string option \<Rightarrow> string option \<Rightarrow> string option \<Rightarrow> sel_opts" where
  "selector_opts filt search order page =
    (let search' = (if \<not> falsy_string filt \<and> falsy_string search then filt else search)
     in \<lparr>sl_search = if falsy_string search' then ''none'' else the search',
         sl_order = if falsy_string order then ''current'' else the order,
         sl_page = if falsy_string page then ''all'' else the page\<rparr>)"

text \<open>\<open>_selector_row_indexes\<close>; a page reaching beyond the display list is not represented.\<close>

definition row_indexes :: "sel_opts \<Rightarrow> settings \<Rightarrow> nat list js_res" where
  "row_indexes opts s =
    (let displayFiltered = st_display s; displayMaster = st_master s
     in if sl_page opts = ''current'' then
          (if st_start s < 0 \<or> int (length displayFiltered) < displayEnd s then Inl Unsupported
           else Inr (map (nth displayFiltered) [nat (st_start s)..<nat (displayEnd s)]))
        else if sl_order opts = ''current'' \<or> sl_order opts = ''applied'' then
          Inr (if sl_search opts = ''none'' then displayMaster
               else if sl_search opts = ''applied'' then displayFiltered
               else filter (\<lambda>el. js_indexOf displayFiltered el = -1) displayMaster)
        else if sl_order opts = ''index'' \<or> sl_order opts = ''original'' then
          Inr (filter (\<lambda>i. if sl_search opts = ''none'' then True
                 else (let tmp = js_indexOf displayFiltered i
                       in (tmp = -1 \<and> sl_search opts = ''removed'') \<or> (tmp = 1 \<and> sl_search opts = ''applied'')))
               [0..<length (st_data s)])
        else Inr [])"

section \<open>Removing rows\<close>

text \<open>The row order and the rows shown name each row of the table at most once.\<close>

definition rows_ok :: "settings \<Rightarrow> bool" where
  "rows_ok s \<longleftrightarrow> distinct (st_master s) \<and> set (st_master s) = {0..<length (st_data s)} \<and>
     distinct (st_display s) \<and> set (st_display s) \<subseteq> {0..<length (st_data s)}"

lemma last_index_split: "t \<notin> set xs \<Longrightarrow> t \<notin> set ys \<Longrightarrow> last_index t (xs @ t # ys) = Some (length xs)"
proof -
  assume *: "t \<notin> set xs" "t \<notin> set ys"
  then have "takeWhile (\<lambda>x. x \<noteq> t) (rev ys @ t # rev xs) = rev ys" by (subst takeWhile_append2) auto
  then show ?thesis by (simp add: last_index_def)
qed

lemma filter_other: "t \<notin> set xs \<Longrightarrow> filter (\<lambda>x. x \<noteq> t) xs = xs"
  by (auto simp: filter_id_conv)

lemma deleteIndex_distinct:
  assumes "distinct a"
  shows "deleteIndex t a = map (dec_above t) (filter (\<lambda>x. x \<noteq> t) a)"
proof (cases "t \<in> set a")
  case True
  then obtain xs ys where a: "a = xs @ t # ys" by (auto dest: split_list)
  with assms have "t \<notin> set xs" "t \<notin> set ys" by auto
  then show ?thesis by (simp add: deleteIndex_def a last_index_split filter_other)
next
  case False
  then show ?thesis by (simp add: deleteIndex_def last_index_def filter_other)
qed

lemma lengthOverflow_fields [simp]:
  "st_data (lengthOverflow s) = st_data s" "st_master (lengthOverflow s) = st_master s"
  "st_display (lengthOverflow s) = st_display s" "st_columns (lengthOverflow s) = st_columns s"
  "st_length (lengthOverflow s) = st_length s"
  by (simp_all add: lengthOverflow_def Let_def)

lemma dec_above_inj: "inj_on (dec_above r) (- {r})"
  by (auto simp: inj_on_def dec_above_def split: if_splits)

lemma dec_above_less: "i < n \<Longrightarrow> i \<noteq> r \<Longrightarrow> r < n \<Longrightarrow> dec_above r i < n - 1"
  by (auto simp: dec_above_def)

lemma nth_removed: "r < length d \<Longrightarrow> i < length d \<Longrightarrow> i \<noteq> r \<Longrightarrow> (take r d @ drop (Suc r) d) ! dec_above r i = d ! i"
  by (auto simp: dec_above_def nth_append min_def)

lemma dec_above_image: "r < n \<Longrightarrow> dec_above r ` ({0..<n} - {r}) = {0..<n - 1}"
proof -
  assume r: "r < n"
  have "x \<in> dec_above r ` ({0..<n} - {r})" if "x < n - 1" for x
    using that r by (intro image_eqI [of _ _ "if x < r then x else Suc x"]) (auto simp: dec_above_def)
  then have "{0..<n - 1} \<subseteq> dec_above r ` ({0..<n} - {r})" by (meson atLeastLessThan_iff subsetI)
  moreover have "dec_above r ` ({0..<n} - {r}) \<subseteq> {0..<n - 1}"
  proof (rule image_subsetI)
    fix i assume "i \<in> {0..<n} - {r}"
    then show "dec_above r i \<in> {0..<n - 1}" using dec_above_less [of i n r] r by simp
  qed
  ultimately show ?thesis by (rule equalityI [rotated])
qed

lemma dec_above_mem: "i \<noteq> r \<Longrightarrow> r \<notin> set rs \<Longrightarrow> dec_above r i \<in> dec_above r ` set rs \<longleftrightarrow> i \<in> set rs"
  using dec_above_inj [of r] by (auto simp: inj_on_def)

lemma remove_row_step:
  assumes ok: "rows_ok s" and r: "r < length (st_data s)"
  shows "rows_ok (remove_row r s)" "length (st_data (remove_row r s)) = length (st_data s) - 1"
    "st_master (remove_row r s) = map (dec_above r) (filter (\<lambda>x. x \<noteq> r) (st_master s))"
    "st_display (remove_row r s) = map (dec_above r) (filter (\<lambda>x. x \<noteq> r) (st_display s))"
    "i < length (st_data s) \<Longrightarrow> i \<noteq> r \<Longrightarrow> st_data (remove_row r s) ! dec_above r i = st_data s ! i"
proof -
  show m: "st_master (remove_row r s) = map (dec_above r) (filter (\<lambda>x. x \<noteq> r) (st_master s))"
    and d: "st_display (remove_row r s) = map (dec_above r) (filter (\<lambda>x. x \<noteq> r) (st_display s))"
    using ok by (simp_all add: remove_row_def rows_ok_def deleteIndex_distinct)
  show l: "length (st_data (remove_row r s)) = length (st_data s) - 1"
    using r by (simp add: remove_row_def)
  show "i < length (st_data s) \<Longrightarrow> i \<noteq> r \<Longrightarrow> st_data (remove_row r s) ! dec_above r i = st_data s ! i"
    using nth_removed [OF r] by (simp add: remove_row_def)
  have inj: "distinct xs \<Longrightarrow> distinct (map (dec_above r) (filter (\<lambda>x. x \<noteq> r) xs))" for xs
    by (auto simp: distinct_map intro: inj_on_subset [OF dec_above_inj])
  have "set (st_master (remove_row r s)) = dec_above r ` ({0..<length (st_data s)} - {r})"
    using ok by (auto simp: m rows_ok_def)
  then have "set (st_master (remove_row r s)) = {0..<length (st_data s) - 1}"
    by (simp only: dec_above_image [OF r])
  moreover have "set (st_display (remove_row r s)) \<subseteq> {0..<length (st_data s) - 1}"
  proof
    fix x assume "x \<in> set (st_display (remove_row r s))"
    then obtain i where "x = dec_above r i" "i \<noteq> r" "i < length (st_data s)" using ok by (auto simp: d rows_ok_def)
    with dec_above_less r show "x \<in> {0..<length (st_data s) - 1}" by auto
  qed
  ultimately show "rows_ok (remove_row r s)"
    using ok inj by (auto simp: rows_ok_def l m d)
qed

lemma rows_remove_kept:
  assumes "rows_ok s" "distinct rs" "set rs \<subseteq> {0..<length (st_data s)}"
  shows "rows_ok (rows_remove rs s) \<and> length (st_data (rows_remove rs s)) = length (st_data s) - length rs \<and>
    map (nth (st_data (rows_remove rs s))) (st_master (rows_remove rs s))
      = map (nth (st_data s)) (filter (\<lambda>i. i \<notin> set rs) (st_master s)) \<and>
    map (nth (st_data (rows_remove rs s))) (st_display (rows_remove rs s))
      = map (nth (st_data s)) (filter (\<lambda>i. i \<notin> set rs) (st_display s))"
  using assms
proof (induction rs s rule: rows_remove.induct)
  case (1 s)
  then show ?case by simp
next
  case (2 r rs s)
  let ?s1 = "remove_row r s" and ?rs1 = "keepIndex r rs"
  have r: "r < length (st_data s)" "r \<notin> set rs" "distinct rs" using "2.prems" by auto
  note step = remove_row_step [OF "2.prems"(1) r(1)]
  have ds: "distinct ?rs1"
    using r by (auto simp: keepIndex_def distinct_map intro: inj_on_subset [OF dec_above_inj])
  have sub: "set ?rs1 \<subseteq> {0..<length (st_data ?s1)}"
    using "2.prems"(3) r dec_above_less [of _ "length (st_data s)" r] by (force simp: keepIndex_def step(2))
  have view: "map (nth (st_data ?s1)) (filter (\<lambda>i. i \<notin> set ?rs1) (map (dec_above r) (filter (\<lambda>x. x \<noteq> r) xs)))
      = map (nth (st_data s)) (filter (\<lambda>i. i \<notin> set (r # rs)) xs)" if "set xs \<subseteq> {0..<length (st_data s)}" for xs
    using that r step(5) by (induction xs) (auto simp: keepIndex_def dec_above_mem)
  have m: "set (st_master s) \<subseteq> {0..<length (st_data s)}" "set (st_display s) \<subseteq> {0..<length (st_data s)}"
    using "2.prems"(1) by (simp_all add: rows_ok_def)
  have "length rs < length (st_data s)"
    using card_mono [OF _ "2.prems"(3)] r by (simp add: distinct_card)
  then show ?case
    using "2.IH" [OF step(1) ds sub] view [OF m(1)] view [OF m(2)] step(2)
    by (simp add: step(3,4) keepIndex_def)
qed

text \<open>removing distinct rows of a table keeps its row order consistent, deletes exactly those
  rows, and leaves the other rows in the table and on display in the order they had, although the
  indexes of the rows and of the rows still to be removed change with every removal.\<close>

theorem removing_rows_keeps_others:
  assumes "rows_ok s" "distinct rs" "set rs \<subseteq> {0..<length (st_data s)}"
  shows "rows_ok (rows_remove rs s) \<and> length (st_data (rows_remove rs s)) = length (st_data s) - length rs \<and>
    map (nth (st_data (rows_remove rs s))) (st_master (rows_remove rs s))
      = map (nth (st_data s)) (filter (\<lambda>i. i \<notin> set rs) (st_master s)) \<and>
    map (nth (st_data (rows_remove rs s))) (st_display (rows_remove rs s))
      = map (nth (st_data s)) (filter (\<lambda>i. i \<notin> set rs) (st_display s))"
  by (rule rows_remove_kept [OF assms])

definition abc :: settings where
  "abc = small_table 1 [[JStr ''a''], [JStr ''b''], [JStr ''c'']]"

lemma abc_ok: "rows_ok abc" "length (st_data abc) = 3" "st_master abc = [0, 1, 2]" "st_display abc = [0, 1, 2]"
  "st_data abc ! 2 = plain_row [JStr ''c'']"
  by (auto simp: rows_ok_def abc_def small_table_def)

theorem removing_rows_keeps_others_witness:
  "map ro_data (map (nth (st_data (rows_remove [1, 0] abc))) (st_master (rows_remove [1, 0] abc))) = [JArr [JStr ''c'']]"
  using removing_rows_keeps_others [OF abc_ok(1), of "[1, 0]"] by (simp add: abc_ok plain_row_def)

text \<open>a row selected twice, as by the selector \<open>['0', '0']\<close>, is not removed once: the row that
  takes its place is removed as well.\<close>

theorem removing_twice_loses_next:
  assumes "rows_ok s" "Suc r < length (st_data s)"
  shows "length (st_data (rows_remove [r, r] s)) = length (st_data s) - 2 \<and>
    st_data (rows_remove [r, r] s) = take r (st_data s) @ drop (r + 2) (st_data s)"
  using assms by (simp add: remove_row_def keepIndex_def dec_above_def)

theorem removing_twice_loses_next_witness:
  "map ro_data (st_data (rows_remove [0, 0] abc)) = [JArr [JStr ''c'']]"
  using removing_twice_loses_next [OF abc_ok(1), of 0] by (simp add: abc_ok abc_def small_table_def plain_row_def)

section \<open>Adding, selecting and invalidating rows\<close>

lemma copy_cell_frame:
  "copy_cell row i s = Inr t \<Longrightarrow> row < length (st_data s) \<Longrightarrow>
    \<exists>d. t = s\<lparr>st_data := (st_data s)[row := (st_data s ! row)\<lparr>ro_data := d\<rparr>]\<rparr>"
  by (auto simp: copy_cell_def set_cell_data_def js_bind_Inr_iff split: if_splits)

lemma copy_cells_frame:
  "js_foldM (copy_cell row) is s = Inr t \<Longrightarrow> row < length (st_data s) \<Longrightarrow>
    \<exists>d. t = s\<lparr>st_data := (st_data s)[row := (st_data s ! row)\<lparr>ro_data := d\<rparr>]\<rparr>"
proof (induction "is" arbitrary: s)
  case Nil
  then show ?case by (intro exI [of _ "ro_data (st_data s ! row)"]) simp
next
  case (Cons i "is")
  from Cons.prems obtain u where u: "copy_cell row i s = Inr u" "js_foldM (copy_cell row) is u = Inr t"
    by (auto simp: js_bind_Inr_iff)
  obtain d where d: "u = s\<lparr>st_data := (st_data s)[row := (st_data s ! row)\<lparr>ro_data := d\<rparr>]\<rparr>"
    using copy_cell_frame [OF u(1) Cons.prems(2)] by blast
  have "row < length (st_data u)" using Cons.prems(2) by (simp add: d)
  with Cons.IH [OF u(2)] Cons.prems(2) show ?case by (auto simp: d)
qed

lemma createTr_frame:
  "createTr row tr s = Inr t \<Longrightarrow> \<exists>r. t = s\<lparr>st_data := (st_data s)[row := r]\<rparr>"
  by (auto simp: createTr_def js_bind_Inr_iff Let_def split: if_splits
      intro: exI [of _ "st_data s ! row"])

lemma createTr_length: "createTr row tr s = Inr t \<Longrightarrow> length (st_data t) = length (st_data s)"
  by (auto dest: createTr_frame)

text \<open>Adding a row appends it to the table and to the row order, keeps the other rows with their
  caches, and makes every column's type unknown.\<close>

lemma addData_frame:
  assumes "addData d tr s = Inr (i, t)"
  shows "i = length (st_data s)" "length (st_data t) = Suc i" "take i (st_data t) = st_data s"
    "st_master t = st_master s @ [i]" "st_display t = st_display s" "st_columns t = map untyped (st_columns s)"
    "st_start t = st_start s" "st_length t = st_length s" "dataSource t = dataSource s" "st_initStart t = st_initStart s"
proof -
  let ?row = "length (st_data s)"
  let ?s1 = "s\<lparr>st_data := st_data s @ [new_row d (if tr = None then FromData else FromDom)]\<rparr>"
  obtain u where u: "(if tr = None then Inr ?s1 else js_foldM (copy_cell ?row) [0..<length (st_columns s)] ?s1) = Inr u"
    and rest: "(let s3 = u\<lparr>st_columns := map untyped (st_columns u), st_master := st_master u @ [?row]\<rparr>
         in if st_bDeferRender s3 then Inr (?row, s3)
            else js_bind (createTr ?row tr s3) (\<lambda>s4. Inr (?row, s4))) = Inr (i, t)"
    using assms by (auto simp: addData_def Let_def js_bind_Inr_iff simp del: js_foldM.simps split: if_splits)
  have "\<exists>r. u = s\<lparr>st_data := st_data s @ [r]\<rparr>"
    using u copy_cells_frame [of ?row _ ?s1 u] by (auto split: if_splits)
  then obtain r where r: "u = s\<lparr>st_data := st_data s @ [r]\<rparr>" by blast
  have "i = ?row \<and> (\<exists>r'. st_data t = st_data s @ [r']) \<and> st_columns t = map untyped (st_columns s) \<and>
      st_master t = st_master s @ [?row] \<and> st_display t = st_display s \<and> st_start t = st_start s \<and>
      st_length t = st_length s \<and> dataSource t = dataSource s \<and> st_initStart t = st_initStart s"
    using rest by (auto simp: dataSource_def r Let_def js_bind_Inr_iff dest!: createTr_frame split: if_splits)
  then show "i = length (st_data s)" "length (st_data t) = Suc i" "take i (st_data t) = st_data s"
    "st_master t = st_master s @ [i]" "st_display t = st_display s" "st_columns t = map untyped (st_columns s)"
    "st_start t = st_start s" "st_length t = st_length s" "dataSource t = dataSource s" "st_initStart t = st_initStart s"
    by auto
qed

lemma addData_ok: "rows_ok s \<Longrightarrow> addData d tr s = Inr (i, t) \<Longrightarrow> rows_ok t"
  using addData_frame [of d tr s i t] by (auto simp: rows_ok_def)

lemma rows_add_ok: "rows_ok s \<Longrightarrow> rows_add rs s = Inr (is, t) \<Longrightarrow> rows_ok t"
proof (induction rs arbitrary: s "is")
  case (Cons r rs)
  from Cons.prems(2) obtain i u js where "(case r of NewData d \<Rightarrow> addData d None s | NewTr tr \<Rightarrow> addTr tr s) = Inr (i, u)"
    "rows_add rs u = Inr (js, t)"
    by (auto simp: js_bind_Inr_iff split: prod.splits)
  moreover from this(1) have "rows_ok u"
    using addData_ok [OF Cons.prems(1)] by (cases r) (auto simp: addTr_def split: if_splits)
  ultimately show ?case using Cons.IH by blast
qed simp

lemma clearTable_ok: "rows_ok (clearTable s)"
  by (simp add: rows_ok_def clearTable_def)

lemma invalidate_frame:
  "invalidate_row row src col s = Inr t \<Longrightarrow>
    \<exists>r cs. t = s\<lparr>st_data := (st_data s)[row := r], st_columns := cs\<rparr>"
  by (auto simp: invalidate_row_def js_bind_Inr_iff Let_def split: if_splits option.splits)

lemma invalidate_ok: "rows_ok s \<Longrightarrow> invalidate_row row src col s = Inr t \<Longrightarrow> rows_ok t"
  by (auto dest!: invalidate_frame simp: rows_ok_def)

text \<open>new data or invalidation of a row whose elements do not exist yet (rendering is
  deferred, and the row was never on the page) raises a TypeError, whatever the source named.\<close>

theorem undrawn_row_raises:
  assumes "row < length (st_data s)" "ro_cells (st_data s ! row) = None"
  shows "set_row_data row d s = Inl TypeError \<and> invalidate_row row src col s = Inl TypeError"
  using assms by (simp add: set_row_data_def invalidate_row_def Let_def split: if_splits)

definition deferred :: settings where
  "deferred = abc\<lparr>st_data := map (\<lambda>r. r\<lparr>ro_cells := None\<rparr>) (st_data abc)\<rparr>"

theorem undrawn_row_raises_witness: "set_row_data 2 (JArr [JStr ''z'']) deferred = Inl TypeError"
  using undrawn_row_raises [of 2 deferred] by (simp add: deferred_def abc_ok)

lemma js_indexOf_one: "distinct xs \<Longrightarrow> js_indexOf xs x = 1 \<longleftrightarrow> 1 < length xs \<and> xs ! 1 = x"
  using js_indexOf_present [of x xs] js_indexOf_absent [of x xs]
  by (cases "x \<in> set xs") (auto simp: nth_eq_iff_index_eq)

lemma filter_upt_eq: "a < n \<Longrightarrow> filter ((=) a) [0..<n] = [a]"
  by (induction n) (auto simp: filter_empty_conv less_Suc_eq)

text \<open>rows in index order with the search applied are not the rows the search shows: of those,
  only the one in second position is selected.\<close>

theorem index_order_selects_second:
  assumes "rows_ok s" "sl_page o1 \<noteq> ''current''" "sl_order o1 \<in> {''index'', ''original''}" "sl_search o1 = ''applied''"
  shows "row_indexes o1 s = Inr (if 1 < length (st_display s) then [st_display s ! 1] else []) \<and>
    row_indexes (o1\<lparr>sl_order := ''current''\<rparr>) s = Inr (st_display s)"
proof -
  have d: "distinct (st_display s)" using assms(1) by (simp add: rows_ok_def)
  have "filter (\<lambda>i. 1 < length (st_display s) \<and> st_display s ! 1 = i) [0..<length (st_data s)]
      = (if 1 < length (st_display s) then [st_display s ! 1] else [])"
  proof (cases "1 < length (st_display s)")
    case True
    then have "st_display s ! 1 < length (st_data s)" using assms(1) nth_mem by (fastforce simp: rows_ok_def)
    then have "filter (\<lambda>i. st_display s ! 1 = i) [0..<length (st_data s)] = [st_display s ! 1]"
      by (rule filter_upt_eq)
    with True show ?thesis by simp
  qed simp
  with assms(2-4) show ?thesis
    by (auto simp: row_indexes_def Let_def js_indexOf_one [OF d] simp del: One_nat_def)
qed

theorem index_order_selects_second_witness:
  "row_indexes (selector_opts None (Some ''applied'') (Some ''index'') None) abc = Inr [1] \<and>
    row_indexes (selector_opts None (Some ''applied'') None None) abc = Inr [0, 1, 2]"
  using index_order_selects_second [OF abc_ok(1), of "selector_opts None (Some ''applied'') (Some ''index'') None"]
  by (simp add: selector_opts_def falsy_string_def abc_ok)

lemma enumerate_upt: "enumerate 0 xs = map (\<lambda>i. (i, xs ! i)) [0..<length xs]"
  by (rule nth_equalityI) (simp_all add: nth_enumerate_eq)

lemma tr_children_visible:
  assumes "length cells = length (st_columns s)"
  shows "tr_children s cells = map (nth cells) (get_columns s co_bVisible)"
proof -
  have "filter (\<lambda>i. i < length (st_columns s) \<and> co_bVisible (st_columns s ! i)) [0..<length cells]
      = get_columns s co_bVisible"
    unfolding get_columns_def assms by (rule filter_cong) auto
  then show ?thesis
    unfolding tr_children_def enumerate_upt filter_map map_map by (simp add: o_def)
qed

lemma rowElements_plain:
  "list_all (\<lambda>c. \<not> co_bAttrSrc c) (st_columns s) \<Longrightarrow> rowElements s tds = JArr (map (\<lambda>td. JStr (js_trim (td_html td))) tds)"
  by (auto simp: rowElements_def cell_element_def Let_def enumerate_upt list_all_length intro: nth_equalityI)

text \<open>invalidating a row read from the document reads back the cells that are in its TR, and those
  are the cells of the visible columns: with a hidden column every later value moves one column to
  the left in the row's data.\<close>

theorem invalidate_reads_visible:
  assumes "row < length (st_data s)" "ro_src (st_data s ! row) = FromDom" "ro_cells (st_data s ! row) = Some cells"
    and "length cells = length (st_columns s)" "list_all (\<lambda>c. \<not> co_bAttrSrc c) (st_columns s)"
  shows "\<exists>t. invalidate_row row None None s = Inr t \<and>
    ro_data (st_data t ! row) = JArr (map (\<lambda>i. JStr (js_trim (td_html (cells ! i)))) (get_columns s co_bVisible)) \<and>
    ro_sort (st_data t ! row) = None \<and> ro_filter (st_data t ! row) = None"
  using assms
  by (auto simp: invalidate_row_def falsy_string_def rowElements_plain tr_children_visible rowAttributes_def
      index_of_key_def is_digit_def Let_def o_def)

definition hidden_first :: settings where
  "hidden_first = (small_table 2 [[JStr ''a'', JStr ''b'']])\<lparr>
     st_columns := [(plain_column 0)\<lparr>co_bVisible := False\<rparr>, plain_column 1],
     st_data := [(plain_row [JStr ''a'', JStr ''b''])\<lparr>ro_src := FromDom\<rparr>]\<rparr>"

theorem invalidate_reads_visible_witness:
  "\<exists>t. invalidate_row 0 None None hidden_first = Inr t \<and> ro_data (st_data t ! 0) = JArr [JStr ''b'']"
proof -
  let ?cells = "map (\<lambda>v. \<lparr>td_html = js_string v, td_attrs = []\<rparr>) [JStr ''a'', JStr ''b'']"
  have "length (st_columns hidden_first) = 2" "get_columns hidden_first co_bVisible = [1]"
    "st_data hidden_first = [(plain_row [JStr ''a'', JStr ''b''])\<lparr>ro_src := FromDom\<rparr>]"
    "list_all (\<lambda>c. \<not> co_bAttrSrc c) (st_columns hidden_first)" "js_trim ''b'' = ''b''"
    by (simp_all add: hidden_first_def get_columns_def plain_column_def upt_rec)
       (simp add: js_trim_def js_space_def)
  with invalidate_reads_visible [of 0 hidden_first ?cells] show ?thesis
    by (auto simp: plain_row_def)
qed

end
