(* ===== verification/DT_Regex.thy ===== *)
theory DT_Regex
  imports DT_Util
begin

text \<open>
  The regular expressions the table search builds (\<open>_fnEscapeRegex\<close> and
  \<open>_fnFilterCreateSearch\<close> of public/js/plugins/dataTables/jquery.dataTables.js, lines 2749 to
  2785), and what they match.  The JavaScript syntax modelled is: literals, escaped
  punctuation, \<open>.\<close>, \<open>.*\<close>, \<open>.*?\<close>, \<open>^\<close>, \<open>$\<close>, \<open>|\<close> and \<open>(?=...)\<close>; a user's own pattern outside
  of it gives no matcher.  The flag \<open>i\<close> compares ASCII letters.
\<close>

section \<open>Syntax\<close>

datatype re_item = Chr char | Dot | DotStar | Bol | Eol | Look "re_item list list"

definition re_alnum :: "char \<Rightarrow> bool" where
  "re_alnum c \<longleftrightarrow> is_digit c \<or> (65 \<le> (of_char c :: nat) \<and> (of_char c :: nat) \<le> 90) \<or>
     (97 \<le> (of_char c :: nat) \<and> (of_char c :: nat) \<le> 122)"

text \<open>One token, and the rest of the pattern.\<close>

datatype re_tok = TEnd | TClose | TBar | TLook | TItem re_item | TBad

definition re_token :: "string \<Rightarrow> re_tok \<times> string" where
  "re_token s = (case s of
      [] \<Rightarrow> (TEnd, [])
    | c # r \<Rightarrow>
        if c = CHR '')'' then (TClose, r)
        else if c = CHR ''|'' then (TBar, r)
        else if c = CHR ''('' then (if take 2 r = ''?='' then (TLook, drop 2 r) else (TBad, r))
        else if c = CHR ''.'' then
          (if take 2 r = ''*?'' then (TItem DotStar, drop 2 r)
           else if take 1 r = ''*'' then (TItem DotStar, drop 1 r)
           else (TItem Dot, r))
        else if c = CHR ''^'' then (TItem Bol, r)
        else if c = CHR ''$'' then (TItem Eol, r)
        else if c = CHR 0x5C then
          (case r of d # r' \<Rightarrow> if re_alnum d then (TBad, r) else (TItem (Chr d), r') | [] \<Rightarrow> (TBad, r))
        else if c \<in> set ''*+?[]{}'' then (TBad, r)
        else (TItem (Chr c), r))"

text \<open>
  The alternatives of a pattern up to its end or a closing parenthesis; \<open>acc\<close> holds the
  items read so far, newest first.  Every token uses up one unit of fuel.
\<close>

fun re_parse :: "nat \<Rightarrow> re_item list \<Rightarrow> string \<Rightarrow> (re_item list list \<times> string) option" where
  "re_parse 0 acc s = None"
| "re_parse (Suc n) acc s = (case re_token s of
      (TEnd, r) \<Rightarrow> Some ([rev acc], s)
    | (TClose, r) \<Rightarrow> Some ([rev acc], s)
    | (TBar, r) \<Rightarrow> map_option (\<lambda>(as, rest). (rev acc # as, rest)) (re_parse n [] r)
    | (TLook, r) \<Rightarrow>
        (case re_parse n [] r of
           Some (as, d # rest) \<Rightarrow> if d = CHR '')'' then re_parse n (Look as # acc) rest else None
         | _ \<Rightarrow> None)
    | (TItem it, r) \<Rightarrow> re_parse n (it # acc) r
    | (TBad, r) \<Rightarrow> None)"

definition re_compile :: "string \<Rightarrow> re_item list list option" where
  "re_compile p = (case re_parse (Suc (length p)) [] p of Some (as, []) \<Rightarrow> Some as | _ \<Rightarrow> None)"

section \<open>Matching\<close>

definition chr_eq :: "bool \<Rightarrow> char \<Rightarrow> char \<Rightarrow> bool" where
  "chr_eq ic c d \<longleftrightarrow> (if ic then to_lower c = to_lower d else c = d)"

lemma list_ex_cong [fundef_cong]:
  "xs = ys \<Longrightarrow> (\<And>x. x \<in> set ys \<Longrightarrow> f x = g x) \<Longrightarrow> list_ex f xs = list_ex g ys"
  by (induction xs arbitrary: ys) auto

lemma size_member_less: "a \<in> set as \<Longrightarrow> size_list size a < size_list (size_list size) as"
  by (induction as) auto

function re_match :: "bool \<Rightarrow> string \<Rightarrow> re_item list \<Rightarrow> nat \<Rightarrow> bool" where
  "re_match ic s [] i = True"
| "re_match ic s (Chr c # is) i = (i < length s \<and> chr_eq ic c (s ! i) \<and> re_match ic s is (Suc i))"
| "re_match ic s (Dot # is) i = (i < length s \<and> \<not> line_end (s ! i) \<and> re_match ic s is (Suc i))"
| "re_match ic s (DotStar # is) i =
    (if re_match ic s is i then True
     else if i < length s \<and> \<not> line_end (s ! i) then re_match ic s (DotStar # is) (Suc i) else False)"
| "re_match ic s (Bol # is) i = (i = 0 \<and> re_match ic s is i)"
| "re_match ic s (Eol # is) i = (i = length s \<and> re_match ic s is i)"
| "re_match ic s (Look as # is) i = (list_ex (\<lambda>a. re_match ic s a i) as \<and> re_match ic s is i)"
  by pat_completeness auto

termination
  by (relation "measures [\<lambda>(ic, s, is, i). size_list size is, \<lambda>(ic, s, is, i). length s - i]")
    (auto dest: size_member_less)

text \<open>\<open>regexp.test(s)\<close>\<close>

definition re_test :: "bool \<Rightarrow> re_item list list \<Rightarrow> string \<Rightarrow> bool" where
  "re_test ic as s = list_ex (\<lambda>i. list_ex (\<lambda>a. re_match ic s a i) as) [0..<Suc (length s)]"

section \<open>Building a search\<close>

definition escape_chars :: string where
  "escape_chars = ''/.*+?|()[]{}'' @ [CHR 0x5C] @ ''$^-''"

definition escapeRegex :: "string \<Rightarrow> string" where
  "escapeRegex s = concat (map (\<lambda>c. if c \<in> set escape_chars then [CHR 0x5C, c] else [c]) s)"

text \<open>\<open>_fnFilterCreateSearch\<close>: the pattern and the flag given to \<open>RegExp\<close>.\<close>

definition search_pattern :: "string \<Rightarrow> bool \<Rightarrow> bool \<Rightarrow> string" where
  "search_pattern sSearch bRegex bSmart =
    (let p = (if bRegex then sSearch else escapeRegex sSearch)
     in if bSmart then ''^(?=.*?'' @ js_join '')(?=.*?'' (split_on (CHR '' '') p) @ '').*$'' else p)"

definition createSearch :: "string \<Rightarrow> bool \<Rightarrow> bool \<Rightarrow> bool \<Rightarrow> (string \<Rightarrow> bool) js_res" where
  "createSearch sSearch bRegex bSmart bCaseInsensitive =
    (case re_compile (search_pattern sSearch bRegex bSmart) of
       None \<Rightarrow> Inl Unsupported
     | Some as \<Rightarrow> Inr (re_test bCaseInsensitive as))"

section \<open>What a search without a regular expression matches\<close>

text \<open>The word \<open>w\<close> occurs at position \<open>i\<close>, and somewhere.\<close>

fun occurs_at :: "bool \<Rightarrow> string \<Rightarrow> string \<Rightarrow> nat \<Rightarrow> bool" where
  "occurs_at ic s [] i = True"
| "occurs_at ic s (c # w) i = (i < length s \<and> chr_eq ic c (s ! i) \<and> occurs_at ic s w (Suc i))"

definition occurs :: "bool \<Rightarrow> string \<Rightarrow> string \<Rightarrow> bool" where
  "occurs ic w s \<longleftrightarrow> (\<exists>i \<le> length s. occurs_at ic s w i)"

lemma occurs_code [code]: "occurs ic w s = list_ex (occurs_at ic s w) [0..<Suc (length s)]"
  by (auto simp: occurs_def list_ex_iff less_Suc_eq_le simp del: upt_Suc)

definition one_line :: "string \<Rightarrow> bool" where
  "one_line s \<longleftrightarrow> (\<forall>c \<in> set s. \<not> line_end c)"

lemma re_parse_mono: "re_parse n acc s = Some x \<Longrightarrow> n \<le> m \<Longrightarrow> re_parse m acc s = Some x"
proof (induction n acc s arbitrary: m x rule: re_parse.induct)
  case (2 n acc s)
  from "2.prems"(2) obtain k where m: "m = Suc k" "n \<le> k" by (cases m) simp_all
  obtain tok r where tok: "re_token s = (tok, r)" by fastforce
  show ?case
  proof (cases tok)
    case TLook
    with "2.prems"(1) tok obtain as rest where a: "re_parse n [] r = Some (as, CHR '')'' # rest)"
      "re_parse n (Look as # acc) rest = Some x"
      by (auto split: option.splits list.splits if_splits)
    have "re_parse k [] r = Some (as, CHR '')'' # rest)"
      by (rule "2.IH"(2) [OF tok [symmetric] TLook a(1) m(2)])
    moreover have "re_parse k (Look as # acc) rest = Some x"
      by (rule "2.IH"(3) [OF tok [symmetric] TLook a(1) _ _ _ a(2) m(2)]) simp_all
    ultimately show ?thesis using tok TLook m(1) by simp
  next
    case TBar
    with "2.prems"(1) tok obtain y where y: "re_parse n [] r = Some y" "x = (rev acc # fst y, snd y)"
      by (auto simp: case_prod_beta)
    have "re_parse k [] r = Some y" by (rule "2.IH"(1) [OF tok [symmetric] TBar y(1) m(2)])
    with y tok TBar m(1) show ?thesis by (auto simp: case_prod_beta)
  next
    case (TItem it)
    with "2.prems"(1) tok have "re_parse n (it # acc) r = Some x" by simp
    then have "re_parse k (it # acc) r = Some x" by (rule "2.IH"(4) [OF tok [symmetric] TItem _ m(2)])
    with tok TItem m(1) show ?thesis by simp
  qed (use "2.prems" tok m in simp_all)
qed simp

definition esc :: "char \<Rightarrow> string" where
  "esc c = (if c \<in> set escape_chars then [CHR 0x5C, c] else [c])"

lemma escapeRegex_Cons: "escapeRegex (c # w) = esc c @ escapeRegex w" "escapeRegex [] = []"
  by (simp_all add: escapeRegex_def esc_def)

lemma re_token_esc: "re_token (esc c @ rest) = (TItem (Chr c), rest)"
proof (cases "c \<in> set escape_chars")
  case True
  have "list_all (\<lambda>c. \<not> re_alnum c) escape_chars" by code_simp
  with True have "\<not> re_alnum c" by (simp add: list_all_iff)
  with True show ?thesis by (simp add: esc_def re_token_def)
next
  case False
  then show ?thesis by (simp add: esc_def re_token_def escape_chars_def)
qed

lemma re_parse_escape:
  "re_parse m (rev (map Chr w) @ acc) rest = Some x \<Longrightarrow> m + length w \<le> n \<Longrightarrow>
    re_parse n acc (escapeRegex w @ rest) = Some x"
proof (induction w arbitrary: acc n)
  case Nil
  then have "re_parse m acc rest = Some x" "m \<le> n" by simp_all
  then show ?case unfolding escapeRegex_Cons append_Nil by (rule re_parse_mono)
next
  case (Cons c w)
  then obtain k where n: "n = Suc k" "m + length w \<le> k" by (cases n) auto
  have "re_parse k (Chr c # acc) (escapeRegex w @ rest) = Some x"
    using Cons.prems(1) n(2) by (intro Cons.IH) simp_all
  with n(1) show ?case by (simp add: escapeRegex_Cons re_token_esc)
qed

lemma split_on_Cons:
  "x \<noteq> c \<Longrightarrow> split_on c (x # xs) = (x # hd (split_on c xs)) # tl (split_on c xs)"
  using split_on_nonempty [of c xs] by (cases "split_on c xs") auto

lemma split_escape: "split_on (CHR '' '') (escapeRegex s) = map escapeRegex (split_on (CHR '' '') s)"
proof (induction s)
  case (Cons a s)
  obtain y ys where y: "split_on (CHR '' '') s = y # ys" by (meson neq_Nil_conv split_on_nonempty)
  show ?case
  proof (cases "a = CHR '' ''")
    case True
    with Cons show ?thesis by (simp add: escapeRegex_Cons esc_def escape_chars_def)
  next
    case False
    with Cons y show ?thesis by (simp add: escapeRegex_Cons esc_def)
  qed
qed (simp add: escapeRegex_Cons)

definition looks :: "string list \<Rightarrow> string" where
  "looks ws = concat (map (\<lambda>w. ''(?=.*?'' @ w @ '')'') ws)"

lemma looks_join: "ws \<noteq> [] \<Longrightarrow> ''(?=.*?'' @ js_join '')(?=.*?'' ws @ '')'' = looks ws"
proof (induction ws rule: induct_list012)
  case (3 x y zs)
  then show ?case by (simp add: looks_def)
qed (simp_all add: looks_def)

lemma re_token_looks:
  "re_token (CHR ''('' # CHR ''?'' # CHR ''='' # r) = (TLook, r)"
  "re_token (CHR ''.'' # CHR ''*'' # CHR ''?'' # r) = (TItem DotStar, r)"
  "re_token (CHR '')'' # r) = (TClose, r)"
  "re_token [CHR ''.'', CHR ''*'', CHR ''$''] = (TItem DotStar, ''$'')"
  "re_token ''$'' = (TItem Eol, [])" "re_token [] = (TEnd, [])"
  "re_token (CHR ''^'' # r) = (TItem Bol, r)"
  by (simp_all add: re_token_def)

lemma re_parse_end: "re_parse (Suc (Suc (Suc n))) acc ''.*$'' = Some ([rev acc @ [DotStar, Eol]], [])"
  by (simp add: re_token_looks)

lemma re_parse_looks:
  "length (looks (map escapeRegex ws)) + 4 \<le> n \<Longrightarrow>
    re_parse n acc (looks (map escapeRegex ws) @ ''.*$'') =
      Some ([rev acc @ map (\<lambda>w. Look [DotStar # map Chr w]) ws @ [DotStar, Eol]], [])"
proof (induction ws arbitrary: acc n)
  case Nil
  have "re_parse 3 acc ''.*$'' = Some ([rev acc @ [DotStar, Eol]], [])"
    using re_parse_end [of 0] by (simp add: numeral_3_eq_3)
  from re_parse_mono [OF this, of n] Nil show ?case by (simp add: looks_def)
next
  case (Cons w ws)
  let ?rest = "looks (map escapeRegex ws) @ ''.*$''"
  have len: "length w \<le> length (escapeRegex w)" by (induction w) (auto simp: escapeRegex_Cons esc_def)
  from Cons.prems obtain k where n: "n = Suc (Suc k)" and k: "length (escapeRegex w) + 2 \<le> k"
    "length (looks (map escapeRegex ws)) + 4 \<le> Suc k"
    by (cases n; cases "n - 1") (auto simp: looks_def)
  have "re_parse 1 (rev (map Chr w) @ [DotStar]) (CHR '')'' # ?rest) = Some ([DotStar # map Chr w], CHR '')'' # ?rest)"
    by (simp add: re_token_looks)
  from re_parse_escape [OF this, of k] len k(1)
  have "re_parse k [DotStar] (escapeRegex w @ CHR '')'' # ?rest) = Some ([DotStar # map Chr w], CHR '')'' # ?rest)"
    by simp
  then have inner: "re_parse (Suc k) [] (''.*?'' @ escapeRegex w @ CHR '')'' # ?rest) = Some ([DotStar # map Chr w], CHR '')'' # ?rest)"
    by (simp add: re_token_looks)
  have "re_parse (Suc k) (Look [DotStar # map Chr w] # acc) ?rest =
      Some ([rev (Look [DotStar # map Chr w] # acc) @ map (\<lambda>w. Look [DotStar # map Chr w]) ws @ [DotStar, Eol]], [])"
    by (rule Cons.IH [OF k(2)])
  moreover have "looks (map escapeRegex (w # ws)) @ ''.*$'' = ''(?='' @ ''.*?'' @ escapeRegex w @ CHR '')'' # ?rest"
    by (simp add: looks_def)
  ultimately show ?case using inner n by (simp add: re_token_looks del: re_parse.simps) (simp add: re_token_looks)
qed

lemma compile_smart:
  "re_compile (search_pattern s False True) =
    Some [Bol # map (\<lambda>w. Look [DotStar # map Chr w]) (split_on (CHR '' '') s) @ [DotStar, Eol]]"
proof -
  let ?ws = "split_on (CHR '' '') s"
  have "search_pattern s False True = CHR ''^'' # looks (map escapeRegex ?ws) @ ''.*$''"
    using looks_join [of "map escapeRegex ?ws"] split_on_nonempty [of "CHR '' ''" s]
    by (simp add: search_pattern_def Let_def split_escape)
  moreover have "re_parse (Suc (length (CHR ''^'' # looks (map escapeRegex ?ws) @ ''.*$''))) []
      (CHR ''^'' # looks (map escapeRegex ?ws) @ ''.*$'') =
      Some ([Bol # map (\<lambda>w. Look [DotStar # map Chr w]) ?ws @ [DotStar, Eol]], [])"
    using re_parse_looks [of ?ws "length (CHR ''^'' # looks (map escapeRegex ?ws) @ ''.*$'')" "[Bol]"]
    by (simp add: re_token_looks)
  ultimately show ?thesis by (simp add: re_compile_def)
qed

lemma compile_plain: "re_compile (search_pattern s False False) = Some [map Chr s]"
proof -
  have len: "length s \<le> length (escapeRegex s)" by (induction s) (auto simp: escapeRegex_Cons esc_def)
  have "re_parse 1 (rev (map Chr s) @ []) [] = Some ([map Chr s], [])" by (simp add: re_token_looks)
  from re_parse_escape [OF this, of "Suc (length (escapeRegex s))"] len
  show ?thesis by (simp add: re_compile_def search_pattern_def)
qed

section \<open>Meaning of the patterns\<close>

lemma match_chars: "re_match ic s (map Chr w) i = occurs_at ic s w i"
  by (induction w arbitrary: i) auto

lemma match_dotstar:
  "i \<le> length s \<Longrightarrow> re_match ic s (DotStar # is) i \<longleftrightarrow>
    (\<exists>j. i \<le> j \<and> j \<le> length s \<and> (\<forall>k. i \<le> k \<and> k < j \<longrightarrow> \<not> line_end (s ! k)) \<and> re_match ic s is j)"
proof (induction "length s - i" arbitrary: i)
  case 0
  then have "i = length s" by simp
  then show ?case by auto
next
  case (Suc n)
  then have i: "i < length s" by simp
  have IH: "re_match ic s (DotStar # is) (Suc i) \<longleftrightarrow>
    (\<exists>j. Suc i \<le> j \<and> j \<le> length s \<and> (\<forall>k. Suc i \<le> k \<and> k < j \<longrightarrow> \<not> line_end (s ! k)) \<and> re_match ic s is j)"
    using Suc by simp
  have "(\<exists>j. i \<le> j \<and> j \<le> length s \<and> (\<forall>k. i \<le> k \<and> k < j \<longrightarrow> \<not> line_end (s ! k)) \<and> re_match ic s is j) \<longleftrightarrow>
    re_match ic s is i \<or> (\<not> line_end (s ! i) \<and>
      (\<exists>j. Suc i \<le> j \<and> j \<le> length s \<and> (\<forall>k. Suc i \<le> k \<and> k < j \<longrightarrow> \<not> line_end (s ! k)) \<and> re_match ic s is j))"
    (is "?L \<longleftrightarrow> ?R")
  proof
    assume ?L
    then obtain j where j: "i \<le> j" "j \<le> length s" "\<forall>k. i \<le> k \<and> k < j \<longrightarrow> \<not> line_end (s ! k)" "re_match ic s is j"
      by blast
    show ?R
    proof (cases "j = i")
      case True
      with j show ?thesis by simp
    next
      case False
      with j(1) have "Suc i \<le> j" by simp
      moreover have "\<not> line_end (s ! i)" using j(3) \<open>Suc i \<le> j\<close> by auto
      ultimately show ?thesis using j by auto
    qed
  next
    assume ?R
    then show ?L
    proof
      assume "re_match ic s is i"
      with i show ?L by (intro exI [of _ i]) auto
    next
      assume "\<not> line_end (s ! i) \<and> (\<exists>j. Suc i \<le> j \<and> j \<le> length s \<and>
        (\<forall>k. Suc i \<le> k \<and> k < j \<longrightarrow> \<not> line_end (s ! k)) \<and> re_match ic s is j)"
      then obtain j where "\<not> line_end (s ! i)" "Suc i \<le> j" "j \<le> length s"
        "\<forall>k. Suc i \<le> k \<and> k < j \<longrightarrow> \<not> line_end (s ! k)" "re_match ic s is j" by blast
      then show ?L by (intro exI [of _ j]) (auto, metis le_antisym not_less_eq_eq)
    qed
  qed
  with IH i show ?case by auto
qed

lemma match_rest_of_line: "re_match ic s [DotStar, Eol] 0 \<longleftrightarrow> one_line s"
  by (subst match_dotstar) (auto simp: one_line_def in_set_conv_nth dest: nth_mem)

lemma match_word: "one_line s \<Longrightarrow> re_match ic s (DotStar # map Chr w) 0 \<longleftrightarrow> occurs ic w s"
  by (subst match_dotstar) (auto simp: match_chars occurs_def one_line_def)

lemma match_looks:
  "re_match ic s (map (\<lambda>w. Look [DotStar # map Chr w]) ws @ is) i \<longleftrightarrow>
    (\<forall>w \<in> set ws. re_match ic s (DotStar # map Chr w) i) \<and> re_match ic s is i"
  by (induction ws) (auto simp del: re_match.simps(4))

lemma smart_test:
  "re_test ic [Bol # map (\<lambda>w. Look [DotStar # map Chr w]) ws @ [DotStar, Eol]] s \<longleftrightarrow>
    one_line s \<and> (\<forall>w \<in> set ws. occurs ic w s)"
proof -
  have "re_test ic [Bol # map (\<lambda>w. Look [DotStar # map Chr w]) ws @ [DotStar, Eol]] s \<longleftrightarrow>
      re_match ic s (map (\<lambda>w. Look [DotStar # map Chr w]) ws @ [DotStar, Eol]) 0"
    by (auto simp: re_test_def list_ex_iff)
  also have "\<dots> \<longleftrightarrow> one_line s \<and> (\<forall>w \<in> set ws. occurs ic w s)"
    unfolding match_looks match_rest_of_line using match_word by blast
  finally show ?thesis .
qed

lemma plain_test: "re_test ic [map Chr w] s \<longleftrightarrow> occurs ic w s"
proof -
  have "set [0..<Suc (length s)] = {i. i \<le> length s}" by auto
  then show ?thesis by (auto simp: re_test_def list_ex_iff match_chars occurs_def)
qed

text \<open>The test a search without a regular expression runs on a row.\<close>

definition search_test :: "string \<Rightarrow> bool \<Rightarrow> bool \<Rightarrow> string \<Rightarrow> bool" where
  "search_test input smart ic s \<longleftrightarrow>
    (if smart then one_line s \<and> (\<forall>w \<in> set (split_on (CHR '' '') input). occurs ic w s) else occurs ic input s)"

lemma createSearch_plain: "createSearch input False smart ic = Inr (search_test input smart ic)"
  by (cases smart) (auto simp: createSearch_def compile_smart compile_plain smart_test plain_test search_test_def fun_eq_iff)

section \<open>Longer inputs match less\<close>

lemma occurs_at_prefix: "occurs_at ic s (p @ q) i \<Longrightarrow> occurs_at ic s p i"
  by (induction p arbitrary: i) auto

lemma occurs_prefix: "occurs ic (p @ q) s \<Longrightarrow> occurs ic p s"
  by (auto simp: occurs_def intro: occurs_at_prefix)

lemma split_on_prefix:
  "\<exists>r. split_on c (p @ q) = butlast (split_on c p) @ (last (split_on c p) @ r) # tl (split_on c q)"
proof (induction p)
  case Nil
  then show ?case using split_on_nonempty [of c q] by (cases "split_on c q") auto
next
  case (Cons a p)
  then obtain r where r: "split_on c (p @ q) = butlast (split_on c p) @ (last (split_on c p) @ r) # tl (split_on c q)"
    by blast
  obtain y ys where y: "split_on c p = y # ys" by (meson neq_Nil_conv split_on_nonempty)
  show ?case
  proof (cases "a = c")
    case True
    with r y show ?thesis by auto
  next
    case False
    with r y show ?thesis by (cases ys) auto
  qed
qed

lemma search_test_prefix:
  assumes "search_test (p @ q) smart ic s"
  shows "search_test p smart ic s"
proof (cases smart)
  case False
  with assms show ?thesis by (auto simp: search_test_def intro: occurs_prefix)
next
  case True
  let ?ws = "split_on (CHR '' '') p"
  obtain r where r: "split_on (CHR '' '') (p @ q) = butlast ?ws @ (last ?ws @ r) # tl (split_on (CHR '' '') q)"
    using split_on_prefix by blast
  have "occurs ic w s" if "w \<in> set ?ws" for w
  proof -
    have "?ws = butlast ?ws @ [last ?ws]" using split_on_nonempty by simp
    then have "w \<in> set (butlast ?ws) \<or> w = last ?ws" using that by (metis Un_iff append_is_Nil_conv empty_iff list.set(1) set_ConsD set_append)
    with assms True r show ?thesis by (auto simp: search_test_def intro: occurs_prefix)
  qed
  with assms True show ?thesis by (simp add: search_test_def)
qed

section \<open>Properties\<close>

text \<open>C19: a search typed without regular expressions means what it says, whatever characters it
  has: the pattern the code builds compiles, and a smart search matches a row's text exactly when
  the text is on one line and contains every space-separated word of the input, anywhere and in
  any order; a plain search when it contains the input.  No character of the input acts as
  regular expression syntax.  (Case is compared as asked.)\<close>

theorem search_means_words:
  "\<exists>f. createSearch input False smart ic = Inr f \<and>
    (\<forall>s. f s \<longleftrightarrow> (if smart then one_line s \<and> (\<forall>w \<in> set (split_on (CHR '' '') input). occurs ic w s)
                   else occurs ic input s))"
  by (intro exI [of _ "search_test input smart ic"]) (simp add: createSearch_plain search_test_def)

theorem search_means_words_witness:
  "\<exists>f. createSearch ''a.b c'' False True True = Inr f \<and> f ''C xA.By'' \<and> \<not> f ''acb''"
proof -
  have "occurs True ''a.b'' ''C xA.By''" "occurs True ''c'' ''C xA.By''" "\<not> occurs True ''a.b'' ''acb''"
    "one_line ''C xA.By''" "split_on (CHR '' '') ''a.b c'' = [''a.b'', ''c'']"
    by code_simp+
  with search_means_words [of "''a.b c''" True True] show ?thesis by auto
qed

end
