(* ===== verification/DT_Filter.thy ===== *)
theory DT_Filter
  imports DT_Columns DT_Regex
begin

text \<open>
  Filtering (public/js/plugins/dataTables/jquery.dataTables.js, lines 2590 to 2842):
  \<open>_fnFilterData\<close>, \<open>_fnFilter\<close>, \<open>_fnFilterColumn\<close>, \<open>_fnFilterCustom\<close> and
  \<open>_fnFilterComplete\<close>, with the proof that the incremental search (a longer input filters the
  rows already displayed) finds what a search of all rows finds.  The loops that splice rows
  out of the display array from its end are filters.
\<close>

section \<open>Filter data\<close>

text \<open>Decoding of HTML entities through an element, for text that has an ampersand.\<close>

definition remove_newlines :: "string \<Rightarrow> string" where
  "remove_newlines s = filter (\<lambda>c. \<not> line_end c) s"

definition decode_cell :: "dt_env \<Rightarrow> jsval \<Rightarrow> jsval js_res" where
  "decode_cell env v = (case v of
      JUndef \<Rightarrow> Inl TypeError
    | JNull \<Rightarrow> Inl TypeError
    | JStr s \<Rightarrow> Inr (if CHR ''&'' \<in> set s then JStr (remove_newlines (en_decode env s)) else v)
    | JArr xs \<Rightarrow> Inr (if JStr ''&'' \<in> set xs then JStr (remove_newlines (en_decode env (js_string v))) else v)
    | _ \<Rightarrow> Inr v)"

definition filter_cell :: "dt_env \<Rightarrow> settings \<Rightarrow> nat \<Rightarrow> nat \<Rightarrow> jsval js_res" where
  "filter_cell env s i j =
    (let c = st_columns s ! j
     in js_bind
          (if co_bSearchable c then
             js_bind (cell_data s i j (Some ''filter'')) (\<lambda>v.
               Inr (case (case co_sType c of None \<Rightarrow> None | Some t \<Rightarrow> type_search t) of
                      Some f \<Rightarrow> f v
                    | None \<Rightarrow> if v \<noteq> JNull then v else JStr ''''))
           else Inr (JStr '''')) (decode_cell env))"

definition filter_row :: "dt_env \<Rightarrow> settings \<Rightarrow> nat \<Rightarrow> dt_row js_res" where
  "filter_row env s i =
    (let r = st_data s ! i
     in if ro_filter r = None
        then js_bind (js_mapM (filter_cell env s i) [0..<length (st_columns s)]) (\<lambda>cells.
               Inr (r\<lparr>ro_filter := Some cells, ro_filterRow := js_array_join ''  '' cells\<rparr>))
        else Inr r)"

text \<open>\<open>_fnFilterData\<close>: the table, and whether any row's data had to be computed.\<close>

definition filterData :: "dt_env \<Rightarrow> settings \<Rightarrow> (settings \<times> bool) js_res" where
  "filterData env s =
    js_bind (js_mapM (filter_row env s) [0..<length (st_data s)]) (\<lambda>rows.
      Inr (s\<lparr>st_data := rows\<rparr>, list_ex (\<lambda>r. ro_filter r = None) (st_data s)))"

section \<open>The filters\<close>

definition display_filter :: "(dt_row \<Rightarrow> bool) \<Rightarrow> settings \<Rightarrow> settings js_res" where
  "display_filter p s =
    (if \<forall>i \<in> set (st_display s). i < length (st_data s)
     then Inr (s\<lparr>st_display := filter (\<lambda>i. p (st_data s ! i)) (st_display s)\<rparr>) else Inl TypeError)"

definition is_prefix :: "string \<Rightarrow> string \<Rightarrow> bool" where
  "is_prefix p s \<longleftrightarrow> take (length p) s = p"

text \<open>\<open>_fnFilter\<close>\<close>

definition dt_filter :: "dt_env \<Rightarrow> string \<Rightarrow> bool \<Rightarrow> bool \<Rightarrow> bool \<Rightarrow> bool \<Rightarrow> settings \<Rightarrow> settings js_res" where
  "dt_filter env input force regex smart ic s =
    js_bind (createSearch input regex smart ic) (\<lambda>rp.
    js_bind (filterData env s) (\<lambda>(s1, invalidated).
      if input = [] then Inr (s1\<lparr>st_display := st_master s1\<rparr>)
      else
        (let prev = se_sSearch (st_search s);
             fresh = invalidated \<or> force \<or> en_search env \<noteq> [] \<or> length prev > length input \<or>
                     \<not> is_prefix prev input \<or> st_bSorted s
         in display_filter (\<lambda>r. rp (ro_filterRow r)) (if fresh then s1\<lparr>st_display := st_master s1\<rparr> else s1))))"

text \<open>\<open>data[colIdx]\<close> of a row, as \<open>RegExp.test\<close> converts it.\<close>

definition filter_text :: "nat \<Rightarrow> dt_row \<Rightarrow> string" where
  "filter_text col r = (case ro_filter r of
      None \<Rightarrow> ''undefined''
    | Some cells \<Rightarrow> if col < length cells then js_string (cells ! col) else ''undefined'')"

text \<open>\<open>_fnFilterColumn\<close>; a row without filter data would raise.\<close>

definition filterColumn :: "string \<Rightarrow> nat \<Rightarrow> bool \<Rightarrow> bool \<Rightarrow> bool \<Rightarrow> settings \<Rightarrow> settings js_res" where
  "filterColumn searchStr col regex smart ic s =
    (if searchStr = [] then Inr s
     else js_bind (createSearch searchStr regex smart ic) (\<lambda>rp.
       if \<exists>i \<in> set (st_display s). i < length (st_data s) \<and> ro_filter (st_data s ! i) = None then Inl TypeError
       else display_filter (\<lambda>r. rp (filter_text col r)) s))"

text \<open>
  The loop of \<open>_fnFilterCustom\<close> for one function: \<open>kept\<close> are the rows it has accepted, and the
  table it is given displays these and the rows still to come.
\<close>

fun custom_loop :: "(settings \<Rightarrow> jsval list \<Rightarrow> nat \<Rightarrow> bool) \<Rightarrow> nat list \<Rightarrow> nat list \<Rightarrow> nat list \<Rightarrow> settings \<Rightarrow>
    settings js_res" where
  "custom_loop f cols kept [] s = Inr (s\<lparr>st_display := kept\<rparr>)"
| "custom_loop f cols kept (d # rest) s =
    (let s' = s\<lparr>st_display := kept @ d # rest\<rparr>
     in js_bind (row_data s' d (Some ''filter'') cols) (\<lambda>data.
          custom_loop f cols (if f s' data d then kept @ [d] else kept) rest s))"

definition filterCustom :: "dt_env \<Rightarrow> settings \<Rightarrow> settings js_res" where
  "filterCustom env s =
    js_foldM (\<lambda>f s'. custom_loop f (get_columns s co_bSearchable) [] (st_display s') s') (en_search env) s"

abbreviation flag :: "bool option \<Rightarrow> bool" where
  "flag b \<equiv> b = Some True"

text \<open>The loop over \<open>aoPreSearchCols\<close>.\<close>

definition filter_columns :: "settings \<Rightarrow> settings js_res" where
  "filter_columns s = js_foldM (\<lambda>(i, c) s'. case c of
       None \<Rightarrow> Inl TypeError
     | Some x \<Rightarrow> filterColumn (se_sSearch x) i (flag (se_bRegex x)) (flag (se_bSmart x)) (flag (se_bCaseInsensitive x)) s')
     (enumerate 0 (st_colSearch s)) s"

text \<open>\<open>_fnFilterComplete\<close>\<close>

definition filterComplete :: "dt_env \<Rightarrow> search \<Rightarrow> bool \<Rightarrow> settings \<Rightarrow> settings js_res" where
  "filterComplete env inp force s =
    js_bind (columnTypes env s) (\<lambda>s0.
    js_bind
      (if dataSource s0 \<noteq> SSP then
         js_bind (dt_filter env (se_sSearch inp) force (flag (se_bRegex inp)) (flag (se_bSmart inp))
           (flag (se_bCaseInsensitive inp)) s0) (\<lambda>s1.
         js_bind (filter_columns (s1\<lparr>st_search := inp\<rparr>)) (filterCustom env))
       else Inr (s0\<lparr>st_search := inp\<rparr>)) (\<lambda>s2.
      Inr (s2\<lparr>st_bFiltered := True\<rparr>)))"

section \<open>Which rows a search lets through\<close>

definition match_input :: "search \<Rightarrow> string \<Rightarrow> bool" where
  "match_input x text \<longleftrightarrow> se_sSearch x = [] \<or>
     (case createSearch (se_sSearch x) (flag (se_bRegex x)) (flag (se_bSmart x)) (flag (se_bCaseInsensitive x)) of
        Inr f \<Rightarrow> f text | Inl _ \<Rightarrow> False)"

definition col_passes :: "search option list \<Rightarrow> dt_row \<Rightarrow> bool" where
  "col_passes cs r \<longleftrightarrow> (\<forall>(i, c) \<in> set (enumerate 0 cs). case c of None \<Rightarrow> True | Some x \<Rightarrow> match_input x (filter_text i r))"

text \<open>A row passes the global search and every column search.\<close>

definition row_passes :: "search option list \<Rightarrow> search \<Rightarrow> dt_row \<Rightarrow> bool" where
  "row_passes cs inp r \<longleftrightarrow> match_input inp (ro_filterRow r) \<and> col_passes cs r"

lemma display_filter_Inr:
  "display_filter p s = Inr t \<Longrightarrow> t = s\<lparr>st_display := filter (\<lambda>i. p (st_data s ! i)) (st_display s)\<rparr>"
  by (auto simp: display_filter_def split: if_splits)

lemma filterColumn_Inr:
  assumes "filterColumn (se_sSearch x) i (flag (se_bRegex x)) (flag (se_bSmart x)) (flag (se_bCaseInsensitive x)) s = Inr t"
  shows "t = s\<lparr>st_display := filter (\<lambda>k. match_input x (filter_text i (st_data s ! k))) (st_display s)\<rparr>"
proof (cases "se_sSearch x = []")
  case True
  with assms show ?thesis by (simp add: filterColumn_def match_input_def)
next
  case False
  with assms obtain f where f: "createSearch (se_sSearch x) (flag (se_bRegex x)) (flag (se_bSmart x)) (flag (se_bCaseInsensitive x)) = Inr f"
    "display_filter (\<lambda>r. f (filter_text i r)) s = Inr t"
    by (auto simp: filterColumn_def js_bind_Inr_iff split: if_splits)
  from display_filter_Inr [OF f(2)] False f(1) show ?thesis by (simp add: match_input_def)
qed

lemma filter_columns_Inr:
  assumes "js_foldM (\<lambda>(i, c) s'. case c of
       None \<Rightarrow> Inl TypeError
     | Some x \<Rightarrow> filterColumn (se_sSearch x) i (flag (se_bRegex x)) (flag (se_bSmart x)) (flag (se_bCaseInsensitive x)) s')
     ics s = Inr t"
  shows "t = s\<lparr>st_display := filter (\<lambda>k. \<forall>(i, c) \<in> set ics. case c of None \<Rightarrow> True
      | Some x \<Rightarrow> match_input x (filter_text i (st_data s ! k))) (st_display s)\<rparr>"
  using assms
proof (induction ics arbitrary: s)
  case (Cons ic ics)
  obtain i c where ic: "ic = (i, c)" by (cases ic)
  from Cons.prems ic obtain x u where c: "c = Some x"
    and u: "filterColumn (se_sSearch x) i (flag (se_bRegex x)) (flag (se_bSmart x)) (flag (se_bCaseInsensitive x)) s = Inr u"
    and rest: "js_foldM (\<lambda>(i, c) s'. case c of
       None \<Rightarrow> Inl TypeError
     | Some x \<Rightarrow> filterColumn (se_sSearch x) i (flag (se_bRegex x)) (flag (se_bSmart x)) (flag (se_bCaseInsensitive x)) s')
     ics u = Inr t"
    by (auto simp: js_bind_Inr_iff split: option.splits)
  from Cons.IH [OF rest] filterColumn_Inr [OF u] ic c show ?case
    by (simp add: conj_commute)
qed simp

lemma filter_row_Inr:
  "filter_row env s i = Inr r \<Longrightarrow> ro_data r = ro_data (st_data s ! i) \<and> ro_filter r \<noteq> None \<and>
     (ro_filter (st_data s ! i) \<noteq> None \<longrightarrow> r = st_data s ! i)"
  by (auto simp: filter_row_def js_bind_Inr_iff Let_def split: if_splits)

lemma filterData_Inr:
  assumes "filterData env s = Inr (t, stale)"
  obtains rows where "t = s\<lparr>st_data := rows\<rparr>" "length rows = length (st_data s)"
    "stale \<longleftrightarrow> (\<exists>r \<in> set (st_data s). ro_filter r = None)"
    "\<And>i. i < length (st_data s) \<Longrightarrow> ro_data (rows ! i) = ro_data (st_data s ! i) \<and> ro_filter (rows ! i) \<noteq> None \<and>
       (ro_filter (st_data s ! i) \<noteq> None \<longrightarrow> rows ! i = st_data s ! i)"
proof -
  from assms obtain rows where r: "js_mapM (filter_row env s) [0..<length (st_data s)] = Inr rows"
    and t: "t = s\<lparr>st_data := rows\<rparr>" "stale \<longleftrightarrow> list_ex (\<lambda>r. ro_filter r = None) (st_data s)"
    by (auto simp: filterData_def js_bind_Inr_iff)
  from r have all: "list_all2 (\<lambda>i y. filter_row env s i = Inr y) [0..<length (st_data s)] rows"
    by (simp add: js_mapM_Inr_iff)
  then have len: "length rows = length (st_data s)" by (auto dest: list_all2_lengthD)
  have row: "filter_row env s i = Inr (rows ! i)" if "i < length (st_data s)" for i
    using all that by (auto simp: list_all2_conv_all_nth)
  have "ro_data (rows ! i) = ro_data (st_data s ! i) \<and> ro_filter (rows ! i) \<noteq> None \<and>
       (ro_filter (st_data s ! i) \<noteq> None \<longrightarrow> rows ! i = st_data s ! i)" if "i < length (st_data s)" for i
    by (rule filter_row_Inr [OF row [OF that]])
  moreover have "stale \<longleftrightarrow> (\<exists>r \<in> set (st_data s). ro_filter r = None)"
    using t(2) by (simp add: list_ex_iff)
  ultimately show thesis using that [OF t(1) len] by blast
qed

text \<open>A longer input without regular expressions matches only what the shorter one matched.\<close>

lemma match_input_prefix:
  assumes "is_prefix (se_sSearch x) (se_sSearch y)" "match_input y text" "\<not> flag (se_bRegex x)" "\<not> flag (se_bRegex y)"
    and "flag (se_bSmart x) = flag (se_bSmart y)" "flag (se_bCaseInsensitive x) = flag (se_bCaseInsensitive y)"
  shows "match_input x text"
proof (cases "se_sSearch x = []")
  case True
  then show ?thesis by (simp add: match_input_def)
next
  case False
  from assms(1) obtain q where q: "se_sSearch y = se_sSearch x @ q"
    by (metis append_take_drop_id is_prefix_def)
  with False assms(2,4) have "search_test (se_sSearch x @ q) (flag (se_bSmart y)) (flag (se_bCaseInsensitive y)) text"
    by (auto simp: match_input_def createSearch_plain)
  from search_test_prefix [OF this] assms(3,5,6) show ?thesis
    by (simp add: match_input_def createSearch_plain)
qed

text \<open>The display array agrees with the search last run.\<close>

definition display_current :: "settings \<Rightarrow> bool" where
  "display_current s \<longleftrightarrow>
    st_display s = filter (\<lambda>i. row_passes (st_colSearch s) (st_search s) (st_data s ! i)) (st_master s)"

lemma dt_filter_Inr:
  assumes "dt_filter env (se_sSearch inp) force (flag (se_bRegex inp)) (flag (se_bSmart inp)) (flag (se_bCaseInsensitive inp)) s = Inr t"
    and "\<forall>i \<in> set (st_master s). i < length (st_data s)"
    and "force \<or> st_bSorted s \<or> (\<exists>r \<in> set (st_data s). ro_filter r = None) \<or>
      display_current s \<and> \<not> flag (se_bRegex (st_search s)) \<and> \<not> flag (se_bRegex inp) \<and>
      flag (se_bSmart (st_search s)) = flag (se_bSmart inp) \<and>
      flag (se_bCaseInsensitive (st_search s)) = flag (se_bCaseInsensitive inp)"
  obtains rows d where "t = s\<lparr>st_data := rows, st_display := d\<rparr>" "map ro_data rows = map ro_data (st_data s)"
    "\<forall>r \<in> set rows. ro_filter r \<noteq> None"
    "filter (\<lambda>i. col_passes (st_colSearch s) (rows ! i)) d = filter (\<lambda>i. row_passes (st_colSearch s) inp (rows ! i)) (st_master s)"
proof -
  from assms(1) obtain f s1 stale where f: "createSearch (se_sSearch inp) (flag (se_bRegex inp)) (flag (se_bSmart inp)) (flag (se_bCaseInsensitive inp)) = Inr f"
    and s1: "filterData env s = Inr (s1, stale)"
    by (auto simp: dt_filter_def js_bind_Inr_iff)
  obtain rows where rows: "s1 = s\<lparr>st_data := rows\<rparr>" "length rows = length (st_data s)"
    "stale \<longleftrightarrow> (\<exists>r \<in> set (st_data s). ro_filter r = None)"
    "\<And>i. i < length (st_data s) \<Longrightarrow> ro_data (rows ! i) = ro_data (st_data s ! i) \<and> ro_filter (rows ! i) \<noteq> None \<and>
       (ro_filter (st_data s ! i) \<noteq> None \<longrightarrow> rows ! i = st_data s ! i)"
    using filterData_Inr [OF s1] by metis
  have data: "map ro_data rows = map ro_data (st_data s)" using rows(2,4) by (intro nth_equalityI) auto
  have has: "\<forall>r \<in> set rows. ro_filter r \<noteq> None" using rows(2,4) by (auto simp: in_set_conv_nth)
  show thesis
  proof (cases "se_sSearch inp = []")
    case True
    with assms(1) f s1 rows(1) have "t = s\<lparr>st_data := rows, st_display := st_master s\<rparr>"
      by (simp add: dt_filter_def)
    with data has True show thesis by (intro that) (simp_all add: row_passes_def match_input_def)
  next
    case input: False
    then have m: "match_input inp = f" using f by (simp add: match_input_def fun_eq_iff)
    define fresh where "fresh \<longleftrightarrow> stale \<or> force \<or> en_search env \<noteq> [] \<or> length (se_sSearch (st_search s)) > length (se_sSearch inp) \<or>
       \<not> is_prefix (se_sSearch (st_search s)) (se_sSearch inp) \<or> st_bSorted s"
    note run = assms(1) [unfolded dt_filter_def Let_def f js_bind_simps s1 prod.case if_not_P [OF input], folded fresh_def]
    from display_filter_Inr [OF run] rows(1)
    have t: "t = s\<lparr>st_data := rows, st_display := filter (\<lambda>i. match_input inp (ro_filterRow (rows ! i))) (if fresh then st_master s else st_display s)\<rparr>"
      by (simp add: m split: if_splits)
    show thesis
    proof (cases fresh)
      case True
      with t data has show thesis by (intro that) (auto simp: row_passes_def conj_commute)
    next
      case False
      with assms(3) rows(3) have cur: "display_current s" and none: "\<not> stale"
        and plain: "\<not> flag (se_bRegex (st_search s))" "\<not> flag (se_bRegex inp)"
          "flag (se_bSmart (st_search s)) = flag (se_bSmart inp)"
          "flag (se_bCaseInsensitive (st_search s)) = flag (se_bCaseInsensitive inp)"
        and pre: "is_prefix (se_sSearch (st_search s)) (se_sSearch inp)"
        by (auto simp: fresh_def)
      have same: "rows ! i = st_data s ! i" if "i \<in> set (st_master s)" for i
        using rows(3,4) none assms(2) that by (meson nth_mem)
      have "filter (\<lambda>i. col_passes (st_colSearch s) (rows ! i))
          (filter (\<lambda>i. match_input inp (ro_filterRow (rows ! i))) (st_display s)) =
        filter (\<lambda>i. row_passes (st_colSearch s) inp (rows ! i)) (st_master s)"
        using cur same match_input_prefix [OF pre _ plain]
        by (auto simp: display_current_def row_passes_def intro!: filter_cong)
      with t False data has show thesis by (intro that) auto
    qed
  qed
qed

lemma col_passes_alt: "col_passes cs r \<longleftrightarrow> (\<forall>(i, c) \<in> set (enumerate 0 cs). case c of None \<Rightarrow> True
      | Some x \<Rightarrow> match_input x (filter_text i r))"
  by (simp add: col_passes_def)

lemma filterComplete_frame:
  assumes "filterComplete env inp force s = Inr t" "dataSource s \<noteq> SSP" "en_search env = []"
    and "\<forall>i \<in> set (st_master s). i < length (st_data s)"
    and "force \<or> st_bSorted s \<or> (\<exists>r \<in> set (st_data s). ro_filter r = None) \<or>
      display_current s \<and> \<not> flag (se_bRegex (st_search s)) \<and> \<not> flag (se_bRegex inp) \<and>
      flag (se_bSmart (st_search s)) = flag (se_bSmart inp) \<and>
      flag (se_bCaseInsensitive (st_search s)) = flag (se_bCaseInsensitive inp)"
  shows "\<exists>cols rows d. t = s\<lparr>st_columns := cols, st_data := rows, st_display := d, st_search := inp, st_bFiltered := True\<rparr> \<and>
      map untyped cols = map untyped (st_columns s) \<and> map ro_data rows = map ro_data (st_data s) \<and>
      (\<forall>r \<in> set rows. ro_filter r \<noteq> None) \<and>
      d = filter (\<lambda>i. row_passes (st_colSearch s) inp (rows ! i)) (st_master s)"
proof -
  from assms(1) obtain s0 where s0: "columnTypes env s = Inr s0" by (auto simp: filterComplete_def js_bind_Inr_iff)
  from columnTypes_frame [OF s0] obtain cols where cols: "s0 = s\<lparr>st_columns := cols\<rparr>"
    "map untyped cols = map untyped (st_columns s)" by (auto simp: cells_eq_def)
  have ds: "dataSource s0 = dataSource s" by (simp add: cols(1) dataSource_def)
  from assms(1,2) s0 ds obtain s1 s2 s3 where
    s1: "dt_filter env (se_sSearch inp) force (flag (se_bRegex inp)) (flag (se_bSmart inp)) (flag (se_bCaseInsensitive inp)) s0 = Inr s1"
    and s2: "filter_columns (s1\<lparr>st_search := inp\<rparr>) = Inr s2" and s3: "filterCustom env s2 = Inr s3"
    and t: "t = s3\<lparr>st_bFiltered := True\<rparr>"
    by (auto simp: filterComplete_def js_bind_Inr_iff)
  have c0: "st_master s0 = st_master s" "st_data s0 = st_data s" "st_bSorted s0 = st_bSorted s"
    "st_search s0 = st_search s" "st_colSearch s0 = st_colSearch s" "display_current s0 = display_current s"
    by (simp_all add: display_current_def cols(1))
  obtain rows d where rows: "s1 = s0\<lparr>st_data := rows, st_display := d\<rparr>" "map ro_data rows = map ro_data (st_data s0)"
    "\<forall>r \<in> set rows. ro_filter r \<noteq> None"
    "filter (\<lambda>i. col_passes (st_colSearch s0) (rows ! i)) d = filter (\<lambda>i. row_passes (st_colSearch s0) inp (rows ! i)) (st_master s0)"
    by (rule dt_filter_Inr [OF s1, unfolded c0, OF assms(4,5)]) (simp add: c0)
  from filter_columns_Inr [OF s2 [unfolded filter_columns_def]] rows(1)
  have "s2 = s1\<lparr>st_search := inp, st_display := filter (\<lambda>i. col_passes (st_colSearch s) (rows ! i)) d\<rparr>"
    by (simp add: col_passes_alt [symmetric] cols(1))
  with rows(4) cols(1) have s2': "s2 = s1\<lparr>st_search := inp, st_display := filter (\<lambda>i. row_passes (st_colSearch s) inp (rows ! i)) (st_master s)\<rparr>"
    by simp
  have "s3 = s2" using s3 assms(3) by (simp add: filterCustom_def)
  with t s2' rows(1-3) cols show ?thesis
    by (intro exI [of _ cols] exI [of _ rows] exI [of _ "filter (\<lambda>i. row_passes (st_colSearch s) inp (rows ! i)) (st_master s)"]) simp
qed

section \<open>Properties\<close>

text \<open>C18: filtering a client-side table shows, in the table's order, exactly the rows that pass
  the global search and every column search.  This holds for a forced search, after a sort,
  when any row's filter data had to be computed, and also for the incremental search that only
  filters the rows already displayed, provided they are the result of the previous search, no
  regular expressions are used and the flags are the same.  (No custom search functions.)\<close>

theorem filter_shows_passing_rows:
  assumes "filterComplete env inp force s = Inr t" "dataSource s \<noteq> SSP" "en_search env = []"
    and "\<forall>i \<in> set (st_master s). i < length (st_data s)"
    and "force \<or> st_bSorted s \<or> (\<exists>r \<in> set (st_data s). ro_filter r = None) \<or>
      display_current s \<and> \<not> flag (se_bRegex (st_search s)) \<and> \<not> flag (se_bRegex inp) \<and>
      flag (se_bSmart (st_search s)) = flag (se_bSmart inp) \<and>
      flag (se_bCaseInsensitive (st_search s)) = flag (se_bCaseInsensitive inp)"
  shows "st_display t = filter (\<lambda>i. row_passes (st_colSearch t) inp (st_data t ! i)) (st_master t) \<and>
    display_current t \<and> st_master t = st_master s \<and> cells_eq s t \<and> (\<forall>r \<in> set (st_data t). ro_filter r \<noteq> None)"
  using filterComplete_frame [OF assms] by (auto simp: display_current_def cells_eq_def)

definition search_for :: "string \<Rightarrow> bool \<Rightarrow> search" where
  "search_for text regex = \<lparr>se_sSearch = text, se_bRegex = Some regex, se_bSmart = Some True, se_bCaseInsensitive = Some True\<rparr>"

definition pets :: settings where
  "pets = small_table 1 [[JStr ''Black cat''], [JStr ''dog''], [JStr ''cat, white'']]"

definition filter_env :: dt_env where
  "filter_env = \<lparr>en_date_parse = (\<lambda>_. DNaN), en_search = [], en_order = (\<lambda>_. None), en_decode = id,
     en_sort = (\<lambda>cmp xs. xs), en_preDraw = []\<rparr>"

lemma pets_runs:
  "(case filterComplete filter_env (search_for ''c'' False) False pets of Inl e \<Rightarrow> False
    | Inr t \<Rightarrow> (case filterComplete filter_env (search_for ''cat wh'' False) False t of Inl e \<Rightarrow> False
        | Inr u \<Rightarrow> st_display t = [0, 2] \<and> st_display u = [2] \<and> \<not> st_bSorted t \<and> st_search t = search_for ''c'' False \<and>
            dataSource t \<noteq> SSP \<and> st_master t = [0, 1, 2] \<and> length (st_data t) = 3))"
  by code_simp

theorem filter_shows_passing_rows_witness:
  "\<exists>t u. filterComplete filter_env (search_for ''c'' False) False pets = Inr t \<and>
     filterComplete filter_env (search_for ''cat wh'' False) False t = Inr u \<and>
     filter (\<lambda>i. row_passes (st_colSearch u) (search_for ''cat wh'' False) (st_data u ! i)) (st_master u) = [2]"
proof -
  from pets_runs obtain t u where t: "filterComplete filter_env (search_for ''c'' False) False pets = Inr t"
    and u: "filterComplete filter_env (search_for ''cat wh'' False) False t = Inr u" "st_display u = [2]"
    and st: "st_search t = search_for ''c'' False" "dataSource t \<noteq> SSP" "st_master t = [0, 1, 2]" "length (st_data t) = 3"
    by (auto split: sum.splits)
  have start: "\<exists>r \<in> set (st_data pets). ro_filter r = None" "dataSource pets \<noteq> SSP" "en_search filter_env = []"
    "\<forall>i \<in> set (st_master pets). i < length (st_data pets)"
    by (simp_all add: pets_def small_table_def plain_row_def dataSource_def filter_env_def)
  from filter_shows_passing_rows [OF t start(2-4)] start(1) have "display_current t" by blast
  moreover have "\<forall>i \<in> set (st_master t). i < length (st_data t)" by (simp add: st)
  ultimately have "st_display u = filter (\<lambda>i. row_passes (st_colSearch u) (search_for ''cat wh'' False) (st_data u ! i)) (st_master u)"
    using filter_shows_passing_rows [OF u(1) st(2) start(3)] st(1) by (simp add: search_for_def)
  with t u show ?thesis by metis
qed

text \<open>with regular expressions the incremental search loses rows: after a search for
  \<open>cat\<close>, extending the input to \<open>cat|dog\<close> only looks at the rows displayed, while a full search
  of the same input finds the dog as well.\<close>

theorem regex_search_incomplete:
  "\<exists>t u v. filterComplete filter_env (search_for ''cat'' True) False pets = Inr t \<and>
     filterComplete filter_env (search_for ''cat|dog'' True) False t = Inr u \<and> st_display u = [0, 2] \<and>
     filterComplete filter_env (search_for ''cat|dog'' True) True t = Inr v \<and> st_display v = [0, 1, 2]"
proof -
  have "(case filterComplete filter_env (search_for ''cat'' True) False pets of Inl e \<Rightarrow> False
    | Inr t \<Rightarrow> (case filterComplete filter_env (search_for ''cat|dog'' True) False t of Inl e \<Rightarrow> False
        | Inr u \<Rightarrow> (case filterComplete filter_env (search_for ''cat|dog'' True) True t of Inl e \<Rightarrow> False
            | Inr v \<Rightarrow> st_display u = [0, 2] \<and> st_display v = [0, 1, 2])))"
    by code_simp
  then show ?thesis by (auto split: sum.splits)
qed

end
