(* ===== verification/DT_Sort.thy ===== *)
theory DT_Sort
  imports DT_Columns Sorter_Spec
begin

text \<open>
  Ordering (public/js/plugins/dataTables/jquery.dataTables.js, lines 4119 to 4525):
  \<open>_fnSortFlatten\<close>, \<open>_fnSortData\<close>, \<open>_fnSort\<close>, \<open>_fnSortAria\<close>, \<open>_fnSortingClasses\<close> and the
  change of \<open>aaSorting\<close> made by \<open>_fnSortListener\<close>.  Entries of \<open>aaSorting\<close> are in the
  two-dimensional form.
\<close>

section \<open>The list of sort columns\<close>

definition nested_sort :: "settings \<Rightarrow> sort_entry list" where
  "nested_sort s = (case st_fixed s of
      NoFixed \<Rightarrow> st_sorting s
    | FixedArray f \<Rightarrow> f @ st_sorting s
    | FixedObj pre post \<Rightarrow> (case pre of None \<Rightarrow> [] | Some p \<Rightarrow> p) @ st_sorting s @ (case post of None \<Rightarrow> [] | Some p \<Rightarrow> p))"

text \<open>\<open>sType || 'string'\<close>\<close>

definition type_or_string :: "string option \<Rightarrow> string" where
  "type_or_string t = (if truthy_type t then the t else ''string'')"

definition flatten_entry :: "settings \<Rightarrow> sort_entry \<Rightarrow> flat_sort list js_res" where
  "flatten_entry s e =
    (if so_col e < length (st_columns s) then
       js_mapM (\<lambda>c. if c < length (st_columns s)
          then Inr \<lparr>fs_src = so_col e, fs_col = c, fs_dir = so_dir e, fs_index = so_index e,
                    fs_type = type_or_string (co_sType (st_columns s ! c))\<rparr>
          else Inl TypeError) (co_aDataSort (st_columns s ! so_col e))
     else Inl TypeError)"

definition sortFlatten :: "settings \<Rightarrow> flat_sort list js_res" where
  "sortFlatten s = js_bind (js_mapM (flatten_entry s) (nested_sort s)) (\<lambda>xss. Inr (concat xss))"

section \<open>Sort data\<close>

definition falsy_key :: "sort_key \<Rightarrow> bool" where
  "falsy_key k \<longleftrightarrow> k = KNum (Fin 0) \<or> k = KNum DNaN \<or> k = KStr ''''"

text \<open>The formatter of the column's type, or the value as the comparison converts it.\<close>

definition format_key :: "dt_env \<Rightarrow> string option \<Rightarrow> jsval \<Rightarrow> sort_key js_res" where
  "format_key env ty v = (case ty of
      None \<Rightarrow> Inr (key_of_val v)
    | Some t \<Rightarrow> (case order_pre (en_date_parse env) t of None \<Rightarrow> Inr (key_of_val v) | Some f \<Rightarrow> f v))"

definition sort_value :: "dt_env \<Rightarrow> settings \<Rightarrow> nat \<Rightarrow> nat \<Rightarrow> jsval js_res" where
  "sort_value env s idx i =
    (case en_order env (co_sSortDataType (st_columns s ! idx)) of
       Some custom \<Rightarrow> Inr (case js_nth (custom s idx (columnIndexToVisible s idx)) (int i) of None \<Rightarrow> JUndef | Some v \<Rightarrow> v)
     | None \<Rightarrow> cell_data s i idx (Some ''sort''))"

definition row_keys :: "dt_row \<Rightarrow> (nat \<times> sort_key) list" where
  "row_keys r = (case ro_sort r of None \<Rightarrow> [] | Some ks \<Rightarrow> ks)"

definition sort_row :: "dt_env \<Rightarrow> settings \<Rightarrow> nat \<Rightarrow> nat \<Rightarrow> dt_row js_res" where
  "sort_row env s idx i =
    (let r = st_data s ! i
     in if (case map_of (row_keys r) idx of None \<Rightarrow> True | Some k \<Rightarrow> falsy_key k) \<or>
           en_order env (co_sSortDataType (st_columns s ! idx)) \<noteq> None
        then js_bind (sort_value env s idx i) (\<lambda>v.
             js_bind (format_key env (co_sType (st_columns s ! idx)) v) (\<lambda>k.
             Inr (r\<lparr>ro_sort := Some (AList.update idx k (row_keys r))\<rparr>)))
        else Inr (r\<lparr>ro_sort := Some (row_keys r)\<rparr>))"

text \<open>\<open>_fnSortData\<close>\<close>

definition sortData :: "dt_env \<Rightarrow> nat \<Rightarrow> settings \<Rightarrow> settings js_res" where
  "sortData env idx s =
    js_bind (js_mapM (sort_row env s idx) [0..<length (st_data s)]) (\<lambda>rows. Inr (s\<lparr>st_data := rows\<rparr>))"

section \<open>Sorting\<close>

text \<open>\<open>aoData[a]._aSortData[col]\<close>\<close>

definition key_at :: "settings \<Rightarrow> nat \<Rightarrow> nat \<Rightarrow> sort_key" where
  "key_at s col a = (case map_of (row_keys (st_data s ! a)) col of None \<Rightarrow> KNum DNaN | Some k \<Rightarrow> k)"

definition cmp_int :: "int \<Rightarrow> int \<Rightarrow> int" where
  "cmp_int x y = (if x < y then -1 else if x > y then 1 else 0)"

text \<open>The two comparison functions; \<open>pos\<close> is \<open>aiOrig\<close>.\<close>

fun cmp_fast :: "settings \<Rightarrow> (nat \<Rightarrow> int) \<Rightarrow> flat_sort list \<Rightarrow> nat \<Rightarrow> nat \<Rightarrow> int" where
  "cmp_fast s pos [] a b = cmp_int (pos a) (pos b)"
| "cmp_fast s pos (f # fs) a b =
    (let x = key_at s (fs_col f) a; y = key_at s (fs_col f) b;
         test = (if key_less x y then -1 else if key_less y x then 1 else 0)
     in if test \<noteq> 0 then (if fs_dir f = Some ''asc'' then test else - test)
        else cmp_fast s pos fs a b)"

fun cmp_slow :: "settings \<Rightarrow> (nat \<Rightarrow> int) \<Rightarrow> flat_sort list \<Rightarrow> nat \<Rightarrow> nat \<Rightarrow> int" where
  "cmp_slow s pos [] a b = cmp_int (pos a) (pos b)"
| "cmp_slow s pos (f # fs) a b =
    (let x = key_at s (fs_col f) a; y = key_at s (fs_col f) b;
         test = (if fs_dir f = Some ''asc'' then string_asc key_less x y else string_desc key_less x y)
     in if test \<noteq> 0 then test else cmp_slow s pos fs a b)"

text \<open>The slow comparison calls \<open>oExtSort["string-" + dir]\<close>, which exists for two directions.\<close>

definition known_dirs :: "flat_sort list \<Rightarrow> bool" where
  "known_dirs fs \<longleftrightarrow> list_all (\<lambda>f. fs_dir f = Some ''asc'' \<or> fs_dir f = Some ''desc'') fs"

definition orig_pos :: "nat list \<Rightarrow> nat \<Rightarrow> int" where
  "orig_pos master a = js_indexOf master a"

definition dt_sort :: "dt_env \<Rightarrow> settings \<Rightarrow> settings js_res" where
  "dt_sort env s =
    js_bind (sortFlatten s) (\<lambda>aSort.
    js_bind (columnTypes env s) (\<lambda>s1.
    js_bind (js_foldM (\<lambda>f. sortData env (fs_col f)) aSort s1) (\<lambda>s2.
      let master = st_master s2; pos = orig_pos master;
          fast = list_all (\<lambda>f. order_pre (en_date_parse env) (fs_type f) \<noteq> None) aSort;
          done = (\<lambda>m. s2\<lparr>st_master := m, st_bSorted := True\<rparr>)
      in if dataSource s2 \<noteq> SSP \<and> aSort \<noteq> [] then
           (if fast then Inr (done (en_sort env (cmp_fast s2 pos aSort) master))
            else if known_dirs aSort \<or> length master < 2
            then Inr (done (en_sort env (cmp_slow s2 pos aSort) master))
            else Inl TypeError)
         else Inr (done master))))"

section \<open>Changing the order\<close>

text \<open>\<open>next(a)\<close> of \<open>_fnSortListener\<close>\<close>

definition next_idx :: "string list \<Rightarrow> sort_entry \<Rightarrow> nat" where
  "next_idx asSorting e =
    (let idx = (case so_idx e of Some i \<Rightarrow> int i
          | None \<Rightarrow> (case so_dir e of None \<Rightarrow> -1 | Some d \<Rightarrow> js_indexOf asSorting d))
     in if idx + 1 \<ge> int (length asSorting) then 0 else nat (idx + 1))"

definition dir_at :: "string list \<Rightarrow> nat \<Rightarrow> string option" where
  "dir_at asSorting i = js_nth asSorting (int i)"

definition advance :: "string list \<Rightarrow> sort_entry \<Rightarrow> sort_entry" where
  "advance asSorting e = e\<lparr>so_dir := dir_at asSorting (next_idx asSorting e), so_idx := Some (next_idx asSorting e)\<rparr>"

text \<open>The part of \<open>_fnSortListener\<close> before the redraw.\<close>

definition listener_sorting :: "nat \<Rightarrow> bool \<Rightarrow> settings \<Rightarrow> settings js_res" where
  "listener_sorting col app s =
    (if col < length (st_columns s) then
       (let asS = co_asSorting (st_columns s ! col); sorting = st_sorting s;
            first = js_indexOf (map so_col sorting) col
        in Inr (s\<lparr>st_sorting :=
             (if app \<and> st_bSortMulti s then
                (if first \<noteq> -1 then sorting[nat first := advance asS (sorting ! nat first)]
                 else sorting @ [\<lparr>so_col = col, so_dir = dir_at asS 0, so_index = Some 0, so_idx = Some 0\<rparr>])
              else (case sorting of
                  e # r \<Rightarrow> if so_col e = col then [advance asS e]
                    else [\<lparr>so_col = col, so_dir = dir_at asS 0, so_index = None, so_idx = Some 0\<rparr>]
                | [] \<Rightarrow> [\<lparr>so_col = col, so_dir = dir_at asS 0, so_index = None, so_idx = Some 0\<rparr>]))\<rparr>))
     else Inl TypeError)"

section \<open>Presentation\<close>

record aria_lang =
  al_sSortAscending :: string
  al_sSortDescending :: string

text \<open>\<open>_fnSortAria\<close>: the \<open>aria-sort\<close> and \<open>aria-label\<close> attributes of each header.\<close>

definition sortAria :: "aria_lang \<Rightarrow> settings \<Rightarrow> (string option \<times> string) list js_res" where
  "sortAria al s =
    js_bind (sortFlatten s) (\<lambda>aSort. Inr (map (\<lambda>i.
      let c = st_columns s ! i; asS = co_asSorting c; title = dt_stripHtml (co_sTitle c);
          label = (\<lambda>d. title @ (if d = Some ''asc'' then al_sSortAscending al else al_sSortDescending al))
      in if co_bSortable c then
           (case aSort of
              f # r \<Rightarrow> if fs_col f = i
                then (Some (if fs_dir f = Some ''asc'' then ''ascending'' else ''descending''),
                      label (case fs_index f of
                          None \<Rightarrow> dir_at asS 0
                        | Some n \<Rightarrow> (case dir_at asS (Suc n) of None \<Rightarrow> dir_at asS 0
                             | Some d \<Rightarrow> if d = [] then dir_at asS 0 else Some d)))
                else (None, label (dir_at asS 0))
            | [] \<Rightarrow> (None, label (dir_at asS 0)))
         else (None, title)) [0..<length (st_columns s)]))"

text \<open>\<open>_fnSortingClasses\<close>: the class numbers taken off and put on the cells of each column.\<close>

definition class_numbers :: "flat_sort list \<Rightarrow> (nat \<times> nat) list" where
  "class_numbers fs = map (\<lambda>(i, f). (fs_src f, if i < 2 then i + 1 else 3)) (enumerate 0 fs)"

definition sortingClasses :: "bool \<Rightarrow> settings \<Rightarrow> ((nat \<times> nat) list \<times> (nat \<times> nat) list \<times> settings) js_res" where
  "sortingClasses bSortClasses s =
    js_bind (sortFlatten s) (\<lambda>aSort.
      Inr (if st_bSort s \<and> bSortClasses
           then (class_numbers (st_lastSort s), class_numbers aSort, s\<lparr>st_lastSort := aSort\<rparr>)
           else ([], [], s\<lparr>st_lastSort := aSort\<rparr>)))"

section \<open>The comparison is consistent\<close>

definition key_test :: "sort_key \<Rightarrow> sort_key \<Rightarrow> int" where
  "key_test x y = (if key_less x y then -1 else if key_less y x then 1 else 0)"

lemma key_test_consistent:
  assumes "\<forall>a \<in> A. key_ok n (f a)"
  shows "consistent_on A (\<lambda>a b. key_test (f a) (f b))"
  unfolding consistent_on_def
proof (intro conjI ballI impI)
  have asym: "\<not> key_less (f b) (f a)" if "a \<in> A" "b \<in> A" "key_less (f a) (f b)" for a b
    using key_less_trans [of n "f a" "f b" "f a"] assms that by auto
  fix a assume a: "a \<in> A"
  show "key_test (f a) (f a) = 0" by (simp add: key_test_def)
  fix b assume b: "b \<in> A"
  show "(key_test (f a) (f b) < 0) = (0 < key_test (f b) (f a))"
    using asym a b by (auto simp: key_test_def)
  fix c assume c: "c \<in> A" and ab: "key_test (f a) (f b) \<le> 0" and bc: "key_test (f b) (f c) \<le> 0"
  have "f a = f b \<or> key_less (f a) (f b)" "f b = f c \<or> key_less (f b) (f c)"
    using ab bc key_less_total assms a b c by (fastforce simp: key_test_def split: if_splits)+
  then have "f a = f c \<or> key_less (f a) (f c)"
    using key_less_trans assms a b c by metis
  with asym a c show "key_test (f a) (f c) \<le> 0" by (auto simp: key_test_def)
qed

lemma pos_consistent: "consistent_on A (\<lambda>a b. cmp_int (pos a) (pos b))"
  by (auto simp: consistent_on_def cmp_int_def)

definition keys_ok :: "settings \<Rightarrow> flat_sort list \<Rightarrow> nat set \<Rightarrow> bool" where
  "keys_ok s fs A \<longleftrightarrow> (\<forall>f \<in> set fs. \<exists>n. \<forall>a \<in> A. key_ok n (key_at s (fs_col f) a))"

lemma cmp_fast_consistent: "keys_ok s fs A \<Longrightarrow> consistent_on A (cmp_fast s pos fs)"
proof (induction fs)
  case Nil
  have "cmp_fast s pos [] = (\<lambda>a b. cmp_int (pos a) (pos b))" by (intro ext) simp
  then show ?case using pos_consistent [of A pos] by (simp only:)
next
  case (Cons f fs)
  let ?t = "\<lambda>a b. key_test (key_at s (fs_col f) a) (key_at s (fs_col f) b)"
  let ?c = "if fs_dir f = Some ''asc'' then ?t else (\<lambda>a b. - ?t a b)"
  from Cons.prems obtain n where "\<forall>a \<in> A. key_ok n (key_at s (fs_col f) a)" by (auto simp: keys_ok_def)
  from key_test_consistent [OF this] have "consistent_on A ?c" by (auto intro: consistent_flip)
  moreover have "consistent_on A (cmp_fast s pos fs)" using Cons by (simp add: keys_ok_def)
  ultimately have "consistent_on A (\<lambda>a b. if ?c a b \<noteq> 0 then ?c a b else cmp_fast s pos fs a b)"
    by (rule consistent_lex)
  moreover have "cmp_fast s pos (f # fs) = (\<lambda>a b. if ?c a b \<noteq> 0 then ?c a b else cmp_fast s pos fs a b)"
    by (auto simp: fun_eq_iff key_test_def)
  ultimately show ?case by simp
qed

lemma cmp_fast_zero: "cmp_fast s pos fs a b = 0 \<Longrightarrow> pos a = pos b"
  by (induction fs) (auto simp: cmp_int_def Let_def split: if_splits)

lemma orig_pos_inj: "a \<in> set m \<Longrightarrow> b \<in> set m \<Longrightarrow> orig_pos m a = orig_pos m b \<Longrightarrow> a = b"
  unfolding orig_pos_def by (metis js_indexOf_present)

lemma cmp_fast_strict: "strict_on (set m) (cmp_fast s (orig_pos m) fs)"
  unfolding strict_on_def using cmp_fast_zero orig_pos_inj by blast

section \<open>What the order means\<close>

text \<open>Row \<open>a\<close> comes before row \<open>b\<close> by the first sort column in which their keys differ.\<close>

fun row_before :: "settings \<Rightarrow> flat_sort list \<Rightarrow> nat \<Rightarrow> nat \<Rightarrow> bool" where
  "row_before s [] a b = False"
| "row_before s (f # fs) a b =
    (let x = key_at s (fs_col f) a; y = key_at s (fs_col f) b;
         lt = (if fs_dir f = Some ''asc'' then key_less x y else key_less y x);
         gt = (if fs_dir f = Some ''asc'' then key_less y x else key_less x y)
     in lt \<or> \<not> gt \<and> row_before s fs a b)"

lemma cmp_fast_row_before:
  assumes "keys_ok s fs A" "a \<in> A" "b \<in> A"
  shows "cmp_fast s pos fs a b \<le> 0 \<longleftrightarrow> row_before s fs a b \<or> \<not> row_before s fs b a \<and> pos a \<le> pos b"
  using assms
proof (induction fs)
  case (Cons f fs)
  then obtain n where n: "key_ok n (key_at s (fs_col f) a)" "key_ok n (key_at s (fs_col f) b)"
    by (auto simp: keys_ok_def)
  have asym: "\<not> (key_less (key_at s (fs_col f) a) (key_at s (fs_col f) b) \<and>
      key_less (key_at s (fs_col f) b) (key_at s (fs_col f) a))"
    using key_less_trans [OF n(1) n(2) n(1)] by auto
  from Cons have "cmp_fast s pos fs a b \<le> 0 \<longleftrightarrow> row_before s fs a b \<or> \<not> row_before s fs b a \<and> pos a \<le> pos b"
    by (simp add: keys_ok_def)
  with asym show ?case by (auto simp: Let_def)
qed (auto simp: cmp_int_def)

section \<open>Sort data is the formatted cell\<close>

text \<open>No column uses a custom sort data source.\<close>

definition no_custom_order :: "dt_env \<Rightarrow> settings \<Rightarrow> bool" where
  "no_custom_order env s \<longleftrightarrow> (\<forall>c \<in> set (st_columns s). en_order env (co_sSortDataType c) = None)"

definition cached :: "settings \<Rightarrow> nat \<Rightarrow> nat \<Rightarrow> sort_key option" where
  "cached s c a = map_of (row_keys (st_data s ! a)) c"

text \<open>Every cached key is what the formatter makes of the cell.\<close>

definition keys_valid :: "dt_env \<Rightarrow> settings \<Rightarrow> bool" where
  "keys_valid env s \<longleftrightarrow> (\<forall>a < length (st_data s). \<forall>c k. cached s c a = Some k \<longrightarrow>
     (\<exists>v. cell_data s a c (Some ''sort'') = Inr v \<and> format_key env (co_sType (st_columns s ! c)) v = Inr k))"

lemma sort_row_Inr:
  assumes "sort_row env s idx i = Inr r" "en_order env (co_sSortDataType (st_columns s ! idx)) = None"
  shows "ro_data r = ro_data (st_data s ! i)"
    and "map_of (row_keys r) idx \<noteq> None"
    and "\<And>c. c \<noteq> idx \<Longrightarrow> map_of (row_keys r) c = cached s c i"
    and "map_of (row_keys r) idx = cached s idx i \<or> (\<exists>v k. map_of (row_keys r) idx = Some k \<and>
       cell_data s i idx (Some ''sort'') = Inr v \<and> format_key env (co_sType (st_columns s ! idx)) v = Inr k)"
  using assms
  by (auto simp: sort_row_def sort_value_def js_bind_Inr_iff Let_def row_keys_def cached_def update_conv'
      split: if_splits option.splits)

lemma sortData_rows:
  assumes "sortData env idx s = Inr t"
  obtains rows where "t = s\<lparr>st_data := rows\<rparr>" "length rows = length (st_data s)"
    "\<And>i. i < length (st_data s) \<Longrightarrow> sort_row env s idx i = Inr (rows ! i)"
proof -
  from assms obtain rows where r: "js_mapM (sort_row env s idx) [0..<length (st_data s)] = Inr rows"
    and t: "t = s\<lparr>st_data := rows\<rparr>"
    by (auto simp: sortData_def js_bind_Inr_iff)
  from r have all: "list_all2 (\<lambda>i y. sort_row env s idx i = Inr y) [0..<length (st_data s)] rows"
    by (simp add: js_mapM_Inr_iff)
  then have len: "length rows = length (st_data s)" by (auto dest: list_all2_lengthD)
  have "sort_row env s idx i = Inr (rows ! i)" if "i < length (st_data s)" for i
    using all that by (auto simp: list_all2_conv_all_nth)
  with t len show thesis by (rule that)
qed

lemma sort_row_data: "sort_row env s idx i = Inr r \<Longrightarrow> ro_data r = ro_data (st_data s ! i)"
  by (auto simp: sort_row_def js_bind_Inr_iff Let_def split: if_splits)

lemma sortData_frame:
  assumes "sortData env idx s = Inr t"
  shows "cells_eq s t" "st_columns t = st_columns s" "st_master t = st_master s" "\<exists>rows. t = s\<lparr>st_data := rows\<rparr>"
proof -
  from assms obtain rows where t: "t = s\<lparr>st_data := rows\<rparr>" and len: "length rows = length (st_data s)"
    and row: "\<And>i. i < length (st_data s) \<Longrightarrow> sort_row env s idx i = Inr (rows ! i)" by (rule sortData_rows) blast
  show "st_columns t = st_columns s" "st_master t = st_master s" "\<exists>rows. t = s\<lparr>st_data := rows\<rparr>"
    using t by auto
  have "map ro_data (st_data s) = map ro_data rows"
    using len by (intro nth_equalityI) (simp_all add: sort_row_data [OF row])
  with t show "cells_eq s t" by (simp add: cells_eq_def)
qed

lemma sortData_valid:
  assumes "sortData env idx s = Inr t" "keys_valid env s" "no_custom_order env s" "idx < length (st_columns s)"
  shows "keys_valid env t" and "\<And>a. a < length (st_data t) \<Longrightarrow> cached t idx a \<noteq> None"
    and "\<And>a c. a < length (st_data t) \<Longrightarrow> cached s c a \<noteq> None \<Longrightarrow> cached t c a \<noteq> None"
proof -
  from assms(1) obtain rows where t: "t = s\<lparr>st_data := rows\<rparr>" and len: "length rows = length (st_data s)"
    and row: "\<And>i. i < length (st_data s) \<Longrightarrow> sort_row env s idx i = Inr (rows ! i)" by (rule sortData_rows) blast
  have none: "en_order env (co_sSortDataType (st_columns s ! idx)) = None"
    using assms(3,4) by (simp add: no_custom_order_def)
  note eq = cell_data_cong [OF sortData_frame(1) [OF assms(1)]]
  note r = sort_row_Inr [OF row none]
  have c: "cached t c a = map_of (row_keys (rows ! a)) c" for c a by (simp add: cached_def t)
  show "cached t idx a \<noteq> None" if "a < length (st_data t)" for a using r(2) that c t len by simp
  show "cached t c a \<noteq> None" if "a < length (st_data t)" "cached s c a \<noteq> None" for a c
    using r(2,3) that c t len by (cases "c = idx") auto
  show "keys_valid env t"
    unfolding keys_valid_def
  proof (intro allI impI)
    fix a c k assume a: "a < length (st_data t)" and k: "cached t c a = Some k"
    then have a': "a < length (st_data s)" using t len by simp
    have "cached s c a = Some k \<or> (c = idx \<and> (\<exists>v. cell_data s a idx (Some ''sort'') = Inr v \<and>
        format_key env (co_sType (st_columns s ! idx)) v = Inr k))"
      using r(3) [OF a'] r(4) [OF a'] k c by (cases "c = idx") auto
    with assms(2) a' eq t show "\<exists>v. cell_data t a c (Some ''sort'') = Inr v \<and>
        format_key env (co_sType (st_columns t ! c)) v = Inr k"
      by (auto simp: keys_valid_def)
  qed
qed

lemma sortDatas:
  assumes "js_foldM (\<lambda>f. sortData env (fs_col f)) fs s = Inr t"
  shows "cells_eq s t" "st_columns t = st_columns s" "\<exists>rows. t = s\<lparr>st_data := rows\<rparr>"
    and "keys_valid env s \<Longrightarrow> no_custom_order env s \<Longrightarrow> \<forall>f \<in> set fs. fs_col f < length (st_columns s) \<Longrightarrow>
      keys_valid env t \<and>
      (\<forall>a < length (st_data t). (\<forall>f \<in> set fs. cached t (fs_col f) a \<noteq> None) \<and>
         (\<forall>c. cached s c a \<noteq> None \<longrightarrow> cached t c a \<noteq> None))"
  using assms
proof (induction fs arbitrary: s)
  case (Cons f fs)
  {
    case 1
    then obtain u where u: "sortData env (fs_col f) s = Inr u" "js_foldM (\<lambda>f. sortData env (fs_col f)) fs u = Inr t"
      by (auto simp: js_bind_Inr_iff)
    from sortData_frame(1) [OF u(1)] Cons.IH(1) [OF u(2)] show ?case by (rule cells_eq_trans)
  next
    case 2
    then obtain u where u: "sortData env (fs_col f) s = Inr u" "js_foldM (\<lambda>f. sortData env (fs_col f)) fs u = Inr t"
      by (auto simp: js_bind_Inr_iff)
    from sortData_frame(2) [OF u(1)] Cons.IH(2) [OF u(2)] show ?case by simp
  next
    case 3
    then obtain u where u: "sortData env (fs_col f) s = Inr u" "js_foldM (\<lambda>f. sortData env (fs_col f)) fs u = Inr t"
      by (auto simp: js_bind_Inr_iff)
    from sortData_frame(4) [OF u(1)] Cons.IH(3) [OF u(2)] show ?case by auto
  next
    case 4
    then obtain u where u: "sortData env (fs_col f) s = Inr u" "js_foldM (\<lambda>f. sortData env (fs_col f)) fs u = Inr t"
      by (auto simp: js_bind_Inr_iff)
    note fr = sortData_frame [OF u(1)]
    have col: "fs_col f < length (st_columns s)" using 4 by simp
    note v = sortData_valid [OF u(1) "4"(1,2) col]
    have len: "length (st_data t) = length (st_data u)"
      using cells_eq_lengths [OF Cons.IH(1) [OF u(2)]] by simp
    have "no_custom_order env u" using "4"(2) fr(2) by (simp add: no_custom_order_def)
    moreover have "\<forall>f \<in> set fs. fs_col f < length (st_columns u)" using 4 fr(2) by simp
    ultimately have IH: "keys_valid env t \<and> (\<forall>a < length (st_data t). (\<forall>f \<in> set fs. cached t (fs_col f) a \<noteq> None) \<and>
         (\<forall>c. cached u c a \<noteq> None \<longrightarrow> cached t c a \<noteq> None))"
      by (rule Cons.IH(4) [OF v(1) _ _ u(2)])
    then show ?case using v(2,3) len by (simp del: not_None_eq)
  }
qed (simp_all, metis settings.surjective settings.update_convs(2))

lemma sortFlatten_cols:
  assumes "sortFlatten s = Inr fs" "f \<in> set fs"
  shows "fs_col f < length (st_columns s)" "fs_src f < length (st_columns s)"
proof -
  from assms(1) obtain xss where x: "js_mapM (flatten_entry s) (nested_sort s) = Inr xss" "fs = concat xss"
    by (auto simp: sortFlatten_def js_bind_Inr_iff)
  with assms(2) obtain xs where xs: "xs \<in> set xss" "f \<in> set xs" by auto
  from x(1) xs(1) obtain e where e: "flatten_entry s e = Inr xs"
    by (auto simp: js_mapM_Inr_iff list_all2_conv_all_nth in_set_conv_nth)
  then have all: "list_all2 (\<lambda>c y. (if c < length (st_columns s)
          then Inr \<lparr>fs_src = so_col e, fs_col = c, fs_dir = so_dir e, fs_index = so_index e,
                    fs_type = type_or_string (co_sType (st_columns s ! c))\<rparr>
          else Inl TypeError) = Inr y) (co_aDataSort (st_columns s ! so_col e)) xs"
    and src: "so_col e < length (st_columns s)"
    by (auto simp: flatten_entry_def js_mapM_Inr_iff split: if_splits)
  with xs(2) obtain c where "(if c < length (st_columns s)
          then Inr \<lparr>fs_src = so_col e, fs_col = c, fs_dir = so_dir e, fs_index = so_index e,
                    fs_type = type_or_string (co_sType (st_columns s ! c))\<rparr>
          else Inl TypeError) = Inr f"
    by (auto simp: list_all2_conv_all_nth in_set_conv_nth)
  with src show "fs_col f < length (st_columns s)" "fs_src f < length (st_columns s)"
    by (auto split: if_splits)
qed

section \<open>The result of a sort\<close>

lemma dt_sortE:
  assumes "dt_sort env s = Inr t" "sortFlatten s = Inr fs"
  obtains s2 m where "cells_eq s s2" "\<exists>rows cs. s2 = s\<lparr>st_columns := cs, st_data := rows\<rparr>"
    "t = s2\<lparr>st_master := m, st_bSorted := True\<rparr>"
    "dataSource s \<noteq> SSP \<and> fs \<noteq> [] \<and> (\<forall>f \<in> set fs. order_pre (en_date_parse env) (fs_type f) \<noteq> None) \<Longrightarrow>
       m = en_sort env (cmp_fast s2 (orig_pos (st_master s)) fs) (st_master s)"
    "\<exists>s1. columnTypes env s = Inr s1 \<and> js_foldM (\<lambda>f. sortData env (fs_col f)) fs s1 = Inr s2"
    "dataSource s = SSP \<or> fs = [] \<Longrightarrow> m = st_master s"
    "m = st_master s \<or> (\<exists>cmp. m = en_sort env cmp (st_master s))"
proof -
  from assms obtain s1 s2 where s1: "columnTypes env s = Inr s1"
    and s2: "js_foldM (\<lambda>f. sortData env (fs_col f)) fs s1 = Inr s2"
    by (auto simp: dt_sort_def js_bind_Inr_iff)
  note c = columnTypes_frame [OF s1] and d = sortDatas [OF s2]
  obtain cs where cs: "s1 = s\<lparr>st_columns := cs\<rparr>" using c(2) by blast
  obtain rows where rows: "s2 = s1\<lparr>st_data := rows\<rparr>" using d(3) by blast
  have master: "st_master s2 = st_master s" "dataSource s2 = dataSource s" using cs rows by (simp_all add: dataSource_def)
  show thesis
  proof (rule that)
    show "cells_eq s s2" using c(1) d(1) by (rule cells_eq_trans)
    show "\<exists>rows cs. s2 = s\<lparr>st_columns := cs, st_data := rows\<rparr>" using cs rows by auto
    show "\<exists>s1. columnTypes env s = Inr s1 \<and> js_foldM (\<lambda>f. sortData env (fs_col f)) fs s1 = Inr s2"
      using s1 s2 by blast
    show "t = s2\<lparr>st_master := st_master t, st_bSorted := True\<rparr>"
      using assms s1 s2 by (auto simp: dt_sort_def Let_def split: if_splits)
    show "st_master t = en_sort env (cmp_fast s2 (orig_pos (st_master s)) fs) (st_master s)"
      if "dataSource s \<noteq> SSP \<and> fs \<noteq> [] \<and> (\<forall>f \<in> set fs. order_pre (en_date_parse env) (fs_type f) \<noteq> None)"
      using assms s1 s2 that master by (auto simp: dt_sort_def Let_def list_all_iff split: if_splits)
    show "st_master t = st_master s" if "dataSource s = SSP \<or> fs = []"
      using assms s1 s2 that master by (auto simp: dt_sort_def Let_def split: if_splits)
    show "st_master t = st_master s \<or> (\<exists>cmp. st_master t = en_sort env cmp (st_master s))"
      using assms s1 s2 master by (auto simp: dt_sort_def Let_def split: if_splits)
  qed
qed

lemma key_at_eq: "st_data s = st_data t \<Longrightarrow> key_at s = key_at t"
  by (simp add: key_at_def fun_eq_iff)

lemma cmp_fast_eq: "st_data s = st_data t \<Longrightarrow> cmp_fast s pos fs = cmp_fast t pos fs"
proof (intro ext, induction fs)
  case (Cons f fs)
  show ?case unfolding cmp_fast.simps key_at_eq [OF Cons.prems] Cons.IH [OF Cons.prems] by (rule refl)
qed simp

text \<open>The platform's sort is only used on the row order.\<close>

lemma env_sort_irrelevant:
  "columnTypes (env\<lparr>en_sort := f\<rparr>) = columnTypes env"
  "sortData (env\<lparr>en_sort := f\<rparr>) = sortData env"
proof -
  have e: "en_date_parse (env\<lparr>en_sort := f\<rparr>) = en_date_parse env" "en_order (env\<lparr>en_sort := f\<rparr>) = en_order env"
    by simp_all
  show "columnTypes (env\<lparr>en_sort := f\<rparr>) = columnTypes env"
    by (rule ext) (unfold columnTypes_def column_type_def e, rule refl)
  have "sort_row (env\<lparr>en_sort := f\<rparr>) = sort_row env"
    by (intro ext) (unfold sort_row_def sort_value_def format_key_def e, rule refl)
  then show "sortData (env\<lparr>en_sort := f\<rparr>) = sortData env"
    by (intro ext) (unfold sortData_def, simp only:)
qed

lemma sorted_strict:
  assumes "distinct xs" "sorted_wrt P xs" "\<And>a b. a \<in> set xs \<Longrightarrow> b \<in> set xs \<Longrightarrow> a \<noteq> b \<Longrightarrow> P a b \<Longrightarrow> Q a b"
  shows "sorted_wrt Q xs"
  using assms by (induction xs) auto

section \<open>Properties\<close>

lemma dt_sort_orders:
  assumes "js_sorter (en_sort env)" and "dt_sort env s = Inr t" and "dataSource s \<noteq> SSP"
    and "distinct (st_master s)" and "sortFlatten s = Inr fs" and "fs \<noteq> []"
    and "\<forall>f \<in> set fs. order_pre (en_date_parse env) (fs_type f) \<noteq> None"
    and "keys_ok t fs (set (st_master s))"
  shows "mset (st_master t) = mset (st_master s) \<and> st_bSorted t \<and>
    sorted_wrt (\<lambda>a b. row_before t fs a b \<or>
      \<not> row_before t fs b a \<and> orig_pos (st_master s) a < orig_pos (st_master s) b) (st_master t) \<and>
    (\<forall>f. js_sorter f \<longrightarrow> dt_sort (env\<lparr>en_sort := f\<rparr>) s = Inr t)"
proof (intro conjI allI impI)
  obtain s2 m where t: "t = s2\<lparr>st_master := m, st_bSorted := True\<rparr>"
    and m0: "m = en_sort env (cmp_fast s2 (orig_pos (st_master s)) fs) (st_master s)"
    by (rule dt_sortE [OF assms(2,5)]) (use assms in blast)
  let ?cmp = "cmp_fast t (orig_pos (st_master s)) fs"
  have m: "st_master t = en_sort env ?cmp (st_master s)"
    using cmp_fast_eq [of t s2] t m0 by simp
  note cons = cmp_fast_consistent [OF assms(8), of "orig_pos (st_master s)"]
  show perm: "mset (st_master t) = mset (st_master s)"
    unfolding m by (rule js_sorter.sort_perm [OF assms(1)])
  then have set_t: "set (st_master t) = set (st_master s)" and dist: "distinct (st_master t)"
    using mset_eq_setD mset_eq_imp_distinct_iff assms(4) by blast+
  show "st_bSorted t" by (simp add: t)
  have le: "sorted_wrt (\<lambda>a b. ?cmp a b \<le> 0) (st_master t)"
    unfolding m by (rule js_sorter.sort_order [OF assms(1) cons])
  show "sorted_wrt (\<lambda>a b. row_before t fs a b \<or>
      \<not> row_before t fs b a \<and> orig_pos (st_master s) a < orig_pos (st_master s) b) (st_master t)"
  proof (rule sorted_strict [OF dist le])
    fix a b assume ab: "a \<in> set (st_master t)" "b \<in> set (st_master t)" "a \<noteq> b" "?cmp a b \<le> 0"
    then have "orig_pos (st_master s) a \<noteq> orig_pos (st_master s) b"
      using orig_pos_inj set_t by metis
    with ab set_t cmp_fast_row_before [OF assms(8), of a b "orig_pos (st_master s)"]
    show "row_before t fs a b \<or> \<not> row_before t fs b a \<and> orig_pos (st_master s) a < orig_pos (st_master s) b"
      by auto
  qed
  fix f :: "(nat \<Rightarrow> nat \<Rightarrow> int) \<Rightarrow> nat list \<Rightarrow> nat list"
  assume f: "js_sorter f"
  have same: "f ?cmp (st_master s) = st_master t"
    by (rule js_sorter.sort_unique [OF f cons cmp_fast_strict perm le])
  from assms(2,5) obtain s1 s2' where s1: "columnTypes env s = Inr s1"
    and s2': "js_foldM (\<lambda>f. sortData env (fs_col f)) fs s1 = Inr s2'"
    by (auto simp: dt_sort_def js_bind_Inr_iff)
  have "dataSource s2' = dataSource s" "st_master s2' = st_master s"
    using columnTypes_frame(2) [OF s1] sortDatas(3) [OF s2'] by (auto simp: dataSource_def)
  with assms s1 s2' have t2: "t = s2'\<lparr>st_master := en_sort env (cmp_fast s2' (orig_pos (st_master s)) fs) (st_master s), st_bSorted := True\<rparr>"
    by (auto simp: dt_sort_def Let_def list_all_iff split: if_splits)
  have data: "st_data s2' = st_data t" by (subst t2) simp
  have mt: "st_master t = en_sort env (cmp_fast s2' (orig_pos (st_master s)) fs) (st_master s)"
    by (subst t2) simp
  have same2: "f (cmp_fast s2' (orig_pos (st_master s)) fs) (st_master s) =
      en_sort env (cmp_fast s2' (orig_pos (st_master s)) fs) (st_master s)"
    unfolding cmp_fast_eq [OF data] using same mt [unfolded cmp_fast_eq [OF data]] by (rule trans)
  note t3 = t2 [folded same2]
  have fast: "list_all (\<lambda>f. order_pre (en_date_parse env) (fs_type f) \<noteq> None) fs = True"
    using assms(7) by (simp add: list_all_iff)
  have c: "(dataSource s2' \<noteq> SSP \<and> fs \<noteq> []) = True"
    using assms(3,6) \<open>dataSource s2' = dataSource s\<close> by simp
  have e: "en_date_parse (env\<lparr>en_sort := f\<rparr>) = en_date_parse env" "en_sort (env\<lparr>en_sort := f\<rparr>) = f" by simp_all
  show "dt_sort (env\<lparr>en_sort := f\<rparr>) s = Inr t"
    unfolding dt_sort_def env_sort_irrelevant assms(5) js_bind_simps s1 s2' Let_def e c fast if_True
      \<open>st_master s2' = st_master s\<close> by (simp only: t3 [symmetric])
qed

text \<open>C17: ordering a client-side table rearranges its rows so that, in the result, no row comes
  after one it should precede by the first sort column in which their keys differ (in that
  column's direction), and rows equal in all sort columns keep their previous order.  The result
  is the same for every correct sorting algorithm of the platform.  (The keys of each sort
  column are all strings, or all numbers other than \<open>NaN\<close>.)\<close>

theorem sort_orders_rows:
  assumes "js_sorter (en_sort env)" and "dt_sort env s = Inr t" and "dataSource s \<noteq> SSP"
    and "distinct (st_master s)" and "sortFlatten s = Inr fs" and "fs \<noteq> []"
    and "\<forall>f \<in> set fs. order_pre (en_date_parse env) (fs_type f) \<noteq> None"
    and "keys_ok t fs (set (st_master s))"
  shows "mset (st_master t) = mset (st_master s) \<and> st_bSorted t \<and>
    sorted_wrt (\<lambda>a b. row_before t fs a b \<or>
      \<not> row_before t fs b a \<and> orig_pos (st_master s) a < orig_pos (st_master s) b) (st_master t) \<and>
    (\<forall>f. js_sorter f \<longrightarrow> dt_sort (env\<lparr>en_sort := f\<rparr>) s = Inr t)"
  using assms by (rule dt_sort_orders)

definition base_env :: dt_env where
  "base_env = \<lparr>en_date_parse = (\<lambda>_. DNaN), en_search = [], en_order = (\<lambda>_. None), en_decode = id,
     en_sort = insertion_sort, en_preDraw = []\<rparr>"

lemma base_env_sorter: "js_sorter (en_sort base_env)"
  by (simp add: base_env_def insertion.js_sorter_axioms)

definition result_master :: "settings js_res \<Rightarrow> nat list" where
  "result_master r = (case r of Inl _ \<Rightarrow> [] | Inr t \<Rightarrow> st_master t)"

definition ten_nine :: settings where
  "ten_nine = small_table 1 [[JStr ''10''], [JStr ''9''], [JStr ''10'']]"

lemma ten_nine_flat: "sortFlatten ten_nine = Inr [\<lparr>fs_src = 0, fs_col = 0, fs_dir = Some ''asc'', fs_index = Some 0, fs_type = ''string''\<rparr>]"
  by code_simp

lemma ten_nine_keys:
  "(case dt_sort base_env ten_nine of Inl e \<Rightarrow> False
    | Inr t \<Rightarrow> map (key_at t 0) [0, 1, 2] = [KNum (Fin 10), KNum (Fin 9), KNum (Fin 10)] \<and> st_master t = [1, 0, 2])"
  by code_simp

lemma ten_nine_start: "st_master ten_nine = [0, 1, 2]" "dataSource ten_nine \<noteq> SSP"
  by code_simp+

theorem sort_orders_rows_witness:
  "\<exists>t. dt_sort base_env ten_nine = Inr t \<and> st_master t = [1, 0, 2] \<and>
     (\<forall>f. js_sorter f \<longrightarrow> dt_sort (base_env\<lparr>en_sort := f\<rparr>) ten_nine = Inr t)"
proof -
  from ten_nine_keys obtain t where t: "dt_sort base_env ten_nine = Inr t" "st_master t = [1, 0, 2]"
    "key_at t 0 0 = KNum (Fin 10)" "key_at t 0 1 = KNum (Fin 9)" "key_at t 0 2 = KNum (Fin 10)"
    by (auto split: sum.splits)
  let ?fs = "[\<lparr>fs_src = 0, fs_col = 0, fs_dir = Some ''asc'', fs_index = Some 0, fs_type = ''string''\<rparr>]"
  have "keys_ok t ?fs (set (st_master ten_nine))"
    using t(3-5) by (auto simp: keys_ok_def key_ok_def ten_nine_start intro!: exI [of _ True])
  from sort_orders_rows [OF base_env_sorter t(1) ten_nine_start(2) _ ten_nine_flat _ _ this] t
  show ?thesis by (auto simp: ten_nine_start order_pre_def)
qed

text \<open>on a table whose rows have no cached sort data (new or invalidated rows), the key a row
  is ordered by is what the formatter of the column's resolved type makes of the cell's sort
  value; for a column that was detected as numeric and whose values do not depend on the request
  type, every key is a number and never \<open>NaN\<close>, so the comparison is consistent.\<close>

theorem sort_keys_are_cells:
  assumes "dt_sort env s = Inr t" and "sortFlatten s = Inr fs" and "no_custom_order env s"
    and "\<forall>r \<in> set (st_data s). ro_sort r = None" and "f \<in> set fs" and "a < length (st_data s)"
  shows "(\<exists>v. cell_data s a (fs_col f) (Some ''sort'') = Inr v \<and>
      format_key env (co_sType (st_columns t ! fs_col f)) v = Inr (key_at t (fs_col f) a)) \<and>
    (co_sType (st_columns t ! fs_col f) = Some ''numeric'' \<and> co_sType (st_columns s ! fs_col f) = None \<and>
     co_sManualType (st_columns s ! fs_col f) = None \<and>
     cell_data s a (fs_col f) (Some ''sort'') = cell_data s a (fs_col f) (Some ''type'') \<longrightarrow>
     key_ok True (key_at t (fs_col f) a))"
proof -
  let ?c = "fs_col f"
  obtain s2 m s1 where t: "t = s2\<lparr>st_master := m, st_bSorted := True\<rparr>"
    and s1: "columnTypes env s = Inr s1" and s2: "js_foldM (\<lambda>f. sortData env (fs_col f)) fs s1 = Inr s2"
    by (rule dt_sortE [OF assms(1,2)]) blast
  note types = columnTypes_frame [OF s1] and d = sortDatas [OF s2]
  have data1: "st_data s1 = st_data s" using types(2) by auto
  have col: "?c < length (st_columns s)" by (rule sortFlatten_cols(1) [OF assms(2,5)])
  have cols1: "length (st_columns s1) = length (st_columns s)" using cells_eq_lengths [OF types(1)] by simp
  have "cached s1 c b = None" if "b < length (st_data s1)" for c b
    using assms(4) that data1 by (simp add: cached_def row_keys_def)
  then have v1: "keys_valid env s1" by (simp add: keys_valid_def)
  have "no_custom_order env s1"
    using assms(3) cells_eq_col [OF types(1), THEN untyped_fields(6), symmetric] cols1
    by (auto simp: no_custom_order_def in_set_conv_nth) (meson nth_mem)
  from d(4) [OF v1 this] sortFlatten_cols(1) [OF assms(2)] cols1
  have valid: "keys_valid env s2" and has: "\<forall>b < length (st_data s2). \<forall>f \<in> set fs. cached s2 (fs_col f) b \<noteq> None"
    by auto
  have eq: "cells_eq s s2" using types(1) d(1) by (rule cells_eq_trans)
  have a2: "a < length (st_data s2)" using cells_eq_lengths [OF eq] assms(6) by simp
  with has assms(5) obtain k where k: "cached s2 ?c a = Some k" by blast
  then have key: "key_at t ?c a = k" by (simp add: key_at_def cached_def t)
  have cols_t: "st_columns t = st_columns s1" using d(2) by (simp add: t)
  from valid a2 k obtain v where v: "cell_data s2 a ?c (Some ''sort'') = Inr v"
    "format_key env (co_sType (st_columns s2 ! ?c)) v = Inr k"
    unfolding keys_valid_def by blast
  have v0: "cell_data s a ?c (Some ''sort'') = Inr v" using v(1) cell_data_cong [OF eq] by simp
  have v2: "format_key env (co_sType (st_columns t ! ?c)) v = Inr (key_at t ?c a)"
    using v(2) d(2) key cols_t by simp
  have "key_ok True (key_at t ?c a)"
    if num: "co_sType (st_columns t ! ?c) = Some ''numeric''" "co_sType (st_columns s ! ?c) = None"
      "co_sManualType (st_columns s ! ?c) = None" and same: "cell_data s a ?c (Some ''sort'') = cell_data s a ?c (Some ''type'')"
  proof -
    from columnTypes_nth [OF s1 col] cols_t num(1)
    have "column_type env s ?c (st_columns s ! ?c) = Inr (Some ''numeric'')" by auto
    from column_type_numeric [OF this num(2,3) assms(6)] same v0 have "dt_isNumber v False"
      by (metis Inr_inject)
    moreover have "key_at t ?c a = KNum (numeric_pre v)"
      using v2 num(1) by (simp add: format_key_def order_pre_def)
    ultimately show ?thesis using numeric_pre_not_nan by (simp add: key_ok_def)
  qed
  with v0 v2 show ?thesis by blast
qed

theorem sort_keys_are_cells_witness:
  "\<exists>t. dt_sort base_env ten_nine = Inr t \<and> (\<exists>v. cell_data ten_nine 1 0 (Some ''sort'') = Inr v \<and>
     format_key base_env (co_sType (st_columns t ! 0)) v = Inr (key_at t 0 1))"
proof -
  from ten_nine_keys obtain t where t: "dt_sort base_env ten_nine = Inr t" by (auto split: sum.splits)
  have "no_custom_order base_env ten_nine" by (simp add: no_custom_order_def base_env_def)
  moreover have "\<forall>r \<in> set (st_data ten_nine). ro_sort r = None" "1 < length (st_data ten_nine)"
    by (simp_all add: ten_nine_def small_table_def plain_row_def)
  ultimately show ?thesis
    using sort_keys_are_cells [OF t ten_nine_flat, of "\<lparr>fs_src = 0, fs_col = 0, fs_dir = Some ''asc'', fs_index = Some 0, fs_type = ''string''\<rparr>" 1] t
    by auto
qed

text \<open>a cell holding the number 0 is ordered before every other number: the numeric
  formatter tests for a falsy value before it converts, and maps 0 to minus infinity.\<close>

theorem numeric_zero_sorts_first:
  "x \<noteq> 0 \<Longrightarrow> format_key env (Some ''numeric'') (JNum (Fin 0)) = Inr (KNum NegInf) \<and>
    format_key env (Some ''numeric'') (JNum (Fin x)) = Inr (KNum (Fin x)) \<and>
    key_less (KNum NegInf) (KNum (Fin x))"
  by (simp add: format_key_def order_pre_def numeric_pre_def dt_numericReplace_def dt_empty_def)

theorem numeric_zero_sorts_first_witness:
  "key_less (KNum NegInf) (KNum (Fin (-5)))"
  using numeric_zero_sorts_first [of "-5" base_env] by simp

text \<open>clicking a header repeatedly goes through the column's sequence of directions in order
  and then starts over, whatever was sorted before the first click.\<close>

fun clicks :: "nat \<Rightarrow> nat \<Rightarrow> settings \<Rightarrow> settings js_res" where
  "clicks 0 col s = Inr s"
| "clicks (Suc n) col s = js_bind (clicks n col s) (listener_sorting col False)"

theorem clicks_cycle:
  assumes "col < length (st_columns s)" and "co_asSorting (st_columns s ! col) = asS" and "asS \<noteq> []"
    and "\<forall>e. st_sorting s = e # tl (st_sorting s) \<longrightarrow> so_col e \<noteq> col"
  shows "\<exists>t. clicks (Suc n) col s = Inr t \<and> (\<exists>e. st_sorting t = [e] \<and> so_col e = col \<and>
    so_dir e = Some (asS ! (n mod length asS)))"
proof -
  have "\<exists>t e. clicks (Suc n) col s = Inr t \<and> st_columns t = st_columns s \<and> st_sorting t = [e] \<and> so_col e = col \<and>
      so_idx e = Some (n mod length asS) \<and> so_dir e = Some (asS ! (n mod length asS))"
  proof (induction n)
    case 0
    from assms show ?case
      by (cases "st_sorting s") (auto simp: listener_sorting_def Let_def dir_at_def js_nth_def)
  next
    case (Suc n)
    then obtain t e where t: "clicks (Suc n) col s = Inr t" "st_columns t = st_columns s" "st_sorting t = [e]" "so_col e = col"
      "so_idx e = Some (n mod length asS)" by blast
    have "next_idx asS e = Suc n mod length asS"
    proof -
      have "n mod length asS < length asS" using assms(3) by simp
      then show ?thesis using t(5) by (auto simp: next_idx_def Let_def mod_Suc nat_add_distrib)
    qed
    with t assms(1-3) show ?case
      by (simp add: listener_sorting_def Let_def advance_def dir_at_def js_nth_def)
  qed
  then show ?thesis by blast
qed

theorem clicks_cycle_witness:
  "\<exists>t. clicks 3 1 (small_table 2 []) = Inr t \<and> (\<exists>e. st_sorting t = [e] \<and> so_col e = 1 \<and> so_dir e = Some ''asc'')"
proof -
  have "1 < length (st_columns (small_table 2 []))" by (simp add: small_table_def)
  moreover have "co_asSorting (st_columns (small_table 2 []) ! 1) = [''asc'', ''desc'']"
    by (simp add: small_table_def plain_column_def)
  moreover have "\<forall>e. st_sorting (small_table 2 []) = e # tl (st_sorting (small_table 2 [])) \<longrightarrow> so_col e \<noteq> 1"
    by (simp add: small_table_def)
  moreover have "[''asc'', ''desc''] ! (2 mod length [''asc'', ''desc'']) = ''asc''" "Suc 2 = 3"
    by (simp_all add: numeral_2_eq_2)
  ultimately show ?thesis using clicks_cycle [of 1 "small_table 2 []" "[''asc'', ''desc'']" 2]
    by (metis list.distinct(1))
qed

text \<open>after a click on a header that was not sorted, with the default sequence, the
  accessibility label announces ascending order as the next action, although the next click
  sorts descending: the entry has no index for \<open>_fnSortAria\<close> to continue from.\<close>

theorem aria_label_stale:
  assumes "listener_sorting col False s = Inr t" and "st_fixed s = NoFixed"
    and "\<forall>e. st_sorting s = e # tl (st_sorting s) \<longrightarrow> so_col e \<noteq> col"
    and "co_asSorting (st_columns s ! col) = [''asc'', ''desc'']"
    and "co_aDataSort (st_columns s ! col) = [col]" and "co_bSortable (st_columns s ! col)"
  shows "\<exists>ls. sortAria al t = Inr ls \<and>
      snd (ls ! col) = dt_stripHtml (co_sTitle (st_columns s ! col)) @ al_sSortAscending al \<and>
    (\<exists>u e. listener_sorting col False t = Inr u \<and> st_sorting u = [e] \<and> so_dir e = Some ''desc'')"
proof -
  from assms(1) have col: "col < length (st_columns s)" by (auto simp: listener_sorting_def split: if_splits)
  have t: "t = s\<lparr>st_sorting := [\<lparr>so_col = col, so_dir = Some ''asc'', so_index = None, so_idx = Some 0\<rparr>]\<rparr>"
    using assms(1,3,4) col
    by (cases "st_sorting s") (auto simp: listener_sorting_def Let_def dir_at_def js_nth_def)
  have flat: "sortFlatten t = Inr [\<lparr>fs_src = col, fs_col = col, fs_dir = Some ''asc'', fs_index = None,
      fs_type = type_or_string (co_sType (st_columns s ! col))\<rparr>]"
    using col assms(2,5) by (simp add: t sortFlatten_def nested_sort_def flatten_entry_def)
  show ?thesis
    using col assms(4,6)
    by (simp add: sortAria_def flat, simp add: t listener_sorting_def Let_def dir_at_def js_nth_def advance_def next_idx_def)
qed

definition english :: aria_lang where
  "english = \<lparr>al_sSortAscending = '': activate to sort column ascending'', al_sSortDescending = '': activate to sort column descending''\<rparr>"

theorem aria_label_stale_witness:
  "\<exists>t ls. listener_sorting 1 False (small_table 2 []) = Inr t \<and> sortAria english t = Inr ls \<and>
     snd (ls ! 1) = ''T: activate to sort column ascending''"
proof -
  obtain t where t: "listener_sorting 1 False (small_table 2 []) = Inr t"
    by (simp add: listener_sorting_def small_table_def Let_def)
  have "st_fixed (small_table 2 []) = NoFixed" "\<forall>e. st_sorting (small_table 2 []) = e # tl (st_sorting (small_table 2 [])) \<longrightarrow> so_col e \<noteq> 1"
    "co_asSorting (st_columns (small_table 2 []) ! 1) = [''asc'', ''desc'']"
    "co_aDataSort (st_columns (small_table 2 []) ! 1) = [1]" "co_bSortable (st_columns (small_table 2 []) ! 1)"
    by (simp_all add: small_table_def plain_column_def)
  from aria_label_stale [OF t this, of english] t show ?thesis
    by (auto simp: english_def small_table_def plain_column_def)
qed

end
