(* ===== verification/DT_Ajax.thy ===== *)
theory DT_Ajax
  imports DT_Sort DT_Paging
begin

text \<open>
  Talking to a server (public/js/plugins/dataTables/jquery.dataTables.js): the parameters of a
  server-side processing request in both formats (\<open>_fnAjaxParameters\<close>), their conversion and
  the user's additions (\<open>_fnBuildAjax\<close>), and the part of an answer that holds the rows
  (\<open>_fnAjaxDataSrc\<close>).  The request itself is jQuery's; the \<open>serverParams\<close> event is not modelled.
\<close>

section \<open>Request parameters\<close>

definition jnum :: "int \<Rightarrow> jsval" where
  "jnum n = JNum (Fin (of_int n))"

definition jopt :: "bool option \<Rightarrow> jsval" where
  "jopt b = (case b of None \<Rightarrow> JUndef | Some x \<Rightarrow> JBool x)"

definition jdir :: "string option \<Rightarrow> jsval" where
  "jdir d = (case d of None \<Rightarrow> JUndef | Some x \<Rightarrow> JStr x)"

text \<open>The \<open>mData\<close> option as a value of the request; functions inside an object are dropped.\<close>

fun src_value :: "data_src \<Rightarrow> jsval"
  and src_members :: "(string \<times> data_src) list \<Rightarrow> js_object" where
  "src_value SrcUndef = JUndef"
| "src_value SrcNull = JNull"
| "src_value (SrcInt n) = jnum n"
| "src_value (SrcStr s) = JStr s"
| "src_value (SrcFun f g) = JStr ''function''"
| "src_value (SrcObj kvs) = JObj (src_members kvs)"
| "src_members [] = []"
| "src_members ((k, SrcFun f g) # kvs) = src_members kvs"
| "src_members ((k, v) # kvs) = (k, src_value v) # src_members kvs"

text \<open>The search of column \<open>i\<close>; a missing entry raises.\<close>

definition col_search :: "settings \<Rightarrow> nat \<Rightarrow> search js_res" where
  "col_search s i = (if i < length (st_colSearch s)
     then (case st_colSearch s ! i of Some x \<Rightarrow> Inr x | None \<Rightarrow> Inl TypeError) else Inl TypeError)"

definition request_length :: "settings \<Rightarrow> int" where
  "request_length s = (if st_bPaginate s then st_length s else -1)"

text \<open>The modern format: an object with the columns, the order, the page and the search.\<close>

definition column_params :: "settings \<Rightarrow> nat \<Rightarrow> jsval js_res" where
  "column_params s i = js_bind (col_search s i) (\<lambda>x. let c = st_columns s ! i in
     Inr (JObj [(''data'', src_value (co_mData c)), (''name'', JStr (co_sName c)),
       (''searchable'', JBool (co_bSearchable c)), (''orderable'', JBool (co_bSortable c)),
       (''search'', JObj [(''value'', JStr (se_sSearch x)), (''regex'', jopt (se_bRegex x))])]))"

definition order_params :: "flat_sort \<Rightarrow> jsval" where
  "order_params f = JObj [(''column'', jnum (int (fs_col f))), (''dir'', jdir (fs_dir f))]"

definition modern_params :: "settings \<Rightarrow> flat_sort list \<Rightarrow> js_object js_res" where
  "modern_params s order =
    js_bind (js_mapM (column_params s) [0..<length (st_columns s)]) (\<lambda>cols.
      Inr [(''draw'', jnum (int (st_iDraw s))), (''columns'', JArr cols), (''order'', JArr (map order_params order)),
        (''start'', jnum (st_start s)), (''length'', jnum (request_length s)),
        (''search'', JObj [(''value'', JStr (se_sSearch (st_search s))), (''regex'', jopt (se_bRegex (st_search s)))])])"

text \<open>The format of version 1.9: name and value pairs.\<close>

definition legacy_column :: "settings \<Rightarrow> nat \<Rightarrow> (string \<times> jsval) list js_res" where
  "legacy_column s i = js_bind (col_search s i) (\<lambda>x. let c = st_columns s ! i; n = show_nat i in
     Inr ((''mDataProp_'' @ n, src_value (co_mData c)) #
       (if st_bFilter s then [(''sSearch_'' @ n, JStr (se_sSearch x)), (''bRegex_'' @ n, jopt (se_bRegex x)),
          (''bSearchable_'' @ n, JBool (co_bSearchable c))] else []) @
       (if st_bSort s then [(''bSortable_'' @ n, JBool (co_bSortable c))] else [])))"

definition legacy_order :: "nat \<times> flat_sort \<Rightarrow> (string \<times> jsval) list" where
  "legacy_order e = (case e of (i, f) \<Rightarrow>
    [(''iSortCol_'' @ show_nat i, jnum (int (fs_col f))), (''sSortDir_'' @ show_nat i, jdir (fs_dir f))])"

definition legacy_params :: "settings \<Rightarrow> flat_sort list \<Rightarrow> (string \<times> jsval) list js_res" where
  "legacy_params s order =
    js_bind (js_mapM (legacy_column s) [0..<length (st_columns s)]) (\<lambda>cols.
      Inr ([(''sEcho'', jnum (int (st_iDraw s))), (''iColumns'', jnum (int (length (st_columns s)))),
          (''sColumns'', JStr (js_join '','' (map co_sName (st_columns s)))),
          (''iDisplayStart'', jnum (st_start s)), (''iDisplayLength'', jnum (request_length s))] @
        concat cols @ concat (map legacy_order (enumerate 0 order)) @
        (if st_bFilter s then [(''sSearch'', JStr (se_sSearch (st_search s))), (''bRegex'', jopt (se_bRegex (st_search s)))] else []) @
        (if st_bSort s then [(''iSortingCols'', jnum (int (length order)))] else [])))"

text \<open>\<open>_fnAjaxParameters\<close>\<close>

datatype request_params = Modern js_object | Legacy "(string \<times> jsval) list"

definition ajaxParameters :: "settings \<Rightarrow> request_params js_res" where
  "ajaxParameters s =
    js_bind (sortFlatten s) (\<lambda>order.
    js_bind (legacy_params s order) (\<lambda>data.
    js_bind (modern_params s order) (\<lambda>d.
      Inr (if st_legacyAjax s then Legacy data else Modern d))))"

section \<open>The data sent\<close>

text \<open>The conversion of the pairs to an object: a name ending in brackets collects an array.\<close>

definition bracketed :: "string \<Rightarrow> bool" where
  "bracketed name \<longleftrightarrow> 2 \<le> length name \<and> drop (length name - 2) name = ''[]'' \<and>
     list_all (\<lambda>c. \<not> line_end c) (take (length name - 2) name)"

fun legacy_object :: "(string \<times> jsval) list \<Rightarrow> js_object \<Rightarrow> js_object js_res" where
  "legacy_object [] tmp = Inr tmp"
| "legacy_object ((name, val) # r) tmp =
    (if bracketed name then
       (case opt_get tmp name of
          JArr xs \<Rightarrow> legacy_object r (AList.update name (JArr (xs @ [val])) tmp)
        | v \<Rightarrow> if js_not v then legacy_object r (AList.update name (JArr [val]) tmp) else Inl TypeError)
     else legacy_object r (AList.update name val tmp))"

text \<open>
  \<open>ajax.data\<close>: absent, an object to merge, or a function from the data to the data as it left
  them and its result.
\<close>

datatype ajax_data = NoData | DataObject js_object | DataFun "js_object \<Rightarrow> js_object \<times> jsval"

definition request_data :: "ajax_data \<Rightarrow> request_params \<Rightarrow> jsval js_res" where
  "request_data extra params =
    js_bind (case params of Modern d \<Rightarrow> Inr d | Legacy ps \<Rightarrow> legacy_object ps []) (\<lambda>data.
      case extra of
        NoData \<Rightarrow> Inr (JObj data)
      | DataObject o' \<Rightarrow> Inr (JObj (deep_obj data o'))
      | DataFun f \<Rightarrow> (case f data of (data', new) \<Rightarrow>
          if \<not> js_not new then Inr new
          else Inr (JObj data')))"

section \<open>The data received\<close>

text \<open>\<open>_fnAjaxDataSrc\<close>\<close>

definition ajaxDataSrc :: "settings \<Rightarrow> jsval \<Rightarrow> jsval js_res" where
  "ajaxDataSrc s json = (case st_dataSrc s of
      SrcStr d \<Rightarrow>
        if d = ''data'' then js_bind (js_prop json ''aaData'') (\<lambda>a. if \<not> js_not a then Inr a else js_prop json d)
        else if d \<noteq> [] then get_data (st_dataSrc s) json None JUndef else Inr json
    | _ \<Rightarrow> get_data (st_dataSrc s) json None JUndef)"

end
