(* ===== verification/DT_Draw.thy ===== *)
theory DT_Draw
  imports DT_Rows DT_Filter DT_Ajax
begin

text \<open>
  Drawing (public/js/plugins/dataTables/jquery.dataTables.js): \<open>_fnDraw\<close> with the server request
  it may make instead (\<open>_fnAjaxUpdate\<close>), \<open>_fnReDraw\<close>, and the header click and page change with
  their redraw.  A draw returns the parameters of the request it sent, if any.  The row, header,
  footer and draw callbacks, and the element that carries the empty-table message, are not
  modelled.
\<close>

section \<open>One row\<close>

definition set_stripe :: "nat \<Rightarrow> settings \<Rightarrow> dt_row \<Rightarrow> dt_row" where
  "set_stripe k s r =
    (if st_stripes s = [] then r
     else let stripe = st_stripes s ! (k mod length (st_stripes s))
     in if ro_stripe r \<noteq> stripe
        then r\<lparr>ro_stripe := stripe,
               ro_trClasses := add_class (class_words stripe) (remove_class (class_words (ro_stripe r)) (ro_trClasses r))\<rparr>
        else r)"

text \<open>One round of the loop of \<open>_fnDraw\<close>: \<open>aiDisplay[j]\<close> outside the list raises.\<close>

definition draw_row :: "nat \<Rightarrow> int \<Rightarrow> settings \<Rightarrow> (nat \<times> settings) js_res" where
  "draw_row k j s = (case js_nth (st_display s) j of
      None \<Rightarrow> Inl TypeError
    | Some i \<Rightarrow>
        if length (st_data s) \<le> i then Inl TypeError
        else js_bind (if ro_cells (st_data s ! i) = None then createTr i None s else Inr s) (\<lambda>s1.
          Inr (i, s1\<lparr>st_data := (st_data s1)[i := set_stripe k s1 (st_data s1 ! i)]\<rparr>)))"

fun draw_rows :: "nat \<Rightarrow> int list \<Rightarrow> settings \<Rightarrow> (nat list \<times> settings) js_res" where
  "draw_rows k [] s = Inr ([], s)"
| "draw_rows k (j # js) s =
    js_bind (draw_row k j s) (\<lambda>(i, s1).
    js_bind (draw_rows (Suc k) js s1) (\<lambda>(is, s2). Inr (i # is, s2)))"

section \<open>A draw\<close>

definition draw_cancelled :: "dt_env \<Rightarrow> settings \<Rightarrow> bool" where
  "draw_cancelled env s = list_ex (\<lambda>f. f s = Some False) (en_preDraw env)"

text \<open>A start position restored from a saved state; -1 means it was used.\<close>

definition init_start :: "settings \<Rightarrow> settings" where
  "init_start s = (case st_initStart s of
      None \<Rightarrow> s
    | Some n \<Rightarrow> if n = -1 then s
        else s\<lparr>st_start := (if dataSource s = SSP then n else if n \<ge> recordsDisplay s then 0 else n),
               st_initStart := Some (-1)\<rparr>)"

text \<open>\<open>_fnAjaxUpdate\<close>: whether the draw goes on, and the request.\<close>

definition ajaxUpdate :: "settings \<Rightarrow> (bool \<times> request_params option \<times> settings) js_res" where
  "ajaxUpdate s =
    (if st_ajaxDataGet s then
       (let s1 = s\<lparr>st_iDraw := Suc (st_iDraw s)\<rparr>
        in js_bind (ajaxParameters s1) (\<lambda>d. Inr (False, Some d, s1)))
     else Inr (True, None, s))"

definition empty_message :: "settings \<Rightarrow> string" where
  "empty_message s =
    (if st_iDraw s = 1 \<and> dataSource s = Ajax then st_sLoadingRecords s
     else if st_sEmptyTable s \<noteq> '''' \<and> recordsTotal s = 0 then st_sEmptyTable s
     else st_sZeroRecords s)"

definition draw_body :: "int \<Rightarrow> int \<Rightarrow> settings \<Rightarrow> settings js_res" where
  "draw_body start end s =
    (if st_display s \<noteq> [] then
       (let iStart = (if dataSource s = SSP then 0 else start);
            iEnd = (if dataSource s = SSP then int (length (st_data s)) else end)
        in js_bind (draw_rows 0 [iStart..iEnd - 1] s) (\<lambda>(rows, s1). Inr (s1\<lparr>st_tbody := Rows rows\<rparr>)))
     else Inr (s\<lparr>st_tbody := EmptyMessage (empty_message s)\<rparr>))"

definition draw :: "dt_env \<Rightarrow> settings \<Rightarrow> (request_params option \<times> settings) js_res" where
  "draw env s =
    (if draw_cancelled env s then Inr (None, s)
     else let s1 = init_start (s\<lparr>st_bDrawing := True\<rparr>); iDisplayStart = st_start s1; iDisplayEnd = displayEnd s1
     in js_bind
       (if st_bDeferLoading s1 then Inr (True, None, s1\<lparr>st_bDeferLoading := False, st_iDraw := Suc (st_iDraw s1)\<rparr>)
        else if dataSource s1 \<noteq> SSP then Inr (True, None, s1\<lparr>st_iDraw := Suc (st_iDraw s1)\<rparr>)
        else ajaxUpdate s1) (\<lambda>(go, req, s2).
       if \<not> go then Inr (req, s2)
       else js_bind (draw_body iDisplayStart iDisplayEnd s2) (\<lambda>s3.
         Inr (req, s3\<lparr>st_bSorted := False, st_bFiltered := False, st_bDrawing := False\<rparr>))))"

section \<open>Redrawing\<close>

text \<open>\<open>_fnReDraw\<close> before its draw\<close>

definition redraw_lists :: "dt_env \<Rightarrow> bool \<Rightarrow> settings \<Rightarrow> settings js_res" where
  "redraw_lists env hold s =
    js_bind (if st_bSort s then dt_sort env s else Inr s) (\<lambda>s1.
    js_bind (if st_bFilter s then filterComplete env (st_search s1) False s1
             else Inr (s1\<lparr>st_display := st_master s1\<rparr>)) (\<lambda>s2.
      Inr (if hold then s2 else s2\<lparr>st_start := 0\<rparr>)))"

definition reDraw :: "dt_env \<Rightarrow> bool \<Rightarrow> settings \<Rightarrow> (request_params option \<times> settings) js_res" where
  "reDraw env hold s = js_bind (redraw_lists env hold s) (draw env)"

text \<open>\<open>_fnSortListener\<close>: a click on a header, with the shift key when \<open>app\<close>\<close>

definition sortListener :: "dt_env \<Rightarrow> nat \<Rightarrow> bool \<Rightarrow> settings \<Rightarrow> (request_params option \<times> settings) js_res" where
  "sortListener env col app s = js_bind (listener_sorting col app s) (reDraw env False)"

text \<open>A click on a page button\<close>

definition page_click :: "dt_env \<Rightarrow> page_action \<Rightarrow> settings \<Rightarrow> (request_params option \<times> settings) js_res" where
  "page_click env action s = js_bind (pageChange action s) (\<lambda>(changed, t). draw env t)"

section \<open>What a draw changes\<close>

text \<open>The part of a row a draw does not touch: its data and caches.\<close>

definition row_core :: "dt_row \<Rightarrow> jsval \<times> (nat \<times> sort_key) list option \<times> jsval list option \<times> string \<times> row_src" where
  "row_core r = (ro_data r, ro_sort r, ro_filter r, ro_filterRow r, ro_src r)"

lemma row_core_updates [simp]:
  "row_core (r\<lparr>ro_cells := c\<rparr>) = row_core r" "row_core (r\<lparr>ro_trId := i\<rparr>) = row_core r"
  "row_core (r\<lparr>ro_trClasses := cs\<rparr>) = row_core r" "row_core (r\<lparr>ro_rowc := w\<rparr>) = row_core r"
  "row_core (r\<lparr>ro_stripe := st\<rparr>) = row_core r"
  by (simp_all add: row_core_def)

lemma rowAttributes_core: "rowAttributes r = Inr r' \<Longrightarrow> row_core r' = row_core r"
proof -
  assume r: "rowAttributes r = Inr r'"
  show ?thesis
  proof (cases "ro_cells r = None")
    case False
    with r obtain rid rc where "(let row1 = (if js_not rid then r else r\<lparr>ro_trId := js_string rid\<rparr>)
       in if js_not rc then Inr row1
          else case rc of
              JStr c \<Rightarrow>
                (let a = split_on (CHR '' '') c;
                     rowc = (case ro_rowc row1 of Some w \<Rightarrow> dt_unique (w @ a) | None \<Rightarrow> a)
                 in Inr (row1\<lparr>ro_rowc := Some rowc,
                      ro_trClasses := add_class (class_words c) (remove_class rowc (ro_trClasses row1))\<rparr>))
            | _ \<Rightarrow> Inl TypeError) = Inr r'"
      unfolding rowAttributes_def by (auto simp: js_bind_Inr_iff)
    then show ?thesis by (cases rc) (auto simp: Let_def split: if_splits)
  qed (use r in \<open>simp add: rowAttributes_def\<close>)
qed

lemma set_stripe_facts:
  "row_core (set_stripe k s r) = row_core r" "ro_cells (set_stripe k s r) = ro_cells r"
  "st_stripes s \<noteq> [] \<Longrightarrow> ro_stripe (set_stripe k s r) = st_stripes s ! (k mod length (st_stripes s))"
  by (simp_all add: set_stripe_def Let_def)

lemma createTr_core:
  assumes "createTr i tr s = Inr t"
  shows "\<exists>r. t = s\<lparr>st_data := (st_data s)[i := r]\<rparr> \<and> row_core r = row_core (st_data s ! i) \<and>
    i < length (st_data s) \<and> ro_cells r \<noteq> None"
proof (cases "ro_cells (st_data s ! i) = None")
  case True
  with assms show ?thesis
    by (auto simp: createTr_def js_bind_Inr_iff Let_def dest!: rowAttributes_core split: if_splits option.splits)
next
  case False
  with assms show ?thesis
    by (intro exI [of _ "st_data s ! i"]) (auto simp: createTr_def split: if_splits)
qed

text \<open>The state after drawing rows: only the data list changed, and the rows' cores are the same.\<close>

definition drawn :: "settings \<Rightarrow> settings \<Rightarrow> bool" where
  "drawn s t \<longleftrightarrow> (\<exists>rows. t = s\<lparr>st_data := rows\<rparr> \<and> map row_core rows = map row_core (st_data s))"

lemma drawn_refl: "drawn s s"
  by (auto simp: drawn_def intro!: exI [of _ "st_data s"])

lemma drawn_trans: "drawn s t \<Longrightarrow> drawn t u \<Longrightarrow> drawn s u"
  by (auto simp: drawn_def)

lemma drawn_update: "row_core r = row_core (st_data s ! i) \<Longrightarrow> drawn s (s\<lparr>st_data := (st_data s)[i := r]\<rparr>)"
  by (auto simp: drawn_def map_update) (metis list_update_id map_update)

lemma drawn_fields:
  "drawn s t \<Longrightarrow> st_display t = st_display s \<and> st_master t = st_master s \<and> st_columns t = st_columns s \<and>
    st_stripes t = st_stripes s \<and> length (st_data t) = length (st_data s)"
  by (auto simp: drawn_def dest: map_eq_imp_length_eq)

lemma draw_row_Inr:
  assumes "draw_row k j s = Inr (i, t)"
  shows "js_nth (st_display s) j = Some i" "i < length (st_data s)" "drawn s t" "ro_cells (st_data t ! i) \<noteq> None"
    "st_stripes s \<noteq> [] \<Longrightarrow> ro_stripe (st_data t ! i) = st_stripes s ! (k mod length (st_stripes s))"
    "\<And>n. n \<noteq> i \<Longrightarrow> st_data t ! n = st_data s ! n"
proof -
  from assms obtain s1 where j: "js_nth (st_display s) j = Some i" "i < length (st_data s)"
    and s1: "(if ro_cells (st_data s ! i) = None then createTr i None s else Inr s) = Inr s1"
    and t: "t = s1\<lparr>st_data := (st_data s1)[i := set_stripe k s1 (st_data s1 ! i)]\<rparr>"
    by (auto simp: draw_row_def js_bind_Inr_iff split: option.splits if_splits)
  obtain r where r: "s1 = s\<lparr>st_data := (st_data s)[i := r]\<rparr>" "row_core r = row_core (st_data s ! i)" "ro_cells r \<noteq> None"
  proof (cases "ro_cells (st_data s ! i) = None")
    case True
    with s1 createTr_core [of i None s s1] that show thesis by auto
  next
    case False
    with s1 that [of "st_data s ! i"] show thesis by simp
  qed
  let ?r = "set_stripe k s1 r"
  have t': "t = s\<lparr>st_data := (st_data s)[i := ?r]\<rparr>" using j(2) by (simp add: t r(1))
  show "js_nth (st_display s) j = Some i" "i < length (st_data s)" by (rule j)+
  show "drawn s t" unfolding t' by (rule drawn_update) (simp add: set_stripe_facts r(2))
  show "ro_cells (st_data t ! i) \<noteq> None" using j(2) r(3) by (simp add: t' set_stripe_facts)
  show "st_stripes s \<noteq> [] \<Longrightarrow> ro_stripe (st_data t ! i) = st_stripes s ! (k mod length (st_stripes s))"
    using j(2) set_stripe_facts(3) [of s1 k r] by (simp add: t' r(1))
  show "st_data t ! n = st_data s ! n" if "n \<noteq> i" for n using that by (simp add: t')
qed

lemma draw_rows_Inr:
  assumes "draw_rows k js s = Inr (is, t)"
  shows "map (js_nth (st_display s)) js = map Some is" "drawn s t" "set is \<subseteq> {0..<length (st_data s)}"
    and "distinct is \<Longrightarrow> m < length is \<Longrightarrow> ro_cells (st_data t ! (is ! m)) \<noteq> None \<and>
      (st_stripes s \<noteq> [] \<longrightarrow> ro_stripe (st_data t ! (is ! m)) = st_stripes s ! ((k + m) mod length (st_stripes s)))"
    and "n \<notin> set is \<Longrightarrow> st_data t ! n = st_data s ! n"
  using assms
proof (induction js arbitrary: k s "is" m n)
  case Nil
  { case 1 then show ?case by simp next case 2 then show ?case by (simp add: drawn_refl) next
    case 3 then show ?case by simp next case 4 then show ?case by simp next case 5 then show ?case by simp }
next
  case (Cons j js)
  have split: "\<exists>i is' u. draw_row k j s = Inr (i, u) \<and> draw_rows (Suc k) js u = Inr (is', t) \<and> is = i # is'"
    if "draw_rows k (j # js) s = Inr (is, t)" for k s "is" t
    using that by (auto simp: js_bind_Inr_iff split: prod.splits)
  {
    case 1
    from split [OF this] obtain i is' u where a: "draw_row k j s = Inr (i, u)" "draw_rows (Suc k) js u = Inr (is', t)" "is = i # is'" by blast
    show ?case using draw_row_Inr(1,3) [OF a(1)] Cons.IH(1) [OF a(2)] by (auto simp: a(3) dest: drawn_fields)
  next
    case 2
    from split [OF this] obtain i is' u where a: "draw_row k j s = Inr (i, u)" "draw_rows (Suc k) js u = Inr (is', t)" "is = i # is'" by blast
    show ?case using draw_row_Inr(3) [OF a(1)] Cons.IH(2) [OF a(2)] by (rule drawn_trans)
  next
    case 3
    from split [OF this] obtain i is' u where a: "draw_row k j s = Inr (i, u)" "draw_rows (Suc k) js u = Inr (is', t)" "is = i # is'" by blast
    show ?case using draw_row_Inr(2,3) [OF a(1)] Cons.IH(3) [OF a(2)] by (auto simp: a(3) dest!: drawn_fields)
  next
    case 4
    from split [OF 4(3)] obtain i is' u where a: "draw_row k j s = Inr (i, u)" "draw_rows (Suc k) js u = Inr (is', t)" "is = i # is'" by blast
    note u = drawn_fields [OF draw_row_Inr(3) [OF a(1)]]
    show ?case
    proof (cases m)
      case 0
      with 4(1) a(3) Cons.IH(5) [where n = i, OF _ a(2)] draw_row_Inr(4,5) [OF a(1)] show ?thesis by simp
    next
      case (Suc m')
      with 4(1,2) a(3) Cons.IH(4) [where m = m', OF _ _ a(2)] u show ?thesis by simp
    qed
  next
    case 5
    from split [OF 5(2)] obtain i is' u where a: "draw_row k j s = Inr (i, u)" "draw_rows (Suc k) js u = Inr (is', t)" "is = i # is'" by blast
    show ?case using 5(1) Cons.IH(5) [OF _ a(2)] draw_row_Inr(6) [OF a(1)] by (simp add: a(3))
  }
qed

section \<open>What a draw shows\<close>

lemma nth_upto_slice:
  assumes "map (js_nth d) [a..b - 1] = map Some is"
  shows "is = take (nat (b - a)) (drop (nat a) d)"
proof (cases "a < b")
  case True
  have len: "length is = nat (b - a)" using arg_cong [OF assms, of length] by simp
  have el: "js_nth d (a + int m) = Some (is ! m)" if "m < nat (b - a)" for m
    using arg_cong [OF assms, of "\<lambda>xs. xs ! m"] that len by (simp add: nth_upto)
  have a: "0 \<le> a" using el [of 0] True by (simp add: js_nth_Some_iff)
  have "nat (a + int (nat (b - a) - 1)) < length d"
    using el [of "nat (b - a) - 1"] True by (simp add: js_nth_Some_iff)
  then have b: "nat a + nat (b - a) \<le> length d" using True a by linarith
  show ?thesis
  proof (rule nth_equalityI)
    show "length is = length (take (nat (b - a)) (drop (nat a) d))" using len b by simp
    fix m assume "m < length is"
    then have m: "m < nat (b - a)" using len by simp
    then show "is ! m = take (nat (b - a)) (drop (nat a) d) ! m"
      using el [OF m] a b by (auto simp: js_nth_Some_iff nat_add_distrib)
  qed
next
  case False
  then show ?thesis using assms by simp
qed

lemma init_start_fields [simp]:
  "st_data (init_start s) = st_data s" "st_display (init_start s) = st_display s" "st_master (init_start s) = st_master s"
  "st_iDraw (init_start s) = st_iDraw s" "st_stripes (init_start s) = st_stripes s" "dataSource (init_start s) = dataSource s"
  "st_bDeferLoading (init_start s) = st_bDeferLoading s" "st_length (init_start s) = st_length s"
  "st_columns (init_start s) = st_columns s" "st_bServerSide (init_start s) = st_bServerSide s"
  "st_bPaginate (init_start s) = st_bPaginate s" "st_ajaxDataGet (init_start s) = st_ajaxDataGet s"
  "st_colSearch (init_start s) = st_colSearch s" "st_search (init_start s) = st_search s"
  "st_sorting (init_start s) = st_sorting s"
  by (simp_all add: init_start_def dataSource_def split: option.split)

lemma init_start_drawing: "init_start (s\<lparr>st_bDrawing := b\<rparr>) = (init_start s)\<lparr>st_bDrawing := b\<rparr>"
  by (simp add: init_start_def dataSource_def recordsDisplay_def split: option.split)

lemma displayEnd_flags [simp]:
  "displayEnd (s\<lparr>st_bDrawing := b\<rparr>) = displayEnd s" "displayEnd (s\<lparr>st_iDraw := n\<rparr>) = displayEnd s"
  "displayEnd (s\<lparr>st_bDeferLoading := b\<rparr>) = displayEnd s"
  by (simp_all add: displayEnd_def Let_def)

lemma dataSource_flags [simp]:
  "dataSource (s\<lparr>st_bDrawing := b\<rparr>) = dataSource s" "dataSource (s\<lparr>st_iDraw := n\<rparr>) = dataSource s"
  "dataSource (s\<lparr>st_bDeferLoading := b\<rparr>) = dataSource s" "dataSource (s\<lparr>st_data := rows\<rparr>) = dataSource s"
  "dataSource (s\<lparr>st_tbody := bd\<rparr>) = dataSource s" "dataSource (s\<lparr>st_bSorted := b\<rparr>) = dataSource s"
  "dataSource (s\<lparr>st_bFiltered := b\<rparr>) = dataSource s"
  by (simp_all add: dataSource_def)

text \<open>The state in which a client-side draw builds the body.\<close>

definition drawing_state :: "settings \<Rightarrow> settings" where
  "drawing_state s = (let s1 = (init_start s)\<lparr>st_bDrawing := True\<rparr>
     in (if st_bDeferLoading s then s1\<lparr>st_bDeferLoading := False\<rparr> else s1)\<lparr>st_iDraw := Suc (st_iDraw s)\<rparr>)"

lemma drawing_state_fields [simp]:
  "st_data (drawing_state s) = st_data s" "st_display (drawing_state s) = st_display s"
  "st_master (drawing_state s) = st_master s" "st_stripes (drawing_state s) = st_stripes s"
  "dataSource (drawing_state s) = dataSource s" "st_iDraw (drawing_state s) = Suc (st_iDraw s)"
  "st_start (drawing_state s) = st_start (init_start s)" "displayEnd (drawing_state s) = displayEnd (init_start s)"
  "st_columns (drawing_state s) = st_columns s" "st_colSearch (drawing_state s) = st_colSearch s"
  "st_search (drawing_state s) = st_search s" "st_length (drawing_state s) = st_length s"
  "st_initStart (drawing_state s) = st_initStart (init_start s)" "st_bServerSide (drawing_state s) = st_bServerSide s"
  "st_ajax (drawing_state s) = st_ajax (init_start s)" "st_bPaginate (drawing_state s) = st_bPaginate s"
  "st_sorting (drawing_state s) = st_sorting s"
  by (simp_all add: drawing_state_def Let_def)

lemma draw_client:
  assumes "\<not> draw_cancelled env s" "dataSource s \<noteq> SSP"
  shows "draw env s = js_bind (draw_body (st_start (init_start s)) (displayEnd (init_start s)) (drawing_state s))
    (\<lambda>t. Inr (None, t\<lparr>st_bSorted := False, st_bFiltered := False, st_bDrawing := False\<rparr>))"
  using assms by (simp add: draw_def Let_def init_start_drawing drawing_state_def)

lemma draw_body_client:
  assumes "draw_body a b s = Inr t" "dataSource s \<noteq> SSP" "st_display s \<noteq> []"
  obtains rows u where "draw_rows 0 [a..b - 1] s = Inr (rows, u)" "t = u\<lparr>st_tbody := Rows rows\<rparr>"
    "rows = take (nat (b - a)) (drop (nat a) (st_display s))"
proof -
  from assms obtain rows u where r: "draw_rows 0 [a..b - 1] s = Inr (rows, u)" "t = u\<lparr>st_tbody := Rows rows\<rparr>"
    by (auto simp: draw_body_def js_bind_Inr_iff)
  from that [OF r nth_upto_slice [OF draw_rows_Inr(1) [OF r(1)]]] show thesis .
qed

lemma page_slice_view:
  "page_slice (s\<lparr>st_data := rows\<rparr>) = page_slice s" "page_slice (s\<lparr>st_tbody := b\<rparr>) = page_slice s"
  "page_slice (s\<lparr>st_bSorted := x\<rparr>) = page_slice s" "page_slice (s\<lparr>st_bFiltered := x\<rparr>) = page_slice s"
  "page_slice (s\<lparr>st_bDrawing := x\<rparr>) = page_slice s" "page_slice (drawing_state s) = page_slice (init_start s)"
  by (simp_all add: page_slice_def displayEnd_def Let_def) (simp add: drawing_state_def Let_def)

text \<open>The result of a client-side draw.\<close>

lemma draw_client_Inr:
  assumes "draw env s = Inr (q, t)" "\<not> draw_cancelled env s" "dataSource s \<noteq> SSP"
  shows "q = None" "map row_core (st_data t) = map row_core (st_data s)" "st_display t = st_display s"
    "st_master t = st_master s" "st_columns t = st_columns s" "st_start t = st_start (init_start s)"
    "st_colSearch t = st_colSearch s" "st_search t = st_search s"
    "st_tbody t = (if st_display s = [] then EmptyMessage (empty_message (drawing_state s)) else Rows (page_slice (init_start s)))"
    "\<not> st_bDrawing t \<and> \<not> st_bSorted t \<and> \<not> st_bFiltered t" "st_iDraw t = Suc (st_iDraw s)"
    "dataSource t = dataSource s" "st_length t = st_length s" "st_initStart t = st_initStart (init_start s)"
    "page_slice t = page_slice (init_start s)" "st_sorting t = st_sorting s"
proof -
  from assms obtain u where u: "draw_body (st_start (init_start s)) (displayEnd (init_start s)) (drawing_state s) = Inr u"
    and t: "q = None" "t = u\<lparr>st_bSorted := False, st_bFiltered := False, st_bDrawing := False\<rparr>"
    by (auto simp: draw_client js_bind_Inr_iff)
  have "\<exists>v. drawn (drawing_state s) v \<and> u = v\<lparr>st_tbody := (if st_display s = [] then EmptyMessage (empty_message (drawing_state s)) else Rows (page_slice (init_start s)))\<rparr>"
  proof (cases "st_display s = []")
    case True
    with u drawn_refl [of "drawing_state s"] show ?thesis by (auto simp: draw_body_def)
  next
    case False
    have ds: "dataSource (drawing_state s) \<noteq> SSP" "st_display (drawing_state s) \<noteq> []" using assms(3) False by simp_all
    obtain rows v where "draw_rows 0 [st_start (init_start s)..displayEnd (init_start s) - 1] (drawing_state s) = Inr (rows, v)"
      "u = v\<lparr>st_tbody := Rows rows\<rparr>" "rows = take (nat (displayEnd (init_start s) - st_start (init_start s)))
        (drop (nat (st_start (init_start s))) (st_display (drawing_state s)))"
      by (rule draw_body_client [OF u ds])
    then show ?thesis using False by (auto simp: page_slice_def dest: draw_rows_Inr(2))
  qed
  then show "q = None" "map row_core (st_data t) = map row_core (st_data s)" "st_display t = st_display s"
    "st_master t = st_master s" "st_columns t = st_columns s" "st_start t = st_start (init_start s)"
    "st_colSearch t = st_colSearch s" "st_search t = st_search s"
    "st_tbody t = (if st_display s = [] then EmptyMessage (empty_message (drawing_state s)) else Rows (page_slice (init_start s)))"
    "\<not> st_bDrawing t \<and> \<not> st_bSorted t \<and> \<not> st_bFiltered t" "st_iDraw t = Suc (st_iDraw s)"
    "dataSource t = dataSource s" "st_length t = st_length s" "st_initStart t = st_initStart (init_start s)"
    "page_slice t = page_slice (init_start s)" "st_sorting t = st_sorting s"
    using t by (auto simp: drawn_def page_slice_view)
qed

lemma draw_client_rows:
  assumes "draw env s = Inr (q, t)" "\<not> draw_cancelled env s" "dataSource s \<noteq> SSP" "distinct (st_display s)"
    and "m < length (page_slice (init_start s))"
  shows "ro_cells (st_data t ! (page_slice (init_start s) ! m)) \<noteq> None \<and>
    (st_stripes s \<noteq> [] \<longrightarrow> ro_stripe (st_data t ! (page_slice (init_start s) ! m)) = st_stripes s ! (m mod length (st_stripes s)))"
proof -
  have ne: "st_display s \<noteq> []" using assms(5) by (auto simp: page_slice_def)
  from assms obtain u where u: "draw_body (st_start (init_start s)) (displayEnd (init_start s)) (drawing_state s) = Inr u"
    and t: "st_data t = st_data u"
    by (auto simp: draw_client js_bind_Inr_iff)
  have ds: "dataSource (drawing_state s) \<noteq> SSP" "st_display (drawing_state s) \<noteq> []" using assms(3) ne by simp_all
  obtain rows v where r: "draw_rows 0 [st_start (init_start s)..displayEnd (init_start s) - 1] (drawing_state s) = Inr (rows, v)"
    "u = v\<lparr>st_tbody := Rows rows\<rparr>" "rows = page_slice (init_start s)"
    by (rule draw_body_client [OF u ds]) (simp add: page_slice_def)
  have "distinct rows" using assms(4) by (simp add: r(3) page_slice_def)
  from draw_rows_Inr(4) [OF r(1) this] assms(5) r show ?thesis by (simp add: t)
qed

text \<open>a client-side draw shows the rows of the current page, in the order of the display list and
  each with its elements, striped in turn from the first of the page; with nothing to display it
  shows the message that fits.  It counts as one draw and leaves the rows' data, their caches and
  both index lists as they were.\<close>

theorem draw_shows_page:
  assumes "draw env s = Inr (q, t)" "\<not> draw_cancelled env s" "dataSource s \<noteq> SSP" "rows_ok s"
  shows "q = None \<and> st_tbody t = (if st_display s = [] then EmptyMessage (empty_message (drawing_state s))
      else Rows (page_slice (init_start s))) \<and>
    (\<forall>m < length (page_slice (init_start s)). let r = st_data t ! (page_slice (init_start s) ! m) in
      ro_cells r \<noteq> None \<and> (st_stripes s \<noteq> [] \<longrightarrow> ro_stripe r = st_stripes s ! (m mod length (st_stripes s)))) \<and>
    st_display t = st_display s \<and> st_master t = st_master s \<and> map row_core (st_data t) = map row_core (st_data s) \<and>
    st_iDraw t = Suc (st_iDraw s) \<and> \<not> st_bDrawing t"
  using draw_client_Inr [OF assms(1-3)] draw_client_rows [OF assms(1-3)] assms(4) by (simp add: rows_ok_def Let_def)

section \<open>Draws that succeed\<close>

lemma draw_row_total:
  assumes "js_nth (st_display s) j = Some i" "i < length (st_data s)" "ro_cells (st_data s ! i) \<noteq> None"
  shows "\<exists>t. draw_row k j s = Inr (i, t)"
  using assms by (cases "ro_cells (st_data s ! i)") (simp_all add: draw_row_def)

lemma draw_rows_total:
  assumes "\<forall>j \<in> set js. 0 \<le> j \<and> nat j < length (st_display s)"
    and "set (st_display s) \<subseteq> {0..<length (st_data s)}" "\<forall>r \<in> set (st_data s). ro_cells r \<noteq> None"
  shows "\<exists>is t. draw_rows k js s = Inr (is, t)"
  using assms
proof (induction js arbitrary: k s)
  case (Cons j js)
  let ?i = "st_display s ! nat j"
  have i: "?i < length (st_data s)" using Cons.prems(1,2) nth_mem by fastforce
  have j: "js_nth (st_display s) j = Some ?i" using Cons.prems(1) by (simp add: js_nth_Some_iff)
  obtain u where u: "draw_row k j s = Inr (?i, u)"
    using draw_row_total [OF j i] Cons.prems(3) i by auto
  note f = drawn_fields [OF draw_row_Inr(3) [OF u]] and cells = draw_row_Inr(4,6) [OF u]
  have "\<forall>r \<in> set (st_data u). ro_cells r \<noteq> None"
    unfolding all_set_conv_all_nth using cells Cons.prems(3) f by (metis nth_mem)
  then have "\<exists>is t. draw_rows (Suc k) js u = Inr (is, t)"
    using Cons.prems(1,2) f by (intro Cons.IH) auto
  with u show ?case by auto
qed auto

lemma draw_total:
  assumes "rows_ok s" "0 \<le> st_start (init_start s)" "dataSource s \<noteq> SSP" "\<forall>r \<in> set (st_data s). ro_cells r \<noteq> None"
  shows "\<exists>q t. draw env s = Inr (q, t)"
proof (cases "draw_cancelled env s")
  case False
  let ?a = "st_start (init_start s)" and ?b = "displayEnd (init_start s)"
  have "?b \<le> int (length (st_display s)) \<or> ?b \<le> ?a"
    using assms(2,3) by (auto simp: displayEnd_def Let_def dataSource_def split: if_splits)
  then have "\<forall>j \<in> set [?a..?b - 1]. 0 \<le> j \<and> nat j < length (st_display (drawing_state s))"
    using assms(2) by auto
  from draw_rows_total [OF this, of 0] assms(1,4)
  have "\<exists>rows t. draw_rows 0 [?a..?b - 1] (drawing_state s) = Inr (rows, t)" by (simp add: rows_ok_def)
  then obtain rows t where r: "draw_rows 0 [?a..?b - 1] (drawing_state s) = Inr (rows, t)" by blast
  have "\<exists>t. draw_body ?a ?b (drawing_state s) = Inr t"
    using assms(3) by (cases "st_display s = []") (auto simp: draw_body_def r)
  with False assms(3) show ?thesis by (auto simp: draw_client)
qed (simp add: draw_def)

section \<open>Sorting and filtering keep the row lists consistent\<close>

lemma rows_ok_perm:
  "rows_ok s \<Longrightarrow> mset m = mset (st_master s) \<Longrightarrow> length (st_data t) = length (st_data s) \<Longrightarrow>
    st_master t = m \<Longrightarrow> st_display t = st_display s \<Longrightarrow> rows_ok t"
  unfolding rows_ok_def by (metis mset_eq_imp_distinct_iff mset_eq_setD)

lemma dt_sort_ok:
  assumes "dt_sort env s = Inr t" "js_sorter (en_sort env)" "rows_ok s"
  shows "rows_ok t" "mset (st_master t) = mset (st_master s)" "st_start t = st_start s" "dataSource t = dataSource s"
    "map ro_data (st_data t) = map ro_data (st_data s)" "st_bSorted t" "st_search t = st_search s"
    "st_colSearch t = st_colSearch s" "st_initStart t = st_initStart s" "st_length t = st_length s"
    "st_sorting t = st_sorting s" "map untyped (st_columns t) = map untyped (st_columns s)"
proof -
  from assms(1) obtain fs where fs: "sortFlatten s = Inr fs" by (auto simp: dt_sort_def js_bind_Inr_iff)
  obtain s2 m where r: "cells_eq s s2" "\<exists>rows cs. s2 = s\<lparr>st_columns := cs, st_data := rows\<rparr>"
    "t = s2\<lparr>st_master := m, st_bSorted := True\<rparr>" "m = st_master s \<or> (\<exists>cmp. m = en_sort env cmp (st_master s))"
    by (rule dt_sortE [OF assms(1) fs])
  then show perm: "mset (st_master t) = mset (st_master s)"
    using js_sorter.sort_perm [OF assms(2)] by auto
  show data: "map ro_data (st_data t) = map ro_data (st_data s)" using r(1,3) by (simp add: cells_eq_def)
  from r(2,3) show "st_start t = st_start s" "dataSource t = dataSource s" "st_bSorted t" "st_search t = st_search s"
    "st_colSearch t = st_colSearch s" "st_initStart t = st_initStart s" "st_length t = st_length s"
    "st_sorting t = st_sorting s" by (auto simp: dataSource_def)
  show "map untyped (st_columns t) = map untyped (st_columns s)" using r(1,3) by (simp add: cells_eq_def)
  show "rows_ok t"
    by (rule rows_ok_perm [OF assms(3) perm]) (use r data in \<open>auto dest: map_eq_imp_length_eq\<close>)
qed

text \<open>A list that was filtered: each entry at most as often, in a subset.\<close>

definition thinned :: "'a list \<Rightarrow> 'a list \<Rightarrow> bool" where
  "thinned xs ys \<longleftrightarrow> (distinct xs \<longrightarrow> distinct ys) \<and> set ys \<subseteq> set xs"

lemma thinned_refl [simp]: "thinned xs xs"
  by (simp add: thinned_def)

lemma thinned_filter [simp]: "thinned xs (filter p xs)"
  by (auto simp: thinned_def)

lemma thinned_trans: "thinned xs ys \<Longrightarrow> thinned ys zs \<Longrightarrow> thinned xs zs"
  by (auto simp: thinned_def)

lemma custom_loop_thins:
  "custom_loop f cols kept rest s = Inr t \<Longrightarrow> \<exists>ys. t = s\<lparr>st_display := kept @ ys\<rparr> \<and> thinned rest ys"
proof (induction f cols kept rest s rule: custom_loop.induct)
  case (2 f cols kept d rest s)
  let ?s = "s\<lparr>st_display := kept @ d # rest\<rparr>"
  from "2.prems" obtain data where data: "row_data ?s d (Some ''filter'') cols = Inr data"
    and run: "custom_loop f cols (if f ?s data d then kept @ [d] else kept) rest s = Inr t"
    by (auto simp: Let_def js_bind_Inr_iff)
  from "2.IH" [OF refl, of data] run obtain ys
    where "t = s\<lparr>st_display := (if f ?s data d then kept @ [d] else kept) @ ys\<rparr>" "thinned rest ys" by blast
  then show ?case
    by (intro exI [of _ "(if f ?s data d then [d] else []) @ ys"]) (auto simp: thinned_def)
qed (auto intro!: exI [of _ "[]"])

lemma filterCustom_thins:
  assumes "filterCustom env s = Inr t"
  shows "\<exists>d. t = s\<lparr>st_display := d\<rparr> \<and> thinned (st_display s) d"
proof -
  have "js_foldM (\<lambda>f s'. custom_loop f cols [] (st_display s') s') fs s = Inr t \<Longrightarrow>
      \<exists>d. t = s\<lparr>st_display := d\<rparr> \<and> thinned (st_display s) d" for cols fs s
  proof (induction fs arbitrary: s)
    case Nil
    then show ?case by (intro exI [of _ "st_display s"]) simp
  next
    case (Cons f fs)
    then obtain u where "custom_loop f cols [] (st_display s) s = Inr u"
      "js_foldM (\<lambda>f s'. custom_loop f cols [] (st_display s') s') fs u = Inr t" by (auto simp: js_bind_Inr_iff)
    moreover from this(1) obtain ys where "u = s\<lparr>st_display := ys\<rparr>" "thinned (st_display s) ys"
      using custom_loop_thins [of f cols "[]" "st_display s" s u] by auto
    ultimately obtain d where "t = s\<lparr>st_display := d\<rparr>" "thinned ys d" using Cons.IH [of u] by auto
    with \<open>thinned (st_display s) ys\<close> show ?case by (intro exI [of _ d]) (auto intro: thinned_trans)
  qed
  from this [of "get_columns s co_bSearchable" "en_search env" s] assms show ?thesis by (simp add: filterCustom_def)
qed

lemma dt_filter_thins:
  assumes "dt_filter env input force regex smart ic s = Inr t"
  shows "\<exists>rows d. t = s\<lparr>st_data := rows, st_display := d\<rparr> \<and> length rows = length (st_data s) \<and>
    map ro_data rows = map ro_data (st_data s) \<and> (thinned (st_master s) d \<or> thinned (st_display s) d)"
proof -
  from assms obtain s1 stale where s1: "filterData env s = Inr (s1, stale)"
    by (auto simp: dt_filter_def js_bind_Inr_iff)
  obtain rows where rows: "s1 = s\<lparr>st_data := rows\<rparr>" "length rows = length (st_data s)"
    "\<And>i. i < length (st_data s) \<Longrightarrow> ro_data (rows ! i) = ro_data (st_data s ! i)"
    using filterData_Inr [OF s1] by metis
  have "map ro_data rows = map ro_data (st_data s)" using rows(2,3) by (intro nth_equalityI) auto
  moreover have "\<exists>d. t = s1\<lparr>st_display := d\<rparr> \<and> (thinned (st_master s) d \<or> thinned (st_display s) d)"
    using assms s1 rows(1)
    by (auto simp: dt_filter_def js_bind_Inr_iff Let_def dest!: display_filter_Inr split: if_splits)
  ultimately show ?thesis using rows(1,2) by auto
qed

lemma filterComplete_shape:
  assumes "filterComplete env inp force s = Inr t"
  shows "\<exists>cols rows d. t = s\<lparr>st_columns := cols, st_data := rows, st_display := d, st_search := inp, st_bFiltered := True\<rparr> \<and>
    map untyped cols = map untyped (st_columns s) \<and> map ro_data rows = map ro_data (st_data s) \<and>
    (thinned (st_master s) d \<or> thinned (st_display s) d)"
proof -
  from assms obtain s0 where s0: "columnTypes env s = Inr s0" by (auto simp: filterComplete_def js_bind_Inr_iff)
  from columnTypes_frame [OF s0] obtain cols where cols: "s0 = s\<lparr>st_columns := cols\<rparr>" by blast
  have un: "map untyped cols = map untyped (st_columns s)"
    using columnTypes_frame(1) [OF s0] by (simp add: cells_eq_def cols)
  show ?thesis
  proof (cases "dataSource s0 = SSP")
    case True
    with assms s0 show ?thesis
      by (intro exI [of _ cols] exI [of _ "st_data s"] exI [of _ "st_display s"])
        (simp add: filterComplete_def cols un)
  next
    case False
    with assms s0 obtain s1 s2 s3 where
      s1: "dt_filter env (se_sSearch inp) force (flag (se_bRegex inp)) (flag (se_bSmart inp)) (flag (se_bCaseInsensitive inp)) s0 = Inr s1"
      and s2: "filter_columns (s1\<lparr>st_search := inp\<rparr>) = Inr s2" and s3: "filterCustom env s2 = Inr s3"
      and t: "t = s3\<lparr>st_bFiltered := True\<rparr>"
      by (auto simp: filterComplete_def js_bind_Inr_iff)
    from dt_filter_thins [OF s1] obtain rows d where r: "s1 = s0\<lparr>st_data := rows, st_display := d\<rparr>"
      "map ro_data rows = map ro_data (st_data s)" "thinned (st_master s) d \<or> thinned (st_display s) d"
      by (auto simp: cols)
    from filter_columns_Inr [OF s2 [unfolded filter_columns_def]]
    obtain d2 where d2: "s2 = s1\<lparr>st_search := inp, st_display := d2\<rparr>" "thinned d d2" by (auto simp: r(1))
    from filterCustom_thins [OF s3] obtain d3 where d3: "s3 = s2\<lparr>st_display := d3\<rparr>" "thinned d2 d3"
      by (auto simp: d2(1))
    have "thinned (st_master s) d3 \<or> thinned (st_display s) d3"
      using r(3) d2(2) d3(2) by (blast intro: thinned_trans)
    then show ?thesis
      by (intro exI [of _ cols] exI [of _ rows] exI [of _ d3]) (simp add: t d3 d2 r cols un)
  qed
qed

lemma filterComplete_ok:
  assumes "filterComplete env inp force s = Inr t" "rows_ok s"
  shows "rows_ok t" "st_start t = st_start s" "dataSource t = dataSource s" "st_initStart t = st_initStart s"
    "map ro_data (st_data t) = map ro_data (st_data s)" "st_master t = st_master s" "st_length t = st_length s"
proof -
  from filterComplete_shape [OF assms(1)] obtain cols rows d where t: "t = s\<lparr>st_columns := cols, st_data := rows, st_display := d, st_search := inp, st_bFiltered := True\<rparr>"
    and data: "map ro_data rows = map ro_data (st_data s)" and d: "thinned (st_master s) d \<or> thinned (st_display s) d"
    by blast
  have len: "length rows = length (st_data s)" using data by (rule map_eq_imp_length_eq)
  show "rows_ok t" using assms(2) d unfolding rows_ok_def thinned_def by (auto simp: t len)
  show "st_start t = st_start s" "dataSource t = dataSource s" "st_initStart t = st_initStart s"
    "map ro_data (st_data t) = map ro_data (st_data s)" "st_master t = st_master s" "st_length t = st_length s"
    using data by (simp_all add: t dataSource_def)
qed

section \<open>A redraw\<close>

lemma row_passes_core: "row_core r = row_core r' \<Longrightarrow> row_passes cs x r = row_passes cs x r'"
proof -
  assume r: "row_core r = row_core r'"
  then have f: "ro_filterRow r = ro_filterRow r'" "filter_text i r = filter_text i r'" for i
    by (auto simp: row_core_def filter_text_def)
  show ?thesis unfolding row_passes_def col_passes_def f by (rule refl)
qed

lemma start_irrelevant [simp]:
  "rows_ok (s\<lparr>st_start := n\<rparr>) = rows_ok s" "display_current (s\<lparr>st_start := n\<rparr>) = display_current s"
  by (simp_all add: rows_ok_def display_current_def)

lemma display_current_core:
  assumes "map row_core (st_data t) = map row_core (st_data s)" "st_display t = st_display s" "st_master t = st_master s"
    and "st_colSearch t = st_colSearch s" "st_search t = st_search s" "rows_ok s" "display_current s"
  shows "display_current t"
proof -
  have "row_core (st_data t ! i) = row_core (st_data s ! i)" if "i \<in> set (st_master s)" for i
    using assms(1,6) that by (metis atLeastLessThan_iff length_map nth_map rows_ok_def)
  then have "filter (\<lambda>i. row_passes (st_colSearch s) (st_search s) (st_data t ! i)) (st_master s)
      = filter (\<lambda>i. row_passes (st_colSearch s) (st_search s) (st_data s ! i)) (st_master s)"
    by (intro filter_cong refl row_passes_core) auto
  with assms show ?thesis by (simp add: display_current_def)
qed

lemma rows_ok_core: "map row_core (st_data t) = map row_core (st_data s) \<Longrightarrow> st_display t = st_display s \<Longrightarrow>
    st_master t = st_master s \<Longrightarrow> rows_ok s \<Longrightarrow> rows_ok t"
  by (simp add: rows_ok_def) (metis map_eq_imp_length_eq)

lemma core_data: "map row_core xs = map row_core ys \<Longrightarrow> map ro_data xs = map ro_data ys"
proof -
  assume *: "map row_core xs = map row_core ys"
  have m: "map ro_data zs = map fst (map row_core zs)" for zs by (simp add: row_core_def)
  show ?thesis unfolding m * by (rule refl)
qed

lemma redraw_Inr:
  assumes "reDraw env hold s = Inr (q, t)"
  obtains s1 s2 where "(if st_bSort s then dt_sort env s else Inr s) = Inr s1"
    "(if st_bFilter s then filterComplete env (st_search s1) False s1 else Inr (s1\<lparr>st_display := st_master s1\<rparr>)) = Inr s2"
    "draw env (if hold then s2 else s2\<lparr>st_start := 0\<rparr>) = Inr (q, t)"
  using assms by (auto simp: reDraw_def redraw_lists_def js_bind_Inr_iff)

text \<open>The start a draw uses: a first draw takes the initial start of the options or of the saved state,
  unless it is past the rows; later draws keep theirs.\<close>

definition opening_start :: "settings \<Rightarrow> nat \<Rightarrow> int \<Rightarrow> int" where
  "opening_start s shown start = (case st_initStart s of
      None \<Rightarrow> start
    | Some n \<Rightarrow> if n = -1 then start else if int shown \<le> n then 0 else n)"

lemma init_start_opening:
  "dataSource s \<noteq> SSP \<Longrightarrow> st_start (init_start s) = opening_start s (length (st_display s)) (st_start s)"
  by (auto simp: init_start_def opening_start_def recordsDisplay_def split: option.splits)

lemma display_current_init [simp]: "display_current (init_start s) = display_current s"
  by (auto simp: init_start_def display_current_def split: option.splits)

text \<open>C24: a redraw of a client-side table with ordering and searching enabled, whatever was shown
  before, ends with the rows in the order sorting gives them: when the keys of the sort columns are comparable, each
  row before those it precedes by the first sort column in which they differ, and equal rows in their previous
  order.  The display list is exactly the rows that pass the current global and column searches, in that order, and
  the body shows the page of them at the start position: the initial start on a first draw, the held position
  when it is held, the first page otherwise.  (No custom search functions and no callback that cancels draws.)\<close>

theorem redraw_shows_matches:
  assumes "reDraw env hold s = Inr (q, t)" "dataSource s \<noteq> SSP" "rows_ok s" "js_sorter (en_sort env)"
    and "en_search env = []" "en_preDraw env = []" "st_bSort s" "st_bFilter s"
  shows "rows_ok t \<and> mset (st_master t) = mset (st_master s) \<and> map ro_data (st_data t) = map ro_data (st_data s) \<and>
    st_search t = st_search s \<and> display_current t \<and>
    (\<exists>s1. dt_sort env s = Inr s1 \<and> st_master t = st_master s1 \<and>
      (\<forall>fs. sortFlatten s = Inr fs \<and> fs \<noteq> [] \<and> (\<forall>f \<in> set fs. order_pre (en_date_parse env) (fs_type f) \<noteq> None) \<and>
          keys_ok s1 fs (set (st_master s)) \<longrightarrow>
        sorted_wrt (\<lambda>a b. row_before s1 fs a b \<or>
          \<not> row_before s1 fs b a \<and> orig_pos (st_master s) a < orig_pos (st_master s) b) (st_master t))) \<and>
    st_start t = opening_start s (length (st_display t)) (if hold then st_start s else 0) \<and>
    (if st_display t = [] then \<exists>m. st_tbody t = EmptyMessage m else st_tbody t = Rows (page_slice t))"
proof -
  obtain s1 s2 where s1: "dt_sort env s = Inr s1" and s2: "filterComplete env (st_search s1) False s1 = Inr s2"
    and d: "draw env (if hold then s2 else s2\<lparr>st_start := 0\<rparr>) = Inr (q, t)"
    using redraw_Inr [OF assms(1)] assms(7,8) by metis
  note a = dt_sort_ok [OF s1 assms(4,3)]
  note b = filterComplete_ok [OF s2 a(1)]
  have m1: "\<forall>i \<in> set (st_master s1). i < length (st_data s1)" using a(1) by (auto simp: rows_ok_def)
  have fr: "display_current s2 \<and> st_search s2 = st_search s1 \<and> st_colSearch s2 = st_colSearch s1"
    using filterComplete_frame [OF s2 _ assms(5) m1] a(4,6) assms(2) by (auto simp: display_current_def)
  let ?s3 = "if hold then s2 else s2\<lparr>st_start := 0\<rparr>"
  have ok3: "rows_ok ?s3" "display_current ?s3" "dataSource ?s3 \<noteq> SSP" "\<not> draw_cancelled env ?s3"
    using b(1) fr a(4) b(3) assms(2,6) by (cases hold; simp add: draw_cancelled_def)+
  note e = draw_client_Inr [OF d ok3(4,3)]
  have "display_current t" by (rule display_current_core [OF e(2,3,4,7,8) ok3(1,2)])
  moreover have "rows_ok t" by (rule rows_ok_core [OF e(2,3,4) ok3(1)])
  moreover have "st_search t = st_search s" using e(8) fr a(7) by (auto split: if_splits)
  moreover have "map ro_data (st_data t) = map ro_data (st_data s)"
    using core_data [OF e(2)] b(5) a(5) by (auto split: if_splits)
  moreover have master: "st_master t = st_master s1" using e(4) b(6) by (auto split: if_splits)
  moreover have "mset (st_master t) = mset (st_master s)" using master a(2) by simp
  moreover have "st_initStart ?s3 = st_initStart s" "st_start ?s3 = (if hold then st_start s else 0)"
    using a(3,9) b(2,4) by simp_all
  then have "st_start t = opening_start s (length (st_display t)) (if hold then st_start s else 0)"
    using e(3,6) init_start_opening [OF ok3(3)] by (simp add: opening_start_def split: option.splits)
  moreover have "if st_display t = [] then \<exists>m. st_tbody t = EmptyMessage m else st_tbody t = Rows (page_slice t)"
    using e(3,9,15) by auto
  moreover have "distinct (st_master s)" using assms(3) by (simp add: rows_ok_def)
  ultimately show ?thesis using dt_sort_orders [OF assms(4) s1 assms(2)] s1 by auto
qed

section \<open>Every table a page can reach\<close>

definition table_ok :: "settings \<Rightarrow> bool" where
  "table_ok s \<longleftrightarrow> rows_ok s \<and> 0 \<le> st_start s \<and> (0 < st_length s \<or> st_length s = -1) \<and> dataSource s \<noteq> SSP \<and>
     (case st_initStart s of None \<Rightarrow> True | Some n \<Rightarrow> -1 \<le> n)"

text \<open>The operations of a client-side table.  Lengths are those of the length menu or -1, page numbers
  are not negative, and the rows removed are distinct rows of the table.\<close>

inductive table_step :: "dt_env \<Rightarrow> settings \<Rightarrow> settings \<Rightarrow> bool" for env where
  add: "addData d tr s = Inr (i, t) \<Longrightarrow> table_step env s t"
| remove: "distinct rs \<Longrightarrow> set rs \<subseteq> {0..<length (st_data s)} \<Longrightarrow> table_step env s (rows_remove rs s)"
| clear: "table_step env s (clearTable s)"
| invalidate: "invalidate_row row src col s = Inr t \<Longrightarrow> table_step env s t"
| page: "pageChange a s = Inr (c, t) \<Longrightarrow> (\<And>n. a = PageNo n \<Longrightarrow> 0 \<le> n) \<Longrightarrow> table_step env s t"
| resize: "lengthChange v s = Inr t \<Longrightarrow> 0 < st_length t \<or> st_length t = -1 \<Longrightarrow> table_step env s t"
| order: "listener_sorting col app s = Inr t \<Longrightarrow> table_step env s t"
| search: "filterComplete env inp force s = Inr t \<Longrightarrow> table_step env s (t\<lparr>st_start := 0\<rparr>)"
| draw: "draw env s = Inr (q, t) \<Longrightarrow> table_step env s t"
| redraw: "reDraw env hold s = Inr (q, t) \<Longrightarrow> table_step env s t"

lemma lengthOverflow_ok: "0 \<le> st_start (lengthOverflow s)"
  "dataSource (lengthOverflow s) = dataSource s" "st_initStart (lengthOverflow s) = st_initStart s"
  by (auto simp: lengthOverflow_def Let_def dataSource_def)

lemma rows_remove_frame:
  "0 \<le> st_start s \<Longrightarrow> 0 \<le> st_start (rows_remove rs s) \<and> st_length (rows_remove rs s) = st_length s \<and>
    dataSource (rows_remove rs s) = dataSource s \<and> st_initStart (rows_remove rs s) = st_initStart s"
proof (induction rs s rule: rows_remove.induct)
  case (2 r rs s)
  have "0 \<le> st_start (remove_row r s)" "st_length (remove_row r s) = st_length s"
    "dataSource (remove_row r s) = dataSource s" "st_initStart (remove_row r s) = st_initStart s"
    by (simp_all add: remove_row_def lengthOverflow_ok) (simp add: dataSource_def)
  with "2.IH" show ?case by simp
qed simp

lemma dataSource_lists [simp]:
  "dataSource (s\<lparr>st_master := xs\<rparr>) = dataSource s" "dataSource (s\<lparr>st_display := xs\<rparr>) = dataSource s"
  "dataSource (s\<lparr>st_columns := cs\<rparr>) = dataSource s" "dataSource (s\<lparr>st_sorting := so\<rparr>) = dataSource s"
  by (simp_all add: dataSource_def)

lemma page_start_nonneg:
  assumes "page_start a s = Inr n" "0 \<le> st_start s" "0 < st_length s \<or> st_length s = -1" "\<And>k. a = PageNo k \<Longrightarrow> 0 \<le> k"
    and "0 \<le> recordsDisplay s"
  shows "0 \<le> n"
proof (cases a)
  case (PageNo k)
  with assms show ?thesis by (auto simp: page_start_def Let_def split: if_splits)
next
  case (PageStr w)
  with assms show ?thesis
    by (auto simp: page_start_def Let_def pos_imp_zdiv_nonneg_iff split: if_splits)
qed

lemma listener_frame: "listener_sorting col app s = Inr t \<Longrightarrow> \<exists>x. t = s\<lparr>st_sorting := x\<rparr>"
  by (auto simp: listener_sorting_def Let_def js_bind_Inr_iff split: if_splits option.splits list.splits)

lemma draw_table_ok:
  assumes "draw env s = Inr (q, t)" "table_ok s"
  shows "table_ok t"
proof (cases "draw_cancelled env s")
  case True
  with assms show ?thesis by (simp add: draw_def)
next
  case False
  have ds: "dataSource s \<noteq> SSP" using assms(2) by (simp add: table_ok_def)
  note e = draw_client_Inr [OF assms(1) False ds]
  have "0 \<le> st_start (init_start s)" "case st_initStart (init_start s) of None \<Rightarrow> True | Some n \<Rightarrow> -1 \<le> n"
    using assms(2) by (auto simp: table_ok_def init_start_def split: option.splits)
  with e rows_ok_core [OF e(2,3,4)] assms(2) show ?thesis by (simp add: table_ok_def)
qed

lemma table_ok_start: "table_ok s \<Longrightarrow> 0 \<le> n \<Longrightarrow> table_ok (s\<lparr>st_start := n\<rparr>)"
  by (simp add: table_ok_def)

lemma filter_table_ok: "filterComplete env inp force s = Inr t \<Longrightarrow> table_ok s \<Longrightarrow> table_ok t"
  using filterComplete_ok [of env inp force s t] by (simp add: table_ok_def)

lemma sort_table_ok: "dt_sort env s = Inr t \<Longrightarrow> js_sorter (en_sort env) \<Longrightarrow> table_ok s \<Longrightarrow> table_ok t"
  using dt_sort_ok [of env s t] by (simp add: table_ok_def)

lemma redraw_table_ok:
  assumes "reDraw env hold s = Inr (q, t)" "js_sorter (en_sort env)" "table_ok s"
  shows "table_ok t"
proof -
  obtain s1 s2 where s1: "(if st_bSort s then dt_sort env s else Inr s) = Inr s1"
    and s2: "(if st_bFilter s then filterComplete env (st_search s1) False s1 else Inr (s1\<lparr>st_display := st_master s1\<rparr>)) = Inr s2"
    and d: "draw env (if hold then s2 else s2\<lparr>st_start := 0\<rparr>) = Inr (q, t)"
    using redraw_Inr [OF assms(1)] by metis
  have "table_ok s1" using s1 sort_table_ok [OF _ assms(2,3)] assms(3) by (auto split: if_splits)
  then have "table_ok s2"
    using s2 filter_table_ok [of env "st_search s1" False s1 s2] by (cases "st_bFilter s") (auto simp: table_ok_def rows_ok_def)
  then have "table_ok (if hold then s2 else s2\<lparr>st_start := 0\<rparr>)" by (simp add: table_ok_start)
  from draw_table_ok [OF d this] show ?thesis .
qed

lemma table_step_ok:
  assumes "table_step env s t" "js_sorter (en_sort env)" "table_ok s"
  shows "table_ok t"
  using assms(1)
proof cases
  case (add d tr i)
  with addData_ok [of s d tr i t] addData_frame [of d tr s i t] assms(3) show ?thesis by (simp add: table_ok_def)
next
  case (remove rs)
  with rows_remove_kept [of s rs] rows_remove_frame [of s rs] assms(3) show ?thesis by (simp add: table_ok_def)
next
  case clear
  with clearTable_ok [of s] assms(3) show ?thesis by (simp add: table_ok_def clearTable_def)
next
  case (invalidate row src col)
  with invalidate_frame [of row src col s t] invalidate_ok [of s row src col t] assms(3) show ?thesis
    by (auto simp: table_ok_def)
next
  case (page a c)
  then obtain n where n: "page_start a s = Inr n" "t = s\<lparr>st_start := n\<rparr>"
    by (auto simp: pageChange_def js_bind_Inr_iff)
  have "0 \<le> recordsDisplay s" using assms(3) by (simp add: table_ok_def recordsDisplay_def)
  with n page(2) page_start_nonneg [OF n(1)] assms(3) show ?thesis by (simp add: table_ok_start table_ok_def)
next
  case (resize v)
  then obtain k where "t = lengthOverflow (s\<lparr>st_length := k\<rparr>)"
    by (auto simp: lengthChange_def split: option.splits)
  with resize(2) lengthOverflow_ok [of "s\<lparr>st_length := k\<rparr>"] assms(3) show ?thesis
    by (simp add: table_ok_def rows_ok_def)
next
  case (order col app)
  with listener_frame [of col app s t] assms(3) show ?thesis by (auto simp: table_ok_def rows_ok_def)
next
  case (search inp force u)
  with filter_table_ok [of env inp force s u] assms(3) show ?thesis by (simp add: table_ok_start)
next
  case (draw q)
  with draw_table_ok assms(3) show ?thesis by blast
next
  case (redraw hold q)
  with redraw_table_ok assms(2,3) show ?thesis by blast
qed

lemma table_reachable_ok:
  "(table_step env)\<^sup>*\<^sup>* s t \<Longrightarrow> js_sorter (en_sort env) \<Longrightarrow> table_ok s \<Longrightarrow> table_ok t"
  by (induction rule: rtranclp_induct) (auto intro: table_step_ok)

text \<open>C25: whatever sequence of row additions and removals, invalidations, page moves, length changes,
  searches, header clicks, draws and redraws a client-side table goes through, its row order names
  each row exactly once, its display list names rows of the table at most once, and the start is
  not negative; so a draw of it never reads outside its lists, and succeeds once the rows have
  their elements.\<close>

theorem table_rows_consistent:
  assumes "(table_step env)\<^sup>*\<^sup>* s t" "table_ok s" "js_sorter (en_sort env)"
  shows "distinct (st_master t) \<and> set (st_master t) = {0..<length (st_data t)} \<and> distinct (st_display t) \<and>
    set (st_display t) \<subseteq> set (st_master t) \<and> 0 \<le> st_start t \<and>
    (list_all (\<lambda>r. ro_cells r \<noteq> None) (st_data t) \<longrightarrow> (\<exists>q u. draw env t = Inr (q, u)))"
proof -
  have ok: "table_ok t" by (rule table_reachable_ok [OF assms(1,3,2)])
  have "0 \<le> st_start (init_start t)"
    using ok by (auto simp: table_ok_def init_start_def split: option.splits)
  with ok draw_total [of t env] show ?thesis by (auto simp: table_ok_def rows_ok_def list_all_iff)
qed

section \<open>Instances\<close>

lemma abc_client: "dataSource abc \<noteq> SSP" "\<not> draw_cancelled base_env abc" "init_start abc = abc"
  "page_slice abc = [0, 1, 2]" "\<forall>r \<in> set (st_data abc). ro_cells r \<noteq> None" "st_stripes abc = [''odd'', ''even'']"
  by (auto simp: abc_def small_table_def dataSource_def draw_cancelled_def base_env_def init_start_def page_slice_def
      displayEnd_def Let_def plain_row_def)

lemma abc_table_ok: "table_ok abc"
proof -
  have "st_start abc = 0" "st_length abc = 10" "st_initStart abc = Some (-1)" by (simp_all add: abc_def small_table_def)
  then show ?thesis by (simp add: table_ok_def abc_ok(1) abc_client(1))
qed

theorem draw_shows_page_witness:
  "\<exists>t. draw base_env abc = Inr (None, t) \<and> st_tbody t = Rows [0, 1, 2] \<and> ro_stripe (st_data t ! 1) = ''even''"
proof -
  obtain q t where t: "draw base_env abc = Inr (q, t)"
    using draw_total [of abc base_env] abc_ok abc_client abc_table_ok by (auto simp: table_ok_def)
  from draw_shows_page [OF t abc_client(2,1) abc_ok(1)] t show ?thesis
    by (auto simp: abc_client abc_ok Let_def dest!: spec [of _ 1])
qed

lemma ten_nine_redraw:
  "(case reDraw base_env False ten_nine of Inl e \<Rightarrow> False | Inr (q, t) \<Rightarrow> st_tbody t = Rows [1, 0, 2] \<and> st_display t \<noteq> [])"
  by code_simp

theorem redraw_shows_matches_witness:
  "\<exists>t. reDraw base_env False ten_nine = Inr (None, t) \<and> st_tbody t = Rows [1, 0, 2] \<and> page_slice t = [1, 0, 2] \<and>
    display_current t"
proof -
  obtain q t where t: "reDraw base_env False ten_nine = Inr (q, t)" "st_tbody t = Rows [1, 0, 2]" "st_display t \<noteq> []"
    using ten_nine_redraw by (auto split: sum.splits)
  have s: "dataSource ten_nine \<noteq> SSP" "rows_ok ten_nine" "st_bSort ten_nine" "st_bFilter ten_nine"
    by (auto simp: ten_nine_def small_table_def dataSource_def rows_ok_def)
  have e: "en_search base_env = []" "en_preDraw base_env = []" by (simp_all add: base_env_def)
  obtain s1 s2 where "draw base_env (if False then s2 else s2\<lparr>st_start := 0\<rparr>) = Inr (q, t)"
    "dt_sort base_env ten_nine = Inr s1" "filterComplete base_env (st_search s1) False s1 = Inr s2"
    using redraw_Inr [OF t(1)] s(3,4) by metis
  then have "q = None"
    using draw_client_Inr(1) [of base_env "s2\<lparr>st_start := 0\<rparr>" q t] dt_sort_ok [OF _ base_env_sorter s(2)]
      filterComplete_ok(3) s(1) e(2) by (auto simp: draw_cancelled_def)
  with redraw_shows_matches [OF t(1) s(1,2) base_env_sorter e s(3,4)] t show ?thesis by auto
qed

theorem table_rows_consistent_witness:
  "(table_step base_env)\<^sup>*\<^sup>* abc (rows_remove [1, 0] abc) \<and>
    set (st_display (rows_remove [1, 0] abc)) \<subseteq> set (st_master (rows_remove [1, 0] abc))"
proof -
  have "table_step base_env abc (rows_remove [1, 0] abc)" by (rule table_step.remove) (simp_all add: abc_ok)
  then have "(table_step base_env)\<^sup>*\<^sup>* abc (rows_remove [1, 0] abc)" by simp
  with table_rows_consistent [OF this abc_table_ok base_env_sorter] show ?thesis by blast
qed

end
