(* ===== verification/DT_Server.thy ===== *)
theory DT_Server
  imports DT_Draw
begin

text \<open>
  Answers of a server (public/js/plugins/dataTables/jquery.dataTables.js): \<open>_fnAjaxUpdateDraw\<close> for
  server-side processing, with its guard against answers that arrive out of order, and the reload
  of an Ajax table (\<open>__reload\<close>).  Initialisation callbacks and the processing indicator are not
  modelled.
\<close>

section \<open>An answer for server-side processing\<close>

text \<open>\<open>compat(old, modern)\<close>\<close>

definition json_compat :: "jsval \<Rightarrow> string \<Rightarrow> string \<Rightarrow> jsval js_res" where
  "json_compat json old modern =
    js_bind (js_prop json old) (\<lambda>a. if a \<noteq> JUndef then Inr a else js_prop json modern)"

text \<open>A number as a draw counter; others (\<open>NaN\<close>, fractions) are not represented.\<close>

definition draw_number :: "dbl \<Rightarrow> nat js_res" where
  "draw_number d = (case d of
      Fin r \<Rightarrow> if 0 \<le> r \<and> of_int \<lfloor>r\<rfloor> = r then Inr (nat \<lfloor>r\<rfloor>) else Inl Unsupported
    | _ \<Rightarrow> Inl Unsupported)"

text \<open>\<open>parseInt(v, 10)\<close>; \<open>NaN\<close> is not represented.\<close>

definition record_count :: "jsval \<Rightarrow> int js_res" where
  "record_count v = (case parse_int (js_string v) of Some n \<Rightarrow> Inr n | None \<Rightarrow> Inl Unsupported)"

text \<open>The loop that adds the rows of an answer.\<close>

definition add_rows :: "jsval list \<Rightarrow> settings \<Rightarrow> settings js_res" where
  "add_rows = js_foldM (\<lambda>d s. js_bind (addData d None s) (\<lambda>(i, t). Inr t))"

definition show_answer :: "dt_env \<Rightarrow> jsval \<Rightarrow> int \<Rightarrow> int \<Rightarrow> settings \<Rightarrow> settings js_res" where
  "show_answer env json tot filtered s =
    (let s1 = (clearTable s)\<lparr>st_recordsTotal := tot, st_recordsDisplay := filtered\<rparr>
     in js_bind (ajaxDataSrc s1 json) (\<lambda>data. js_bind (js_elements data) (\<lambda>rows.
        js_bind (add_rows rows s1) (\<lambda>s2.
        js_bind (draw env (s2\<lparr>st_display := st_master s2, st_ajaxDataGet := False\<rparr>)) (\<lambda>(req, s3).
          Inr (s3\<lparr>st_ajaxDataGet := True\<rparr>))))))"

definition ajaxUpdateDraw :: "dt_env \<Rightarrow> jsval \<Rightarrow> settings \<Rightarrow> settings js_res" where
  "ajaxUpdateDraw env json s =
    js_bind (json_compat json ''sEcho'' ''draw'') (\<lambda>n.
    js_bind (json_compat json ''iTotalRecords'' ''recordsTotal'') (\<lambda>tot.
    js_bind (json_compat json ''iTotalDisplayRecords'' ''recordsFiltered'') (\<lambda>filt.
      if \<not> js_not n \<and> num_less (js_times_one n) (Fin (of_nat (st_iDraw s))) then Inr s
      else js_bind (if js_not n then Inr (st_iDraw s) else draw_number (js_times_one n)) (\<lambda>k.
        js_bind (record_count tot) (\<lambda>t. js_bind (record_count filt) (\<lambda>f.
          show_answer env json t f (s\<lparr>st_iDraw := k\<rparr>)))))))"

section \<open>Reloading an Ajax table\<close>

text \<open>The handler \<open>__reload\<close> gives the request of a table that is not server-side.\<close>

definition reload_answer :: "dt_env \<Rightarrow> bool \<Rightarrow> jsval \<Rightarrow> settings \<Rightarrow> (request_params option \<times> settings) js_res" where
  "reload_answer env hold json s =
    js_bind (ajaxDataSrc (clearTable s) json) (\<lambda>data. js_bind (js_elements data) (\<lambda>rows.
    js_bind (add_rows rows (clearTable s)) (reDraw env hold)))"

section \<open>The rows of an answer\<close>

lemma addData_server:
  assumes "addData d None s = Inr (i, t)"
  shows "map ro_data (st_data t) = map ro_data (st_data s) @ [d]" "st_iDraw t = st_iDraw s"
    "st_bDeferLoading t = st_bDeferLoading s" "dataSource t = dataSource s" "st_dataSrc t = st_dataSrc s"
    "st_master t = st_master s @ [length (st_data s)]"
proof -
  let ?row = "length (st_data s)"
  let ?s1 = "s\<lparr>st_data := st_data s @ [new_row d FromData], st_columns := map untyped (st_columns s),
    st_master := st_master s @ [?row]\<rparr>"
  have "\<exists>r. t = s\<lparr>st_data := st_data s @ [r], st_columns := map untyped (st_columns s),
      st_master := st_master s @ [?row]\<rparr> \<and> ro_data r = d"
  proof (cases "st_bDeferRender s")
    case True
    with assms show ?thesis by (auto simp: addData_def Let_def new_row_def)
  next
    case False
    with assms have c: "createTr ?row None ?s1 = Inr t" by (auto simp: addData_def Let_def js_bind_Inr_iff)
    from createTr_core [OF c] obtain r where "t = ?s1\<lparr>st_data := (st_data ?s1)[?row := r]\<rparr>"
      "row_core r = row_core (st_data ?s1 ! ?row)" by blast
    then show ?thesis by (intro exI [of _ r]) (simp add: row_core_def new_row_def list_update_append)
  qed
  then show "map ro_data (st_data t) = map ro_data (st_data s) @ [d]" "st_iDraw t = st_iDraw s"
    "st_bDeferLoading t = st_bDeferLoading s" "dataSource t = dataSource s" "st_dataSrc t = st_dataSrc s"
    "st_master t = st_master s @ [length (st_data s)]"
    by (auto simp: dataSource_def)
qed

lemma add_rows_Inr:
  assumes "add_rows ds s = Inr t"
  shows "map ro_data (st_data t) = map ro_data (st_data s) @ ds" "st_iDraw t = st_iDraw s"
    "st_bDeferLoading t = st_bDeferLoading s" "dataSource t = dataSource s"
    "st_master t = st_master s @ [length (st_data s)..<length (st_data s) + length ds]"
  using assms
proof (induction ds arbitrary: s)
  case (Cons d ds)
  have split: "\<exists>i u. addData d None s = Inr (i, u) \<and> add_rows ds u = Inr t" if "add_rows (d # ds) s = Inr t" for s
    using that by (auto simp: add_rows_def js_bind_Inr_iff)
  {
    case 1
    from split [OF this] obtain i u where u: "addData d None s = Inr (i, u)" "add_rows ds u = Inr t" by blast
    show ?case using Cons.IH(1) [OF u(2)] addData_server(1) [OF u(1)] by simp
  next
    case 2
    from split [OF this] obtain i u where u: "addData d None s = Inr (i, u)" "add_rows ds u = Inr t" by blast
    show ?case using Cons.IH(2) [OF u(2)] addData_server(2) [OF u(1)] by simp
  next
    case 3
    from split [OF this] obtain i u where u: "addData d None s = Inr (i, u)" "add_rows ds u = Inr t" by blast
    show ?case using Cons.IH(3) [OF u(2)] addData_server(3) [OF u(1)] by simp
  next
    case 4
    from split [OF this] obtain i u where u: "addData d None s = Inr (i, u)" "add_rows ds u = Inr t" by blast
    show ?case using Cons.IH(4) [OF u(2)] addData_server(4) [OF u(1)] by simp
  next
    case 5
    from split [OF this] obtain i u where u: "addData d None s = Inr (i, u)" "add_rows ds u = Inr t" by blast
    have "length (st_data u) = Suc (length (st_data s))" using addData_frame(1,2) [OF u(1)] by simp
    moreover have "length (st_data s) # [Suc (length (st_data s))..<n] = [length (st_data s)..<n]"
      if "length (st_data s) < n" for n using that by (rule upt_conv_Cons [symmetric])
    ultimately show ?case using Cons.IH(5) [OF u(2)] addData_server(6) [OF u(1)] by (simp del: upt_Suc)
  }
qed (simp_all add: add_rows_def)

section \<open>Answers out of order\<close>

text \<open>The answer to the request numbered \<open>k\<close>.\<close>

definition answers_draw :: "jsval \<Rightarrow> nat \<Rightarrow> bool" where
  "answers_draw json k \<longleftrightarrow> (\<exists>v. json_compat json ''sEcho'' ''draw'' = Inr v \<and> \<not> js_not v \<and> js_times_one v = Fin (of_nat k))"

lemma json_compat_total:
  assumes "json_compat json a b = Inr v"
  shows "\<exists>w. json_compat json c d = Inr w"
proof -
  have "\<exists>w. js_prop json k = Inr w" for k
    using assms by (cases json) (auto simp: json_compat_def js_bind_Inr_iff split: option.splits)
  then obtain x y where "js_prop json c = Inr x" "js_prop json d = Inr y" by metis
  then show ?thesis by (simp add: json_compat_def)
qed

lemma old_answer_ignored:
  assumes "answers_draw json k" "k < st_iDraw s"
  shows "ajaxUpdateDraw env json s = Inr s"
proof -
  from assms(1) obtain v where v: "json_compat json ''sEcho'' ''draw'' = Inr v" "\<not> js_not v"
    "js_times_one v = Fin (of_nat k)" by (auto simp: answers_draw_def)
  from json_compat_total [OF v(1)] obtain tot filt where
    "json_compat json ''iTotalRecords'' ''recordsTotal'' = Inr tot"
    "json_compat json ''iTotalDisplayRecords'' ''recordsFiltered'' = Inr filt" by metis
  with v assms(2) show ?thesis by (simp add: ajaxUpdateDraw_def)
qed

lemma old_answers_ignored:
  "\<forall>a \<in> set as. \<exists>k < st_iDraw s. answers_draw a k \<Longrightarrow> js_foldM (ajaxUpdateDraw env) as s = Inr s"
  by (induction as) (auto simp: old_answer_ignored)

lemma current_answer:
  assumes "answers_draw json (st_iDraw s)" "ajaxUpdateDraw env json s = Inr t"
  shows "\<exists>tot filt. show_answer env json tot filt s = Inr t"
proof -
  from assms(1) obtain v where v: "json_compat json ''sEcho'' ''draw'' = Inr v" "\<not> js_not v"
    "js_times_one v = Fin (of_nat (st_iDraw s))" by (auto simp: answers_draw_def)
  then have "draw_number (js_times_one v) = Inr (st_iDraw s)" by (simp add: draw_number_def)
  moreover have "s\<lparr>st_iDraw := st_iDraw s\<rparr> = s" by simp
  ultimately show ?thesis using assms(2) v by (auto simp: ajaxUpdateDraw_def js_bind_Inr_iff)
qed

text \<open>The draw of an answer does not ask the server again.\<close>

lemma draw_answer:
  assumes "draw env s = Inr (q, t)" "dataSource s = SSP" "\<not> st_bDeferLoading s" "\<not> st_ajaxDataGet s"
    and "en_preDraw env = []" "st_display s = [0..<length (st_data s)]"
  shows "q = None" "map ro_data (st_data t) = map ro_data (st_data s)" "st_iDraw t = st_iDraw s"
    "st_display t = st_display s" "dataSource t = SSP" "\<not> st_bDeferLoading t"
    "st_tbody t = (if st_data s = [] then EmptyMessage (empty_message (init_start (s\<lparr>st_bDrawing := True\<rparr>))) else Rows (st_display s))"
proof -
  let ?s = "init_start (s\<lparr>st_bDrawing := True\<rparr>)"
  obtain u where u: "draw_body (st_start ?s) (displayEnd ?s) ?s = Inr u"
    and t: "q = None" "t = u\<lparr>st_bSorted := False, st_bFiltered := False, st_bDrawing := False\<rparr>"
    using assms by (auto simp: draw_def draw_cancelled_def Let_def ajaxUpdate_def js_bind_Inr_iff)
  have e: "st_data ?s = st_data s" "st_display ?s = st_display s" "dataSource ?s = SSP" "st_iDraw ?s = st_iDraw s"
    "\<not> st_bDeferLoading ?s" using assms(2,3) by simp_all
  have "\<exists>v. drawn ?s v \<and> u = v\<lparr>st_tbody := (if st_data s = [] then EmptyMessage (empty_message ?s) else Rows (st_display s))\<rparr>"
  proof (cases "st_data s = []")
    case True
    with u assms(6) drawn_refl [of ?s] show ?thesis by (auto simp: draw_body_def)
  next
    case False
    with u assms(6) e obtain rows v where r: "draw_rows 0 [0..int (length (st_data s)) - 1] ?s = Inr (rows, v)" "u = v\<lparr>st_tbody := Rows rows\<rparr>"
      by (auto simp: draw_body_def js_bind_Inr_iff simp del: init_start_fields)
    have "rows = st_display s" using nth_upto_slice [OF draw_rows_Inr(1) [OF r(1)]] assms(6) e by simp
    with r False show ?thesis by (auto dest: draw_rows_Inr(2))
  qed
  then obtain v where v: "drawn ?s v" "u = v\<lparr>st_tbody := (if st_data s = [] then EmptyMessage (empty_message ?s) else Rows (st_display s))\<rparr>"
    by blast
  then obtain rows where rows: "v = ?s\<lparr>st_data := rows\<rparr>" "map row_core rows = map row_core (st_data s)"
    by (auto simp: drawn_def)
  show "map ro_data (st_data t) = map ro_data (st_data s)" using core_data [OF rows(2)] by (simp add: t v rows)
  show "q = None" "st_iDraw t = st_iDraw s" "st_display t = st_display s" "dataSource t = SSP" "\<not> st_bDeferLoading t"
    "st_tbody t = (if st_data s = [] then EmptyMessage (empty_message ?s) else Rows (st_display s))"
    using e assms(2) by (simp_all add: t v rows)
qed

lemma ajaxDataSrc_cong: "st_dataSrc s = st_dataSrc t \<Longrightarrow> ajaxDataSrc s json = ajaxDataSrc t json"
  by (simp add: ajaxDataSrc_def split: data_src.split)

lemma answer_shown:
  assumes "show_answer env json tot filt s = Inr t" "dataSource s = SSP" "\<not> st_bDeferLoading s" "en_preDraw env = []"
    and "ajaxDataSrc s json = Inr (JArr rows)"
  shows "map ro_data (st_data t) = rows" "st_iDraw t = st_iDraw s" "st_ajaxDataGet t" "dataSource t = SSP" "\<not> st_bDeferLoading t"
    "if rows = [] then \<exists>m. st_tbody t = EmptyMessage m else st_tbody t = Rows [0..<length rows]"
proof -
  let ?s1 = "(clearTable s)\<lparr>st_recordsTotal := tot, st_recordsDisplay := filt\<rparr>"
  have c: "st_data ?s1 = []" "st_iDraw ?s1 = st_iDraw s" "dataSource ?s1 = SSP" "\<not> st_bDeferLoading ?s1"
    using assms(2,3) by (simp_all add: clearTable_def dataSource_def split: if_splits)
  have "ajaxDataSrc ?s1 json = Inr (JArr rows)" using assms(5) ajaxDataSrc_cong [of ?s1 s json] by (simp add: clearTable_def)
  with assms(1) obtain s2 q s3 where s2: "add_rows rows ?s1 = Inr s2"
    and s3: "draw env (s2\<lparr>st_display := st_master s2, st_ajaxDataGet := False\<rparr>) = Inr (q, s3)"
    and t: "t = s3\<lparr>st_ajaxDataGet := True\<rparr>"
    by (auto simp: show_answer_def Let_def js_bind_Inr_iff js_elements_def)
  let ?s2 = "s2\<lparr>st_display := st_master s2, st_ajaxDataGet := False\<rparr>"
  note a = add_rows_Inr [OF s2, unfolded c list.map append_Nil]
  have len: "length (st_data s2) = length rows" using a(1) by (metis length_map)
  have "st_master ?s1 = []" by (simp add: clearTable_def)
  then have d: "st_display ?s2 = [0..<length (st_data ?s2)]" using a(5) len by simp
  have ds: "dataSource ?s2 = SSP" using a(4) by (simp add: dataSource_def split: if_splits)
  note b = draw_answer [OF s3 ds _ _ assms(4) d]
  show "map ro_data (st_data t) = rows" "st_iDraw t = st_iDraw s" "st_ajaxDataGet t" "\<not> st_bDeferLoading t"
    using b(2,3,6) a(1-3) c(4) by (simp_all add: t)
  show "dataSource t = SSP" using b(5) a(3) c(4) by (simp add: t dataSource_def split: if_splits)
  show "if rows = [] then \<exists>m. st_tbody t = EmptyMessage m else st_tbody t = Rows [0..<length rows]"
    using b(7) a(3) c(4) d len by (auto simp: t)
qed

text \<open>C26: with server-side processing, whatever the order in which the answers to several requests
  arrive, the table ends as if only the answer to the last request had arrived: its rows are that
  answer's, all of them are shown, and older answers before or after it change nothing.\<close>

theorem last_request_wins:
  assumes "dataSource s = SSP" "\<not> st_bDeferLoading s" "en_preDraw env = []"
    and "\<forall>a \<in> set (xs @ ys). \<exists>k < st_iDraw s. answers_draw a k" "answers_draw r (st_iDraw s)"
    and "ajaxDataSrc s r = Inr (JArr rows)" "ajaxUpdateDraw env r s = Inr t"
  shows "js_foldM (ajaxUpdateDraw env) (xs @ r # ys) s = Inr t \<and> map ro_data (st_data t) = rows \<and> st_iDraw t = st_iDraw s \<and>
    (if rows = [] then \<exists>m. st_tbody t = EmptyMessage m else st_tbody t = Rows [0..<length rows])"
proof -
  obtain tot filt where sh: "show_answer env r tot filt s = Inr t" using current_answer [OF assms(5,7)] by blast
  note a = answer_shown [OF sh assms(1-3,6)]
  have fold: "js_foldM f (us @ vs) u = js_bind (js_foldM f us u) (js_foldM f vs)" for f us vs and u :: settings
    by (induction us arbitrary: u) (auto simp: js_bind_def split: sum.splits)
  have "js_foldM (ajaxUpdateDraw env) xs s = Inr s" "js_foldM (ajaxUpdateDraw env) ys t = Inr t"
    using old_answers_ignored assms(4) a(2) by auto
  with a assms(7) show ?thesis by (simp add: fold)
qed

text \<open>Two requests were sent; the answer to the first arrives last.\<close>

definition server_table :: settings where
  "server_table = (small_table 1 [])\<lparr>st_bServerSide := True, st_iDraw := 2\<rparr>"

definition answer :: "nat \<Rightarrow> jsval list \<Rightarrow> jsval" where
  "answer k rows = JObj [(''draw'', JNum (Fin (of_nat k))), (''recordsTotal'', JNum (Fin 7)),
     (''recordsFiltered'', JNum (Fin 7)), (''data'', JArr rows)]"

lemma answer_draw: "0 < k \<Longrightarrow> answers_draw (answer k rows) k"
  by (simp add: answers_draw_def answer_def json_compat_def)

lemma answer_rows: "ajaxDataSrc server_table (answer k rows) = Inr (JArr rows)"
  by (simp add: ajaxDataSrc_def server_table_def small_table_def answer_def)

lemma server_table_answers:
  "(case ajaxUpdateDraw base_env (answer 2 [JArr [JStr ''b'']]) server_table of Inl e \<Rightarrow> False | Inr t \<Rightarrow> True)"
  by code_simp

theorem last_request_wins_witness:
  "\<exists>t. js_foldM (ajaxUpdateDraw base_env) [answer 2 [JArr [JStr ''b'']], answer 1 [JArr [JStr ''a'']]] server_table = Inr t \<and>
    map ro_data (st_data t) = [JArr [JStr ''b'']] \<and> st_tbody t = Rows [0]"
proof -
  obtain t where t: "ajaxUpdateDraw base_env (answer 2 [JArr [JStr ''b'']]) server_table = Inr t"
    using server_table_answers by (auto split: sum.splits)
  have s: "dataSource server_table = SSP" "\<not> st_bDeferLoading server_table" "st_iDraw server_table = 2" "en_preDraw base_env = []"
    by (simp_all add: server_table_def small_table_def dataSource_def base_env_def)
  have "\<forall>a \<in> set ([] @ [answer 1 [JArr [JStr ''a'']]]). \<exists>k < st_iDraw server_table. answers_draw a k"
    using answer_draw [of 1 "[JArr [JStr ''a'']]"] by (auto simp: s intro!: exI [of _ "1::nat"])
  with last_request_wins [OF s(1,2,4) this, of "answer 2 [JArr [JStr ''b'']]"] answer_draw [of 2] answer_rows t
  show ?thesis by (auto simp: s)
qed

end
