(* ===== verification/DT_State.thy ===== *)
theory DT_State
  imports DT_Server
begin

text \<open>
  State saving (public/js/plugins/dataTables/jquery.dataTables.js): \<open>_fnSaveState\<close>, \<open>_fnLoadState\<close>,
  and what a visit of a page does with them: the constructor loads the stored state, the first draw
  (\<open>_fnInitialise\<close>) restores the start position, and the draw callback saves again.  The store is
  the default one, \<open>JSON\<close> text in \<open>localStorage\<close>; the copy kept as \<open>oLoadedState\<close> and the
  callbacks after loading are not modelled.
\<close>

section \<open>Saving\<close>

record saved_state =
  sv_iCreate :: int                        \<comment> \<open>milliseconds\<close>
  sv_iStart :: int
  sv_iLength :: int
  sv_aaSorting :: "sort_entry list"
  sv_oSearch :: search
  sv_aoSearchCols :: "search option list"
  sv_abVisCols :: "bool list"

text \<open>\<open>params\<close> are the callbacks \<open>aoStateSaveParams\<close>, which may edit the state; they run from the last.\<close>

definition saveState :: "bool \<Rightarrow> bool \<Rightarrow> (saved_state \<Rightarrow> saved_state) list \<Rightarrow> int \<Rightarrow> settings \<Rightarrow> saved_state option" where
  "saveState bStateSave bDestroying params now s =
    (if \<not> bStateSave \<or> bDestroying then None
     else Some (fold (\<lambda>f. f) (rev params)
       \<lparr>sv_iCreate = now, sv_iStart = st_start s, sv_iLength = st_length s, sv_aaSorting = st_sorting s,
        sv_oSearch = st_search s, sv_aoSearchCols = st_colSearch s, sv_abVisCols = map co_bVisible (st_columns s)\<rparr>))"

text \<open>
  The state read back from its \<open>JSON\<close> text: \<open>_idx\<close>, a named property of an array, is lost.  A flag that is
  undefined is absent, an absent column search comes back as null, and so do the undefined elements of
  a sort entry, which the code does not tell from undefined.
\<close>

definition json_state :: "saved_state \<Rightarrow> saved_state" where
  "json_state sv = sv\<lparr>sv_aaSorting := map (\<lambda>e. e\<lparr>so_idx := None\<rparr>) (sv_aaSorting sv)\<rparr>"

section \<open>Loading\<close>

text \<open>\<open>$.extend\<close> of a search: undefined members of the source do not count.\<close>

definition extend_flag :: "bool option \<Rightarrow> bool option \<Rightarrow> bool option" where
  "extend_flag old new = (case new of None \<Rightarrow> old | Some b \<Rightarrow> Some b)"

definition extend_search :: "search \<Rightarrow> search \<Rightarrow> search" where
  "extend_search old new = \<lparr>se_sSearch = se_sSearch new, se_bRegex = extend_flag (se_bRegex old) (se_bRegex new),
     se_bSmart = extend_flag (se_bSmart old) (se_bSmart new),
     se_bCaseInsensitive = extend_flag (se_bCaseInsensitive old) (se_bCaseInsensitive new)\<rparr>"

text \<open>The deep extension of the list of column searches: entry by entry, null replacing.\<close>

fun extend_searches :: "search option list \<Rightarrow> search option list \<Rightarrow> search option list" where
  "extend_searches olds [] = olds"
| "extend_searches [] news = news"
| "extend_searches (old # olds) (new # news) =
    (case new of None \<Rightarrow> None
     | Some x \<Rightarrow> Some (case old of None \<Rightarrow> x | Some y \<Rightarrow> extend_search y x)) # extend_searches olds news"

text \<open>An entry for a column that is not there becomes one for the first column.\<close>

definition restore_sort :: "nat \<Rightarrow> sort_entry \<Rightarrow> sort_entry" where
  "restore_sort n e = (if so_col e \<ge> n then \<lparr>so_col = 0, so_dir = so_dir e, so_index = None, so_idx = None\<rparr> else e)"

text \<open>A visibility for a column that is not there raises.\<close>

fun restore_visible :: "bool list \<Rightarrow> dt_column list \<Rightarrow> dt_column list js_res" where
  "restore_visible [] cs = Inr cs"
| "restore_visible (v # vs) [] = Inl TypeError"
| "restore_visible (v # vs) (c # cs) =
    js_bind (restore_visible vs cs) (\<lambda>ds. Inr (c\<lparr>co_bVisible := v\<rparr> # ds))"

text \<open>The callbacks \<open>aoStateLoadParams\<close> may edit the state, and refuse it by answering false.\<close>

fun run_filters :: "(saved_state \<Rightarrow> saved_state \<times> bool option) list \<Rightarrow> saved_state \<Rightarrow> saved_state \<times> bool option list" where
  "run_filters [] d = (d, [])"
| "run_filters (f # fs) d = (case f d of (d1, r) \<Rightarrow> case run_filters fs d1 of (d2, rs) \<Rightarrow> (d2, r # rs))"

definition restore :: "saved_state \<Rightarrow> settings \<Rightarrow> settings js_res" where
  "restore d s =
    js_bind (restore_visible (sv_abVisCols d) (st_columns s)) (\<lambda>cs.
      Inr (s\<lparr>st_start := sv_iStart d, st_initStart := Some (sv_iStart d), st_length := sv_iLength d,
        st_sorting := map (restore_sort (length (st_columns s))) (sv_aaSorting d),
        st_search := extend_search (st_search s) (sv_oSearch d),
        st_colSearch := extend_searches (st_colSearch s) (sv_aoSearchCols d), st_columns := cs\<rparr>))"

definition loadState :: "bool \<Rightarrow> saved_state option \<Rightarrow> (saved_state \<Rightarrow> saved_state \<times> bool option) list \<Rightarrow> int \<Rightarrow> int \<Rightarrow>
    settings \<Rightarrow> settings js_res" where
  "loadState bStateSave stored filters now iStateDuration s =
    (if \<not> bStateSave then Inr s
     else case stored of
       None \<Rightarrow> Inr s
     | Some oData \<Rightarrow>
         (case run_filters (rev filters) oData of (d, abStateLoad) \<Rightarrow>
            if Some False \<in> set abStateLoad then Inr s
            else if sv_iCreate d < now - iStateDuration * 1000 then Inr s
            else if length (st_columns s) \<noteq> length (sv_aoSearchCols d) then Inr s
            else restore d s))"

section \<open>A visit of the page\<close>

text \<open>A draw with the callback \<open>_fnSaveState\<close>, which runs when the draw was neither cancelled nor left to
  the server; the result has what the store then holds.\<close>

definition draw_saving :: "dt_env \<Rightarrow> int \<Rightarrow> saved_state option \<Rightarrow> settings \<Rightarrow> (saved_state option \<times> settings) js_res" where
  "draw_saving env now stored s =
    js_bind (draw env s) (\<lambda>(req, t).
      Inr (if draw_cancelled env s \<or> req \<noteq> None then stored else map_option json_state (saveState True False [] now t), t))"

text \<open>The constructor and \<open>_fnInitialise\<close> of a table with state saving: load, redraw, save.\<close>

definition open_table :: "dt_env \<Rightarrow> int \<Rightarrow> int \<Rightarrow> saved_state option \<Rightarrow> settings \<Rightarrow> (saved_state option \<times> settings) js_res" where
  "open_table env now iStateDuration stored s =
    js_bind (loadState True stored [] now iStateDuration s) (\<lambda>s1.
    js_bind (redraw_lists env False s1) (draw_saving env now stored))"

text \<open>The answer to the first request of an Ajax table: its rows are added to those already there, and the
  start position the page began with counts again.\<close>

definition initialise_answer :: "dt_env \<Rightarrow> int option \<Rightarrow> jsval \<Rightarrow> settings \<Rightarrow> (request_params option \<times> settings) js_res" where
  "initialise_answer env iAjaxStart json s =
    js_bind (ajaxDataSrc s json) (\<lambda>aData. js_bind (js_elements aData) (\<lambda>rows.
    js_bind (add_rows rows s) (\<lambda>s1.
      reDraw env False (s1\<lparr>st_initStart := iAjaxStart\<rparr>))))"

section \<open>What a visit restores\<close>

definition full_search :: "search \<Rightarrow> bool" where
  "full_search x \<longleftrightarrow> se_bRegex x \<noteq> None \<and> se_bSmart x \<noteq> None \<and> se_bCaseInsensitive x \<noteq> None"

text \<open>The states the table makes itself: every flag of a search has a value, and the sort columns exist.\<close>

definition savable :: "settings \<Rightarrow> bool" where
  "savable s \<longleftrightarrow> full_search (st_search s) \<and> list_all (\<lambda>x. case x of None \<Rightarrow> True | Some y \<Rightarrow> full_search y) (st_colSearch s) \<and>
     list_all (\<lambda>e. so_col e < length (st_columns s)) (st_sorting s) \<and> length (st_colSearch s) = length (st_columns s)"

text \<open>A table with the same number of columns.\<close>

definition same_shape :: "settings \<Rightarrow> settings \<Rightarrow> bool" where
  "same_shape s t \<longleftrightarrow> length (st_columns t) = length (st_columns s) \<and> length (st_colSearch t) = length (st_colSearch s)"

lemma extend_full: "full_search x \<Longrightarrow> extend_search y x = x"
  by (cases x) (auto simp: full_search_def extend_search_def extend_flag_def)

lemma extend_searches_full:
  "length olds = length news \<Longrightarrow> list_all (\<lambda>x. case x of None \<Rightarrow> True | Some y \<Rightarrow> full_search y) news \<Longrightarrow>
    extend_searches olds news = news"
  by (induction olds news rule: extend_searches.induct) (auto simp: extend_full split: option.splits)

lemma restore_visible_all:
  "length vs = length cs \<Longrightarrow> \<exists>ds. restore_visible vs cs = Inr ds \<and> map co_bVisible ds = vs \<and>
    list_all2 (\<lambda>c d. d = c\<lparr>co_bVisible := co_bVisible d\<rparr>) cs ds"
  by (induction vs cs rule: restore_visible.induct) auto

lemma restore_sort_all: "list_all (\<lambda>e. so_col e < n) es \<Longrightarrow> map (restore_sort n) es = es"
  by (induction es) (auto simp: restore_sort_def)

lemma loadState_saved:
  assumes "savable s" "same_shape s s0" "now' - dur * 1000 \<le> now"
  shows "\<exists>cs. loadState True (map_option json_state (saveState True False [] now s)) [] now' dur s0 =
      Inr (s0\<lparr>st_start := st_start s, st_initStart := Some (st_start s), st_length := st_length s,
        st_sorting := map (\<lambda>e. e\<lparr>so_idx := None\<rparr>) (st_sorting s), st_search := st_search s,
        st_colSearch := st_colSearch s, st_columns := cs\<rparr>) \<and>
    map co_bVisible cs = map co_bVisible (st_columns s) \<and>
    list_all2 (\<lambda>c d. d = c\<lparr>co_bVisible := co_bVisible d\<rparr>) (st_columns s0) cs"
proof -
  let ?es = "map (\<lambda>e. e\<lparr>so_idx := None\<rparr>) (st_sorting s)"
  from restore_visible_all [of "map co_bVisible (st_columns s)" "st_columns s0"] assms(2)
  obtain cs where cs: "restore_visible (map co_bVisible (st_columns s)) (st_columns s0) = Inr cs"
    "map co_bVisible cs = map co_bVisible (st_columns s)" "list_all2 (\<lambda>c d. d = c\<lparr>co_bVisible := co_bVisible d\<rparr>) (st_columns s0) cs"
    by (auto simp: same_shape_def)
  have "list_all (\<lambda>e. so_col e < length (st_columns s0)) ?es"
    using assms(1,2) by (simp add: savable_def same_shape_def list_all_iff)
  note sort = restore_sort_all [OF this]
  have cols: "extend_searches (st_colSearch s0) (st_colSearch s) = st_colSearch s"
    by (rule extend_searches_full) (use assms(1,2) in \<open>auto simp: savable_def same_shape_def\<close>)
  have "length (st_columns s0) = length (st_colSearch s)" using assms(1,2) by (simp add: savable_def same_shape_def)
  then show ?thesis
    using assms(1,3) cs cols sort
    by (intro exI [of _ cs]) (simp add: loadState_def saveState_def json_state_def restore_def extend_full savable_def)
qed

text \<open>A state is refused, and the table left as it is, when it is too old, when the number of columns has
  changed, or when a callback answers false.\<close>

lemma loadState_refused:
  assumes "run_filters (rev filters) oData = (d, rs)"
    and "Some False \<in> set rs \<or> sv_iCreate d < now - dur * 1000 \<or> length (st_columns s) \<noteq> length (sv_aoSearchCols d)"
  shows "loadState True (Some oData) filters now dur s = Inr s"
  using assms by (auto simp: loadState_def)

lemma redraw_lists_frame:
  assumes "redraw_lists env hold s = Inr t" "js_sorter (en_sort env)" "rows_ok s"
  shows "st_sorting t = st_sorting s" "st_search t = st_search s" "st_colSearch t = st_colSearch s"
    "st_length t = st_length s" "st_initStart t = st_initStart s" "dataSource t = dataSource s" "rows_ok t"
    "map co_bVisible (st_columns t) = map co_bVisible (st_columns s)"
proof -
  from assms(1) obtain s1 s2 where s1: "(if st_bSort s then dt_sort env s else Inr s) = Inr s1"
    and s2: "(if st_bFilter s then filterComplete env (st_search s1) False s1 else Inr (s1\<lparr>st_display := st_master s1\<rparr>)) = Inr s2"
    and t: "t = (if hold then s2 else s2\<lparr>st_start := 0\<rparr>)"
    by (auto simp: redraw_lists_def js_bind_Inr_iff)
  have "map co_bVisible cs = map co_bVisible (map untyped cs)" for cs by (simp add: untyped_def)
  then have vis: "map co_bVisible cs = map co_bVisible ds" if "map untyped cs = map untyped ds" for cs ds
    using that by metis
  have 1: "st_sorting s1 = st_sorting s \<and> st_search s1 = st_search s \<and> st_colSearch s1 = st_colSearch s \<and>
      st_length s1 = st_length s \<and> st_initStart s1 = st_initStart s \<and> dataSource s1 = dataSource s \<and> rows_ok s1 \<and>
      map co_bVisible (st_columns s1) = map co_bVisible (st_columns s)"
  proof (cases "st_bSort s")
    case True
    with s1 have f: "dt_sort env s = Inr s1" by simp
    note r = dt_sort_ok [OF f assms(2,3)]
    from vis [OF r(12)] r show ?thesis by simp
  next
    case False
    with s1 have "s1 = s" by simp
    with assms(3) show ?thesis by simp
  qed
  have 2: "st_sorting s2 = st_sorting s1 \<and> st_search s2 = st_search s1 \<and> st_colSearch s2 = st_colSearch s1 \<and>
      st_length s2 = st_length s1 \<and> st_initStart s2 = st_initStart s1 \<and> dataSource s2 = dataSource s1 \<and> rows_ok s2 \<and>
      map co_bVisible (st_columns s2) = map co_bVisible (st_columns s1)"
  proof (cases "st_bFilter s")
    case True
    with s2 have f: "filterComplete env (st_search s1) False s1 = Inr s2" by simp
    from filterComplete_shape [OF f] obtain cols rows d where s2: "s2 = s1\<lparr>st_columns := cols, st_data := rows, st_display := d,
      st_search := st_search s1, st_bFiltered := True\<rparr>" "map untyped cols = map untyped (st_columns s1)" by blast
    have "rows_ok s2" using filterComplete_ok(1) [OF f] 1 by simp
    with vis [OF s2(2)] show ?thesis by (simp add: s2(1) dataSource_def)
  next
    case False
    with s2 have "s2 = s1\<lparr>st_display := st_master s1\<rparr>" by simp
    moreover have "rows_ok (s1\<lparr>st_display := st_master s1\<rparr>)" using 1 by (simp add: rows_ok_def)
    ultimately show ?thesis by simp
  qed
  from 1 2 t show "st_sorting t = st_sorting s" "st_search t = st_search s" "st_colSearch t = st_colSearch s"
    "st_length t = st_length s" "st_initStart t = st_initStart s" "dataSource t = dataSource s" "rows_ok t"
    "map co_bVisible (st_columns t) = map co_bVisible (st_columns s)" by auto
qed

text \<open>C27: closing a page and opening it again within the duration of a saved state brings back, for a
  client-side table with the same number of columns, the page length, the ordering, the global and
  column searches, the visibility of the columns and, if a row is still there, the start position;
  the state stored by that visit is the state of before with a new time, so this holds for any number
  of visits.\<close>

theorem state_survives_visit:
  assumes "open_table env now' dur (map_option json_state (saveState True False [] now s)) s0 = Inr (stored, t)"
    and "savable s" "same_shape s s0" "now' - dur * 1000 \<le> now"
    and "dataSource s0 \<noteq> SSP" "rows_ok s0" "js_sorter (en_sort env)" "en_preDraw env = []" "0 \<le> st_start s"
  shows "st_length t = st_length s \<and> map (\<lambda>e. e\<lparr>so_idx := None\<rparr>) (st_sorting t) = map (\<lambda>e. e\<lparr>so_idx := None\<rparr>) (st_sorting s) \<and>
    st_search t = st_search s \<and> st_colSearch t = st_colSearch s \<and>
    map co_bVisible (st_columns t) = map co_bVisible (st_columns s) \<and>
    st_start t = (if st_start s \<ge> int (length (st_display t)) then 0 else st_start s) \<and>
    (st_start s < int (length (st_display t)) \<longrightarrow>
       stored = map_option json_state (saveState True False [] now' s) \<and> st_tbody t = Rows (page_slice t))"
proof -
  from loadState_saved [OF assms(2-4)] obtain cs where
    load: "loadState True (map_option json_state (saveState True False [] now s)) [] now' dur s0 =
      Inr (s0\<lparr>st_start := st_start s, st_initStart := Some (st_start s), st_length := st_length s,
        st_sorting := map (\<lambda>e. e\<lparr>so_idx := None\<rparr>) (st_sorting s), st_search := st_search s,
        st_colSearch := st_colSearch s, st_columns := cs\<rparr>)" (is "_ = Inr ?s1")
    and cs: "map co_bVisible cs = map co_bVisible (st_columns s)" by blast
  have ok1: "rows_ok ?s1" "dataSource ?s1 \<noteq> SSP" using assms(5,6) by (simp_all add: rows_ok_def dataSource_def split: if_splits)
  from assms(1) load obtain s2 q where s2: "redraw_lists env False ?s1 = Inr s2" and d: "draw env s2 = Inr (q, t)"
    and st: "stored = (if draw_cancelled env s2 \<or> q \<noteq> None then map_option json_state (saveState True False [] now s)
      else map_option json_state (saveState True False [] now' t))"
    by (auto simp: open_table_def draw_saving_def js_bind_Inr_iff)
  note a = redraw_lists_frame [OF s2 assms(7) ok1(1)]
  have nc: "\<not> draw_cancelled env s2" by (simp add: draw_cancelled_def assms(8))
  have ds: "dataSource s2 \<noteq> SSP" using a(6) ok1(2) by simp
  note b = draw_client_Inr [OF d nc ds]
  have rd: "recordsDisplay s2 = int (length (st_display t))" using ds b(3) by (simp add: recordsDisplay_def)
  have start: "st_start t = (if st_start s \<ge> int (length (st_display t)) then 0 else st_start s)"
    using b(6) a(5) ds assms(9) by (simp add: init_start_def rd)
  have vis: "map co_bVisible (st_columns t) = map co_bVisible (st_columns s)" using b(5) a(8) cs by simp
  have sort: "st_sorting t = map (\<lambda>e. e\<lparr>so_idx := None\<rparr>) (st_sorting s)" using b(16) a(1) by simp
  have rest: "st_length t = st_length s" "st_search t = st_search s" "st_colSearch t = st_colSearch s"
    using b(7,8,13) a(2-4) by simp_all
  have "stored = map_option json_state (saveState True False [] now' s)" if "st_start s < int (length (st_display t))"
    using st nc b(1) start that by (simp add: saveState_def json_state_def sort rest vis)
  moreover have "st_tbody t = Rows (page_slice t)" if "st_start s < int (length (st_display t))"
  proof -
    have "st_display t \<noteq> []" using assms(9) that by auto
    then show ?thesis using b(3,9,15) by simp
  qed
  ultimately show ?thesis using start rest vis sort by auto
qed

text \<open>The second page of three rows, two a page.\<close>

definition second_page :: settings where
  "second_page = ten_nine\<lparr>st_start := 2, st_length := 2\<rparr>"

lemma second_page_visit:
  "(case open_table base_env 9000 7200 (map_option json_state (saveState True False [] 5000 second_page)) ten_nine of
      Inl e \<Rightarrow> False | Inr (stored, t) \<Rightarrow> length (st_display t) = 3 \<and> page_slice t = [2])"
  by code_simp

theorem state_survives_visit_witness:
  "\<exists>stored t. open_table base_env 9000 7200 (map_option json_state (saveState True False [] 5000 second_page)) ten_nine =
      Inr (stored, t) \<and> st_start t = 2 \<and> st_length t = 2 \<and> st_tbody t = Rows [2] \<and>
    stored = map_option json_state (saveState True False [] 9000 second_page)"
proof -
  obtain stored t where t: "open_table base_env 9000 7200 (map_option json_state (saveState True False [] 5000 second_page)) ten_nine =
      Inr (stored, t)" "length (st_display t) = 3" "page_slice t = [2]"
    using second_page_visit by (auto split: sum.splits)
  have "savable second_page" "same_shape second_page ten_nine"
    by (simp_all add: savable_def same_shape_def second_page_def ten_nine_def small_table_def full_search_def no_search_def)
  moreover have "dataSource ten_nine \<noteq> SSP" "rows_ok ten_nine" "en_preDraw base_env = []"
    by (auto simp: ten_nine_def small_table_def dataSource_def rows_ok_def base_env_def)
  moreover have "st_start second_page = 2" "st_length second_page = 2" by (simp_all add: second_page_def)
  ultimately show ?thesis using state_survives_visit [OF t(1)] base_env_sorter t by simp
qed

end
