(* ===== verification/DT_Header.thy ===== *)
theory DT_Header
  imports DT_Table
begin

text \<open>
  Header and footer layout (public/js/plugins/dataTables/jquery.dataTables.js): \<open>_fnDetectHeader\<close> reads
  the rows of a header into a grid, cells spanning rows and columns; \<open>_fnDrawHead\<close> writes the visible
  part of the grid back, and \<open>_fnGetUniqueThs\<close> finds the cell of each column.  A cell element is a
  number; a header row has its TD and TH children.
\<close>

section \<open>Reading a header\<close>

text \<open>A cell with its attributes, 0 when absent or not a number.\<close>

record head_cell =
  hc_id :: nat
  hc_colspan :: nat
  hc_rowspan :: nat

record layout_cell =
  lc_cell :: nat
  lc_unique :: bool

text \<open>A row of the layout: an array that may have holes, and its element.\<close>

record layout_row =
  lr_cells :: "layout_cell option list"
  lr_tr :: "nat option"

definition cell_at :: "'a option list \<Rightarrow> nat \<Rightarrow> 'a option" where
  "cell_at k j = (if j < length k then k ! j else None)"

definition put_at :: "'a option list \<Rightarrow> nat \<Rightarrow> 'a \<Rightarrow> 'a option list" where
  "put_at k j c = (if j < length k then k[j := Some c] else k @ replicate (j - length k) None @ [Some c])"

text \<open>\<open>fnShiftCol\<close>: the first free column from \<open>j\<close>\<close>

definition shift_col :: "'a option list \<Rightarrow> nat \<Rightarrow> nat" where
  "shift_col k j = j + length (takeWhile (\<lambda>c. c \<noteq> None) (drop j k))"

definition span :: "nat \<Rightarrow> nat" where
  "span n = (if n = 0 \<or> n = 1 then 1 else n)"

definition put_span :: "nat \<Rightarrow> nat \<Rightarrow> 'a \<Rightarrow> 'a option list \<Rightarrow> 'a option list" where
  "put_span j w c k = fold (\<lambda>l k. put_at k (j + l) c) [0..<w] k"

text \<open>One cell of row \<open>i\<close>; a row span beyond the last row raises.\<close>

definition place_cell :: "nat \<Rightarrow> head_cell \<Rightarrow> layout_row list \<Rightarrow> layout_row list js_res" where
  "place_cell i nCell ls =
    (let iColspan = span (hc_colspan nCell); iRowspan = span (hc_rowspan nCell);
         iColShifted = shift_col (lr_cells (ls ! i)) 0;
         c = \<lparr>lc_cell = hc_id nCell, lc_unique = (iColspan = 1)\<rparr>
     in if length ls < i + iRowspan then Inl TypeError
        else Inr (map (\<lambda>(p, r). if i \<le> p \<and> p < i + iRowspan
            then \<lparr>lr_cells = put_span iColShifted iColspan c (lr_cells r), lr_tr = Some i\<rparr> else r) (enumerate 0 ls)))"

definition detectHeader :: "head_cell list list \<Rightarrow> layout_row list js_res" where
  "detectHeader nTrs = js_foldM (\<lambda>(i, cells). js_foldM (place_cell i) cells) (enumerate 0 nTrs)
     (replicate (length nTrs) \<lparr>lr_cells = [], lr_tr = None\<rparr>)"

text \<open>\<open>_fnGetUniqueThs\<close> on a layout; a hole raises.\<close>

definition unique_th :: "bool \<Rightarrow> nat \<times> layout_cell option \<Rightarrow> nat option list \<Rightarrow> nat option list js_res" where
  "unique_th bSortCellsTop e aReturn = (case e of
      (j, None) \<Rightarrow> Inl TypeError
    | (j, Some c) \<Rightarrow>
        Inr (if lc_unique c \<and> (cell_at aReturn j = None \<or> \<not> bSortCellsTop) then put_at aReturn j (lc_cell c) else aReturn))"

definition getUniqueThs :: "bool \<Rightarrow> layout_row list \<Rightarrow> nat option list js_res" where
  "getUniqueThs bSortCellsTop aLayout =
    js_foldM (\<lambda>r. js_foldM (unique_th bSortCellsTop) (enumerate 0 (lr_cells r))) aLayout []"

section \<open>Writing a header\<close>

text \<open>The row without the columns that are hidden.\<close>

definition visible_cells :: "bool list \<Rightarrow> 'a list \<Rightarrow> 'a list" where
  "visible_cells vis k = map snd (filter (\<lambda>(j, c). length vis \<le> j \<or> vis ! j) (enumerate 0 k))"

text \<open>How far a cell goes on below in column \<open>j\<close>, and to the right.\<close>

fun row_span :: "nat \<Rightarrow> nat \<Rightarrow> layout_row list \<Rightarrow> nat js_res" where
  "row_span c j [] = Inr 0"
| "row_span c j (r # rs) = (case cell_at (lr_cells r) j of
      None \<Rightarrow> Inl TypeError
    | Some d \<Rightarrow> if lc_cell d = c then js_bind (row_span c j rs) (\<lambda>k. Inr (Suc k)) else Inr 0)"

fun col_span :: "nat \<Rightarrow> layout_cell option list \<Rightarrow> nat" where
  "col_span c [] = 0"
| "col_span c (d # ds) = (case d of None \<Rightarrow> 0 | Some x \<Rightarrow> if lc_cell x = c then Suc (col_span c ds) else 0)"

text \<open>The grid positions covered so far, and the children of each row element.\<close>

record head_state =
  hs_applied :: "(nat \<times> nat) set"
  hs_trs :: "nat \<Rightarrow> head_cell list"

text \<open>\<open>appendChild\<close> moves a cell that is somewhere else.\<close>

definition append_child :: "nat \<Rightarrow> head_cell \<Rightarrow> (nat \<Rightarrow> head_cell list) \<Rightarrow> nat \<Rightarrow> head_cell list" where
  "append_child tr c trs =
    (let away = (\<lambda>t. filter (\<lambda>x. hc_id x \<noteq> hc_id c) (trs t)) in away(tr := away tr @ [c]))"

definition draw_cell :: "layout_row list \<Rightarrow> nat \<Rightarrow> nat \<Rightarrow> head_state \<Rightarrow> head_state js_res" where
  "draw_cell aoLocal i j st =
    (if (i, j) \<in> hs_applied st then Inr st
     else case (lr_tr (aoLocal ! i), cell_at (lr_cells (aoLocal ! i)) j) of
         (Some nLocalTr, Some d) \<Rightarrow>
           js_bind (row_span (lc_cell d) j (drop (Suc i) aoLocal)) (\<lambda>down.
             let iRowspan = Suc down; iColspan = Suc (col_span (lc_cell d) (drop (Suc j) (lr_cells (aoLocal ! i))))
             in Inr (st\<lparr>hs_applied := hs_applied st \<union> {i..<i + iRowspan} \<times> {j..<j + iColspan},
                  hs_trs := append_child nLocalTr \<lparr>hc_id = lc_cell d, hc_colspan = iColspan, hc_rowspan = iRowspan\<rparr> (hs_trs st)\<rparr>))
       | _ \<Rightarrow> Inl TypeError)"

definition draw_head_row :: "layout_row list \<Rightarrow> nat \<Rightarrow> head_state \<Rightarrow> head_state js_res" where
  "draw_head_row aoLocal i st =
    js_foldM (draw_cell aoLocal i) [0..<length (lr_cells (aoLocal ! i))]
      (case lr_tr (aoLocal ! i) of None \<Rightarrow> st | Some nLocalTr \<Rightarrow> st\<lparr>hs_trs := (hs_trs st)(nLocalTr := [])\<rparr>)"

definition drawHead :: "bool list \<Rightarrow> bool \<Rightarrow> layout_row list \<Rightarrow> (nat \<Rightarrow> head_cell list) \<Rightarrow> (nat \<Rightarrow> head_cell list) js_res" where
  "drawHead bVisible bIncludeHidden aoSource trs =
    (let aoLocal = map (\<lambda>r. if bIncludeHidden then r else r\<lparr>lr_cells := visible_cells bVisible (lr_cells r)\<rparr>) aoSource
     in js_bind (js_foldM (draw_head_row aoLocal) [0..<length aoLocal] \<lparr>hs_applied = {}, hs_trs = trs\<rparr>) (\<lambda>st. Inr (hs_trs st)))"

section \<open>Arrays with holes\<close>

lemma cell_at_put: "cell_at (put_at k j c) q = (if q = j then Some c else cell_at k q)"
  by (auto simp: cell_at_def put_at_def nth_append)

lemma length_put: "length (put_at k j c) = max (length k) (Suc j)"
  by (auto simp: put_at_def)

lemma put_span_facts:
  "cell_at (put_span j w c k) q = (if j \<le> q \<and> q < j + w then Some c else cell_at k q)"
  "length (put_span j w c k) \<le> max (length k) (j + w)"
proof (induction w)
  case (Suc w)
  { case 1 show ?case using Suc(1) by (auto simp: put_span_def cell_at_put)
  next case 2 show ?case using Suc(2) by (auto simp: put_span_def length_put) }
qed (auto simp: put_span_def)

lemma shift_col_first:
  assumes "\<forall>q < j. cell_at k q \<noteq> None" "cell_at k j = None"
  shows "shift_col k 0 = j"
proof -
  have len: "j \<le> length k"
  proof (rule ccontr)
    assume "\<not> j \<le> length k"
    then show False using assms(1) [rule_format, of "length k"] by (simp add: cell_at_def)
  qed
  then have "takeWhile (\<lambda>c. c \<noteq> None) k = take j k"
    using assms by (intro takeWhile_eq_take_P_nth) (auto simp: cell_at_def split: if_splits)
  with len show ?thesis by (simp add: shift_col_def)
qed

lemma cell_at_full: "length k \<le> n \<Longrightarrow> (\<And>q. q < n \<Longrightarrow> cell_at k q = Some (f q)) \<Longrightarrow> k = map (\<lambda>q. Some (f q)) [0..<n]"
proof (rule nth_equalityI)
  assume *: "length k \<le> n" "\<And>q. q < n \<Longrightarrow> cell_at k q = Some (f q)"
  show "length k = length (map (\<lambda>q. Some (f q)) [0..<n])"
  proof (rule ccontr)
    assume "length k \<noteq> length (map (\<lambda>q. Some (f q)) [0..<n])"
    with *(1) have "length k < n" by simp
    with *(2) [OF this] show False by (simp add: cell_at_def)
  qed
  then show "k ! i = map (\<lambda>q. Some (f q)) [0..<n] ! i" if "i < length k" for i
    using *(2) [of i] that by (simp add: cell_at_def)
qed

lemma js_foldM_append: "js_foldM f (us @ vs) u = js_bind (js_foldM f us u) (js_foldM f vs)"
  by (induction us arbitrary: u) (auto simp: js_bind_def split: sum.splits)

section \<open>Grids of rectangles\<close>

text \<open>
  \<open>g p q\<close> is the cell at row \<open>p < m\<close> and column \<open>q < n\<close>; the cell's rectangle starts at row \<open>bx_top\<close> and column
  \<open>bx_left\<close> and has \<open>bx_high\<close> rows and \<open>bx_wide\<close> columns.
\<close>

record box =
  bx_top :: nat
  bx_left :: nat
  bx_high :: nat
  bx_wide :: nat

definition in_box :: "box \<Rightarrow> nat \<Rightarrow> nat \<Rightarrow> bool" where
  "in_box b p q \<longleftrightarrow> bx_top b \<le> p \<and> p < bx_top b + bx_high b \<and> bx_left b \<le> q \<and> q < bx_left b + bx_wide b"

definition boxed :: "nat \<Rightarrow> nat \<Rightarrow> (nat \<Rightarrow> nat \<Rightarrow> nat) \<Rightarrow> (nat \<Rightarrow> box) \<Rightarrow> bool" where
  "boxed m n g bx \<longleftrightarrow> (\<forall>p < m. \<forall>q < n. let b = bx (g p q) in
     0 < bx_high b \<and> 0 < bx_wide b \<and> bx_top b + bx_high b \<le> m \<and> bx_left b + bx_wide b \<le> n \<and>
     (\<forall>p' < m. \<forall>q' < n. g p' q' = g p q \<longleftrightarrow> in_box b p' q'))"

lemma boxedD:
  assumes "boxed m n g bx" "p < m" "q < n"
  shows "0 < bx_high (bx (g p q))" "0 < bx_wide (bx (g p q))" "bx_top (bx (g p q)) + bx_high (bx (g p q)) \<le> m"
    "bx_left (bx (g p q)) + bx_wide (bx (g p q)) \<le> n" "in_box (bx (g p q)) p q"
    "p' < m \<Longrightarrow> q' < n \<Longrightarrow> g p' q' = g p q \<longleftrightarrow> in_box (bx (g p q)) p' q'"
  using assms unfolding boxed_def Let_def by blast+

text \<open>The positions of the cells that start before position \<open>(i, j)\<close> in reading order.\<close>

definition starts_before :: "box \<Rightarrow> nat \<Rightarrow> nat \<Rightarrow> bool" where
  "starts_before b i j \<longleftrightarrow> bx_top b < i \<or> bx_top b = i \<and> bx_left b < j"

definition covered :: "nat \<Rightarrow> nat \<Rightarrow> (nat \<Rightarrow> nat \<Rightarrow> nat) \<Rightarrow> (nat \<Rightarrow> box) \<Rightarrow> nat \<Rightarrow> nat \<Rightarrow> (nat \<times> nat) set" where
  "covered m n g bx i j = {(p, q). p < m \<and> q < n \<and> starts_before (bx (g p q)) i j}"

definition starts_at :: "box \<Rightarrow> nat \<Rightarrow> nat \<Rightarrow> bool" where
  "starts_at b i j \<longleftrightarrow> bx_top b = i \<and> bx_left b = j"

lemma covered_here:
  assumes "boxed m n g bx" "i < m" "j < n"
  shows "(i, j) \<in> covered m n g bx i j \<longleftrightarrow> \<not> starts_at (bx (g i j)) i j"
  using boxedD(5) [OF assms] assms(2,3) by (auto simp: covered_def starts_before_def starts_at_def in_box_def)

lemma covered_skip:
  assumes "boxed m n g bx" "i < m" "j < n" "\<not> starts_at (bx (g i j)) i j"
  shows "covered m n g bx i (Suc j) = covered m n g bx i j"
proof -
  have "\<not> starts_at (bx (g p q)) i j" if "p < m" "q < n" for p q
  proof
    assume s: "starts_at (bx (g p q)) i j"
    then have "in_box (bx (g p q)) i j"
      using boxedD(1,2) [OF assms(1) that] by (simp add: starts_at_def in_box_def)
    then have "g i j = g p q" using boxedD(6) [OF assms(1) that] assms(2,3) by blast
    with s assms(4) show False by simp
  qed
  then show ?thesis by (fastforce simp: covered_def starts_before_def starts_at_def less_Suc_eq)
qed

lemma covered_place:
  assumes "boxed m n g bx" "i < m" "j < n" "starts_at (bx (g i j)) i j"
  shows "covered m n g bx i (Suc j) =
    covered m n g bx i j \<union> {i..<i + bx_high (bx (g i j))} \<times> {j..<j + bx_wide (bx (g i j))}"
proof -
  have box: "(p, q) \<in> {i..<i + bx_high (bx (g i j))} \<times> {j..<j + bx_wide (bx (g i j))} \<longleftrightarrow> p < m \<and> q < n \<and> g p q = g i j" for p q
    using boxedD(3,4) [OF assms(1-3)] boxedD(6) [OF assms(1-3), of p q] assms(4)
    by (auto simp: starts_at_def in_box_def)
  have "starts_at (bx (g p q)) i j \<longleftrightarrow> g p q = g i j" if "p < m" "q < n" for p q
  proof
    assume s: "starts_at (bx (g p q)) i j"
    then have "in_box (bx (g p q)) i j"
      using boxedD(1,2) [OF assms(1) that] by (simp add: starts_at_def in_box_def)
    then show "g p q = g i j" using boxedD(6) [OF assms(1) that] assms(2,3) by metis
  qed (use assms(4) in simp)
  then have "(p, q) \<in> covered m n g bx i (Suc j) \<longleftrightarrow> (p, q) \<in> covered m n g bx i j \<or> p < m \<and> q < n \<and> g p q = g i j" for p q
    by (auto simp: covered_def starts_before_def starts_at_def less_Suc_eq)
  with box show ?thesis by (simp add: set_eq_iff split_paired_All del: mem_Sigma_iff)
qed

lemma covered_row_end: "boxed m n g bx \<Longrightarrow> covered m n g bx i n = covered m n g bx (Suc i) 0"
proof -
  assume b: "boxed m n g bx"
  have "bx_left (bx (g p q)) < n" if "p < m" "q < n" for p q
    using boxedD(2,4) [OF b that] by simp
  then show ?thesis by (auto simp: covered_def starts_before_def less_Suc_eq)
qed

text \<open>The cells that start in row \<open>i\<close>, before column \<open>j\<close>.\<close>

definition piece :: "(nat \<Rightarrow> nat \<Rightarrow> nat) \<Rightarrow> (nat \<Rightarrow> box) \<Rightarrow> nat \<Rightarrow> nat \<Rightarrow> head_cell" where
  "piece g bx i q = \<lparr>hc_id = g i q, hc_colspan = bx_wide (bx (g i q)), hc_rowspan = bx_high (bx (g i q))\<rparr>"

definition pieces :: "(nat \<Rightarrow> nat \<Rightarrow> nat) \<Rightarrow> (nat \<Rightarrow> box) \<Rightarrow> nat \<Rightarrow> nat \<Rightarrow> head_cell list" where
  "pieces g bx i j = map (piece g bx i) (filter (\<lambda>q. starts_at (bx (g i q)) i q) [0..<j])"

lemma pieces_Suc: "pieces g bx i (Suc j) = pieces g bx i j @ (if starts_at (bx (g i j)) i j then [piece g bx i j] else [])"
  by (simp add: pieces_def)

section \<open>What drawing a header makes\<close>

text \<open>A layout of \<open>m\<close> rows and \<open>n\<close> columns without holes that shows the grid \<open>g\<close>.\<close>

definition shows_grid :: "layout_row list \<Rightarrow> nat \<Rightarrow> nat \<Rightarrow> (nat \<Rightarrow> nat \<Rightarrow> nat) \<Rightarrow> bool" where
  "shows_grid ls m n g \<longleftrightarrow> length ls = m \<and>
     (\<forall>p < m. map (map_option lc_cell) (lr_cells (ls ! p)) = map (\<lambda>q. Some (g p q)) [0..<n])"

lemma shows_gridD:
  assumes "shows_grid ls m n g" "p < m"
  shows "length (lr_cells (ls ! p)) = n" "length ls = m"
    "q < n \<Longrightarrow> \<exists>d. lr_cells (ls ! p) ! q = Some d \<and> cell_at (lr_cells (ls ! p)) q = Some d \<and> lc_cell d = g p q"
proof -
  from assms have e: "map (map_option lc_cell) (lr_cells (ls ! p)) = map (\<lambda>q. Some (g p q)) [0..<n]"
    by (simp add: shows_grid_def)
  from arg_cong [OF e, of length] show len: "length (lr_cells (ls ! p)) = n" by simp
  show "length ls = m" using assms(1) by (simp add: shows_grid_def)
  show "q < n \<Longrightarrow> \<exists>d. lr_cells (ls ! p) ! q = Some d \<and> cell_at (lr_cells (ls ! p)) q = Some d \<and> lc_cell d = g p q"
    using arg_cong [OF e, of "\<lambda>xs. xs ! q"] len by (auto simp: cell_at_def)
qed

lemma row_span_run:
  assumes "a \<le> length rs" "\<And>k. k < a \<Longrightarrow> \<exists>d. cell_at (lr_cells (rs ! k)) j = Some d \<and> lc_cell d = c"
    and "a < length rs \<Longrightarrow> \<exists>d. cell_at (lr_cells (rs ! a)) j = Some d \<and> lc_cell d \<noteq> c"
  shows "row_span c j rs = Inr a"
  using assms
proof (induction rs arbitrary: a)
  case (Cons r rs)
  show ?case
  proof (cases a)
    case 0
    with Cons.prems(3) show ?thesis by auto
  next
    case (Suc b)
    have "row_span c j rs = Inr b"
    proof (rule Cons.IH)
      show "b \<le> length rs" using Cons.prems(1) Suc by simp
      show "\<exists>d. cell_at (lr_cells (rs ! k)) j = Some d \<and> lc_cell d = c" if "k < b" for k
        using Cons.prems(2) [of "Suc k"] Suc that by simp
      show "\<exists>d. cell_at (lr_cells (rs ! b)) j = Some d \<and> lc_cell d \<noteq> c" if "b < length rs"
        using Cons.prems(3) Suc that by simp
    qed
    with Cons.prems(2) [of 0] Suc show ?thesis by auto
  qed
qed simp

lemma col_span_run:
  assumes "a \<le> length ds" "\<And>k. k < a \<Longrightarrow> \<exists>d. ds ! k = Some d \<and> lc_cell d = c"
    and "a < length ds \<Longrightarrow> \<exists>d. ds ! a = Some d \<and> lc_cell d \<noteq> c"
  shows "col_span c ds = a"
  using assms
proof (induction ds arbitrary: a)
  case (Cons r rs)
  show ?case
  proof (cases a)
    case 0
    with Cons.prems(3) show ?thesis by auto
  next
    case (Suc b)
    have "col_span c rs = b"
    proof (rule Cons.IH)
      show "b \<le> length rs" using Cons.prems(1) Suc by simp
      show "\<exists>d. rs ! k = Some d \<and> lc_cell d = c" if "k < b" for k using Cons.prems(2) [of "Suc k"] Suc that by simp
      show "\<exists>d. rs ! b = Some d \<and> lc_cell d \<noteq> c" if "b < length rs" using Cons.prems(3) Suc that by simp
    qed
    with Cons.prems(2) [of 0] Suc show ?thesis by auto
  qed
qed simp

lemma spans_of_box:
  assumes "boxed m n g bx" "shows_grid ls m n g" "i < m" "j < n" "starts_at (bx (g i j)) i j"
  shows "row_span (g i j) j (drop (Suc i) ls) = Inr (bx_high (bx (g i j)) - 1)"
    "col_span (g i j) (drop (Suc j) (lr_cells (ls ! i))) = bx_wide (bx (g i j)) - 1"
proof -
  let ?b = "bx (g i j)"
  note b = boxedD(1-4) [OF assms(1,3,4)] and inb = boxedD(6) [OF assms(1,3,4)] and g = shows_gridD [OF assms(2)]
  have len: "length ls = m" using assms(3) by (rule g(2))
  have cell: "\<exists>d. cell_at (lr_cells (ls ! p)) q = Some d \<and> lr_cells (ls ! p) ! q = Some d \<and> (lc_cell d = g i j \<longleftrightarrow> in_box ?b p q)"
    if "p < m" "q < n" for p q
    using g(3) [OF that] inb [OF that] by auto
  show "row_span (g i j) j (drop (Suc i) ls) = Inr (bx_high ?b - 1)"
  proof (rule row_span_run)
    show "bx_high ?b - 1 \<le> length (drop (Suc i) ls)" using b assms(5) len by (simp add: starts_at_def)
    show "\<exists>d. cell_at (lr_cells (drop (Suc i) ls ! k)) j = Some d \<and> lc_cell d = g i j" if "k < bx_high ?b - 1" for k
      using cell [of "Suc i + k" j] that b assms(4,5) len by (fastforce simp: starts_at_def in_box_def)
    show "\<exists>d. cell_at (lr_cells (drop (Suc i) ls ! (bx_high ?b - 1))) j = Some d \<and> lc_cell d \<noteq> g i j"
      if "bx_high ?b - 1 < length (drop (Suc i) ls)"
      using cell [of "Suc i + (bx_high ?b - 1)" j] that b assms(4,5) len by (fastforce simp: starts_at_def in_box_def)
  qed
  show "col_span (g i j) (drop (Suc j) (lr_cells (ls ! i))) = bx_wide ?b - 1"
  proof (rule col_span_run)
    have n: "length (lr_cells (ls ! i)) = n" using assms(3) by (rule g(1))
    show "bx_wide ?b - 1 \<le> length (drop (Suc j) (lr_cells (ls ! i)))" using b assms(5) n by (simp add: starts_at_def)
    show "\<exists>d. drop (Suc j) (lr_cells (ls ! i)) ! k = Some d \<and> lc_cell d = g i j" if "k < bx_wide ?b - 1" for k
      using cell [of i "Suc j + k"] that b assms(3,5) n by (fastforce simp: starts_at_def in_box_def)
    show "\<exists>d. drop (Suc j) (lr_cells (ls ! i)) ! (bx_wide ?b - 1) = Some d \<and> lc_cell d \<noteq> g i j"
      if "bx_wide ?b - 1 < length (drop (Suc j) (lr_cells (ls ! i)))"
      using cell [of i "Suc j + (bx_wide ?b - 1)"] that b assms(3,5) n by (fastforce simp: starts_at_def in_box_def)
  qed
qed

text \<open>The state of the drawing before position \<open>(i, j)\<close>.\<close>

definition head_inv :: "nat \<Rightarrow> nat \<Rightarrow> (nat \<Rightarrow> nat \<Rightarrow> nat) \<Rightarrow> (nat \<Rightarrow> box) \<Rightarrow> nat \<Rightarrow> nat \<Rightarrow> head_state \<Rightarrow> bool" where
  "head_inv m n g bx i j st \<longleftrightarrow> hs_applied st = covered m n g bx i j \<and>
     (\<forall>t < i. hs_trs st t = pieces g bx t n) \<and> hs_trs st i = pieces g bx i j"

lemma pieces_ids:
  "starts_at (bx c) i j \<Longrightarrow> t < i \<or> t = i \<and> k \<le> j \<Longrightarrow> filter (\<lambda>x. hc_id x \<noteq> c) (pieces g bx t k) = pieces g bx t k"
  by (auto simp: pieces_def piece_def starts_at_def filter_id_conv)

lemma draw_cell_step:
  assumes "boxed m n g bx" "shows_grid ls m n g" "lr_tr (ls ! i) = Some i" "i < m" "j < n" "head_inv m n g bx i j st"
  shows "\<exists>st'. draw_cell ls i j st = Inr st' \<and> head_inv m n g bx i (Suc j) st'"
proof (cases "starts_at (bx (g i j)) i j")
  case False
  with assms(6) covered_here [OF assms(1,4,5)] covered_skip [OF assms(1,4,5)] show ?thesis
    by (auto simp: draw_cell_def head_inv_def pieces_Suc)
next
  case True
  let ?b = "bx (g i j)"
  obtain d where d: "cell_at (lr_cells (ls ! i)) j = Some d" "lc_cell d = g i j"
    using shows_gridD(3) [OF assms(2,4,5)] by blast
  have pos: "Suc (bx_high ?b - 1) = bx_high ?b" "Suc (bx_wide ?b - 1) = bx_wide ?b"
    using boxedD(1,2) [OF assms(1,4,5)] by simp_all
  let ?c = "piece g bx i j"
  have run: "draw_cell ls i j st = Inr (st\<lparr>hs_applied := hs_applied st \<union> {i..<i + bx_high ?b} \<times> {j..<j + bx_wide ?b},
      hs_trs := append_child i ?c (hs_trs st)\<rparr>)"
    using assms(3,6) covered_here [OF assms(1,4,5)] True d spans_of_box [OF assms(1,2,4,5) True]
    by (simp add: draw_cell_def head_inv_def piece_def Let_def pos [simplified] flip: add_Suc_right)
  have ids: "hc_id ?c = g i j" by (simp add: piece_def)
  have trs: "append_child i ?c (hs_trs st) t = pieces g bx t n" if "t < i" for t
    using assms(6) that pieces_ids [of bx "g i j" i j t n g, OF True] by (simp add: append_child_def head_inv_def ids)
  have tri: "append_child i ?c (hs_trs st) i = pieces g bx i (Suc j)"
    using assms(6) True pieces_ids [of bx "g i j" i j i j g, OF True] by (simp add: append_child_def head_inv_def ids pieces_Suc)
  from run trs tri covered_place [OF assms(1,4,5) True] assms(6) show ?thesis by (simp add: head_inv_def)
qed

lemma draw_cells:
  assumes "boxed m n g bx" "shows_grid ls m n g" "lr_tr (ls ! i) = Some i" "i < m" "head_inv m n g bx i 0 st" "j \<le> n"
  shows "\<exists>st'. js_foldM (draw_cell ls i) [0..<j] st = Inr st' \<and> head_inv m n g bx i j st'"
  using assms(6)
proof (induction j)
  case (Suc j)
  then obtain u where u: "js_foldM (draw_cell ls i) [0..<j] st = Inr u" "head_inv m n g bx i j u" by auto
  obtain v where "draw_cell ls i j u = Inr v" "head_inv m n g bx i (Suc j) v"
    using draw_cell_step [OF assms(1-4) _ u(2)] Suc.prems by auto
  with u(1) show ?case by (simp add: js_foldM_append)
qed (use assms(5) in simp)

lemma draw_head_rows:
  assumes "boxed m n g bx" "shows_grid ls m n g" "\<forall>p < m. lr_tr (ls ! p) = Some p" "i \<le> m"
  shows "\<exists>st. js_foldM (draw_head_row ls) [0..<i] \<lparr>hs_applied = {}, hs_trs = trs\<rparr> = Inr st \<and>
    hs_applied st = covered m n g bx i 0 \<and> (\<forall>t < i. hs_trs st t = pieces g bx t n)"
  using assms(4)
proof (induction i)
  case 0
  then show ?case by (simp add: covered_def starts_before_def)
next
  case (Suc i)
  then obtain u where u: "js_foldM (draw_head_row ls) [0..<i] \<lparr>hs_applied = {}, hs_trs = trs\<rparr> = Inr u"
    "hs_applied u = covered m n g bx i 0" "\<forall>t < i. hs_trs u t = pieces g bx t n" by auto
  have i: "i < m" "lr_tr (ls ! i) = Some i" using Suc.prems assms(3) by auto
  let ?u = "u\<lparr>hs_trs := (hs_trs u)(i := [])\<rparr>"
  have "head_inv m n g bx i 0 ?u" using u by (simp add: head_inv_def pieces_def)
  from draw_cells [OF assms(1,2) i(2,1) this order_refl]
  obtain v where v: "js_foldM (draw_cell ls i) [0..<n] ?u = Inr v" "head_inv m n g bx i n v" by blast
  have "draw_head_row ls i u = Inr v"
    using v(1) shows_gridD(1) [OF assms(2) i(1)] by (simp add: draw_head_row_def i(2))
  with u(1) v(2) covered_row_end [OF assms(1), of i] show ?case
    by (auto simp: js_foldM_append head_inv_def less_Suc_eq)
qed

section \<open>What reading it back finds\<close>

definition found :: "(nat \<Rightarrow> nat \<Rightarrow> nat) \<Rightarrow> (nat \<Rightarrow> box) \<Rightarrow> nat \<Rightarrow> nat \<Rightarrow> layout_cell" where
  "found g bx p q = \<lparr>lc_cell = g p q, lc_unique = (bx_wide (bx (g p q)) = 1)\<rparr>"

text \<open>The layout before position \<open>(i, j)\<close> is read.\<close>

definition layout_inv :: "nat \<Rightarrow> nat \<Rightarrow> (nat \<Rightarrow> nat \<Rightarrow> nat) \<Rightarrow> (nat \<Rightarrow> box) \<Rightarrow> nat \<Rightarrow> nat \<Rightarrow> layout_row list \<Rightarrow> bool" where
  "layout_inv m n g bx i j ls \<longleftrightarrow> length ls = m \<and> (\<forall>p < m. length (lr_cells (ls ! p)) \<le> n \<and>
     (\<forall>q. cell_at (lr_cells (ls ! p)) q = (if (p, q) \<in> covered m n g bx i j then Some (found g bx p q) else None)))"

lemma place_cell_step:
  assumes "boxed m n g bx" "i < m" "j < n" "starts_at (bx (g i j)) i j" "layout_inv m n g bx i j ls"
  shows "\<exists>ls'. place_cell i (piece g bx i j) ls = Inr ls' \<and> layout_inv m n g bx i (Suc j) ls'"
proof -
  let ?b = "bx (g i j)"
  note b = boxedD(1-4) [OF assms(1-3)]
  have len: "length ls = m" using assms(5) by (simp add: layout_inv_def)
  have sh: "shift_col (lr_cells (ls ! i)) 0 = j"
  proof (rule shift_col_first)
    show "\<forall>q < j. cell_at (lr_cells (ls ! i)) q \<noteq> None"
    proof (intro allI impI)
      fix q assume q: "q < j"
      then have "(i, q) \<in> covered m n g bx i j"
        using boxedD(5) [OF assms(1,2), of q] assms(2,3) by (auto simp: covered_def starts_before_def in_box_def)
      then show "cell_at (lr_cells (ls ! i)) q \<noteq> None" using assms(2,5) by (simp add: layout_inv_def)
    qed
    show "cell_at (lr_cells (ls ! i)) j = None"
      using assms(2,5) covered_here [OF assms(1-3)] assms(4) by (simp add: layout_inv_def)
  qed
  have sp: "span (hc_colspan (piece g bx i j)) = bx_wide ?b" "span (hc_rowspan (piece g bx i j)) = bx_high ?b"
    using b by (simp_all add: piece_def span_def)
  have id: "hc_id (piece g bx i j) = g i j" by (simp add: piece_def)
  let ?ls = "map (\<lambda>(p, r). if i \<le> p \<and> p < i + bx_high ?b then \<lparr>lr_cells = put_span j (bx_wide ?b)
      \<lparr>lc_cell = g i j, lc_unique = (bx_wide ?b = 1)\<rparr> (lr_cells r), lr_tr = Some i\<rparr> else r) (enumerate 0 ls)"
  have run: "place_cell i (piece g bx i j) ls = Inr ?ls"
    using b assms(4) by (simp add: place_cell_def Let_def sh sp len starts_at_def id del: One_nat_def)
  have same: "found g bx p q = \<lparr>lc_cell = g i j, lc_unique = (bx_wide ?b = 1)\<rparr>" if "p < m" "q < n" "in_box ?b p q" for p q
    using boxedD(6) [OF assms(1-3) that(1,2)] that(3) by (simp add: found_def)
  have "layout_inv m n g bx i (Suc j) ?ls"
    unfolding layout_inv_def
  proof (intro conjI allI impI)
    show "length ?ls = m" by (simp add: len)
    fix p assume p: "p < m"
    then have row: "?ls ! p = (if i \<le> p \<and> p < i + bx_high ?b then \<lparr>lr_cells = put_span j (bx_wide ?b)
        \<lparr>lc_cell = g i j, lc_unique = (bx_wide ?b = 1)\<rparr> (lr_cells (ls ! p)), lr_tr = Some i\<rparr> else ls ! p)"
      by (simp add: len nth_enumerate_eq)
    have old: "length (lr_cells (ls ! p)) \<le> n"
      "cell_at (lr_cells (ls ! p)) q = (if (p, q) \<in> covered m n g bx i j then Some (found g bx p q) else None)" for q
      using assms(5) p by (simp_all add: layout_inv_def)
    have "length (put_span j (bx_wide ?b) c (lr_cells (ls ! p))) \<le> n" for c
      by (rule order_trans [OF put_span_facts(2)]) (use old(1) b(4) assms(4) in \<open>simp add: starts_at_def\<close>)
    then show "length (lr_cells (?ls ! p)) \<le> n" using old(1) by (simp add: row)
    fix q
    show "cell_at (lr_cells (?ls ! p)) q = (if (p, q) \<in> covered m n g bx i (Suc j) then Some (found g bx p q) else None)"
      using b assms(4) same [OF p] old(2) [of q]
      by (auto simp: row put_span_facts(1) covered_place [OF assms(1-4)] in_box_def starts_at_def)
  qed
  with run show ?thesis by blast
qed

lemma place_pieces:
  assumes "boxed m n g bx" "i < m" "layout_inv m n g bx i 0 ls" "j \<le> n"
  shows "\<exists>ls'. js_foldM (place_cell i) (pieces g bx i j) ls = Inr ls' \<and> layout_inv m n g bx i j ls'"
  using assms(4)
proof (induction j)
  case (Suc j)
  then obtain u where u: "js_foldM (place_cell i) (pieces g bx i j) ls = Inr u" "layout_inv m n g bx i j u" by auto
  have j: "j < n" using Suc.prems by simp
  show ?case
  proof (cases "starts_at (bx (g i j)) i j")
    case True
    with place_cell_step [OF assms(1,2) j _ u(2)] u(1) show ?thesis by (auto simp: pieces_Suc js_foldM_append)
  next
    case False
    with u covered_skip [OF assms(1,2) j False] show ?thesis by (simp add: pieces_Suc layout_inv_def)
  qed
qed (use assms(3) in \<open>simp add: pieces_def\<close>)

lemma detect_pieces:
  assumes "boxed m n g bx"
  shows "\<exists>ls. detectHeader (map (\<lambda>t. pieces g bx t n) [0..<m]) = Inr ls \<and> shows_grid ls m n g"
proof -
  have "\<exists>ls. js_foldM (\<lambda>(i, cells). js_foldM (place_cell i) cells) (enumerate 0 (map (\<lambda>t. pieces g bx t n) [0..<i]))
      (replicate m \<lparr>lr_cells = [], lr_tr = None\<rparr>) = Inr ls \<and> layout_inv m n g bx i 0 ls" if "i \<le> m" for i
    using that
  proof (induction i)
    case 0
    then show ?case by (simp add: layout_inv_def covered_def starts_before_def cell_at_def)
  next
    case (Suc i)
    then obtain u where u: "js_foldM (\<lambda>(i, cells). js_foldM (place_cell i) cells) (enumerate 0 (map (\<lambda>t. pieces g bx t n) [0..<i]))
      (replicate m \<lparr>lr_cells = [], lr_tr = None\<rparr>) = Inr u" "layout_inv m n g bx i 0 u" by auto
    from place_pieces [OF assms _ u(2), of n] Suc.prems obtain v where
      "js_foldM (place_cell i) (pieces g bx i n) u = Inr v" "layout_inv m n g bx i n v" by auto
    with u(1) covered_row_end [OF assms, of i] show ?case
      by (auto simp: enumerate_append_eq js_foldM_append layout_inv_def)
  qed
  from this [of m] obtain ls where ls: "detectHeader (map (\<lambda>t. pieces g bx t n) [0..<m]) = Inr ls" "layout_inv m n g bx m 0 ls"
    by (auto simp: detectHeader_def)
  have "(p, q) \<in> covered m n g bx m 0" if "p < m" "q < n" for p q
    using boxedD(1,3) [OF assms that] that by (simp add: covered_def starts_before_def)
  then have "lr_cells (ls ! p) = map (\<lambda>q. Some (found g bx p q)) [0..<n]" if "p < m" for p
    using ls(2) that by (intro cell_at_full) (auto simp: layout_inv_def)
  then have "shows_grid ls m n g" using ls(2) by (simp add: shows_grid_def layout_inv_def found_def)
  with ls(1) show ?thesis by blast
qed

section \<open>Hiding columns\<close>

definition visible_before :: "bool list \<Rightarrow> nat \<Rightarrow> nat" where
  "visible_before vis b = length (filter (nth vis) [0..<b])"

definition visible_columns :: "bool list \<Rightarrow> nat list" where
  "visible_columns vis = filter (nth vis) [0..<length vis]"

lemma visible_columns_split:
  "b \<le> length vis \<Longrightarrow> visible_columns vis = filter (nth vis) [0..<b] @ filter (nth vis) [b..<length vis]"
  using upt_add_eq_append [of 0 b "length vis - b"] by (simp add: visible_columns_def flip: filter_append)

lemma visible_before_total: "b \<le> length vis \<Longrightarrow> visible_before vis b \<le> length (visible_columns vis)"
  by (simp add: visible_columns_split visible_before_def)

lemma visible_before_le:
  assumes "b \<le> length vis" "q < length (visible_columns vis)"
  shows "b \<le> visible_columns vis ! q \<longleftrightarrow> visible_before vis b \<le> q"
proof (cases "q < visible_before vis b")
  case True
  then have "visible_columns vis ! q \<in> set (filter (nth vis) [0..<b])"
    by (metis visible_columns_split [OF assms(1)] nth_append nth_mem visible_before_def)
  with True show ?thesis by simp
next
  case False
  then have "visible_columns vis ! q = filter (nth vis) [b..<length vis] ! (q - visible_before vis b)"
    by (simp add: visible_columns_split [OF assms(1)] nth_append visible_before_def)
  moreover have "q - visible_before vis b < length (filter (nth vis) [b..<length vis])"
    using assms(2) False by (simp add: visible_columns_split [OF assms(1)] visible_before_def)
  ultimately have "visible_columns vis ! q \<in> set (filter (nth vis) [b..<length vis])" by (metis nth_mem)
  with False show ?thesis by simp
qed

lemma visible_cells_nth:
  "length k = length vis \<Longrightarrow> visible_cells vis k = map (nth k) (visible_columns vis)"
proof -
  assume len: "length k = length vis"
  have "enumerate 0 k = map (\<lambda>j. (j, k ! j)) [0..<length vis]"
    using enumerate_map_upt [of 0 "nth k" "length vis"] len map_nth [of k] by simp
  moreover have "filter (\<lambda>j. length vis \<le> j \<or> vis ! j) [0..<length vis] = visible_columns vis"
    unfolding visible_columns_def by (rule filter_cong) auto
  ultimately show ?thesis by (simp add: visible_cells_def filter_map comp_def)
qed

definition hide_box :: "bool list \<Rightarrow> box \<Rightarrow> box" where
  "hide_box vis b = b\<lparr>bx_left := visible_before vis (bx_left b),
     bx_wide := visible_before vis (bx_left b + bx_wide b) - visible_before vis (bx_left b)\<rparr>"

lemma boxed_visible:
  assumes "boxed m (length vis) g bx"
  shows "boxed m (length (visible_columns vis)) (\<lambda>p q. g p (visible_columns vis ! q)) (\<lambda>c. hide_box vis (bx c))"
  unfolding boxed_def Let_def
proof (intro allI impI)
  let ?n = "length (visible_columns vis)" and ?k = "\<lambda>q. visible_columns vis ! q"
  fix p q assume p: "p < m" and q: "q < ?n"
  have col: "?k q' < length vis" if "q' < ?n" for q'
    using nth_mem [OF that] by (simp add: visible_columns_def)
  let ?b = "bx (g p (?k q))"
  note b = boxedD(1-5) [OF assms p col [OF q]] and inb = boxedD(6) [OF assms p col [OF q]]
  have ends: "bx_left ?b \<le> length vis" "bx_left ?b + bx_wide ?b \<le> length vis" using b by simp_all
  have mono: "visible_before vis (bx_left ?b) \<le> visible_before vis (bx_left ?b + bx_wide ?b)"
    using upt_add_eq_append [of 0 "bx_left ?b" "bx_wide ?b"] by (simp add: visible_before_def)
  have last: "visible_before vis (bx_left ?b + bx_wide ?b) \<le> ?n"
    using ends(2) by (rule visible_before_total)
  have same: "in_box (hide_box vis ?b) p' q' \<longleftrightarrow> in_box ?b p' (?k q')" if "q' < ?n" for p' q'
    using visible_before_le [OF ends(1) that] visible_before_le [OF ends(2) that] mono
    by (auto simp: in_box_def hide_box_def not_le)
  have "in_box (hide_box vis ?b) p q" using same [OF q] b(5) by simp
  then show "0 < bx_high (hide_box vis ?b) \<and> 0 < bx_wide (hide_box vis ?b) \<and>
    bx_top (hide_box vis ?b) + bx_high (hide_box vis ?b) \<le> m \<and> bx_left (hide_box vis ?b) + bx_wide (hide_box vis ?b) \<le> ?n \<and>
    (\<forall>p' < m. \<forall>q' < ?n. g p' (?k q') = g p (?k q) \<longleftrightarrow> in_box (hide_box vis ?b) p' q')"
    using b(1,3) mono last same inb col by (auto simp: in_box_def hide_box_def)
qed

lemma shows_grid_visible:
  assumes "shows_grid ls m (length vis) g"
  shows "shows_grid (map (\<lambda>r. r\<lparr>lr_cells := visible_cells vis (lr_cells r)\<rparr>) ls) m (length (visible_columns vis))
    (\<lambda>p q. g p (visible_columns vis ! q))"
  unfolding shows_grid_def
proof (intro conjI allI impI)
  show "length (map (\<lambda>r. r\<lparr>lr_cells := visible_cells vis (lr_cells r)\<rparr>) ls) = m"
    using assms by (simp add: shows_grid_def)
  fix p assume p: "p < m"
  have len: "length (lr_cells (ls ! p)) = length vis" "length ls = m" using shows_gridD [OF assms p] by simp_all
  have "map_option lc_cell (lr_cells (ls ! p) ! c) = Some (g p c)" if "c \<in> set (visible_columns vis)" for c
    using shows_gridD(3) [OF assms p, of c] that by (auto simp: visible_columns_def)
  then show "map (map_option lc_cell) (lr_cells (map (\<lambda>r. r\<lparr>lr_cells := visible_cells vis (lr_cells r)\<rparr>) ls ! p)) =
      map (\<lambda>q. Some (g p (visible_columns vis ! q))) [0..<length (visible_columns vis)]"
    using p len by (simp add: visible_cells_nth comp_def map_equality_iff)
qed

lemma drawHead_reads_back:
  assumes "shows_grid ls m (length vis) g" "boxed m (length vis) g bx" "\<forall>p < m. lr_tr (ls ! p) = Some p"
  shows "\<exists>trs' ls'. drawHead vis False ls trs = Inr trs' \<and> detectHeader (map trs' [0..<m]) = Inr ls' \<and> length ls' = m \<and>
    (\<forall>p < m. map (map_option lc_cell) (lr_cells (ls' ! p)) =
       visible_cells vis (map (map_option lc_cell) (lr_cells (ls ! p))))"
proof -
  let ?n = "length (visible_columns vis)" and ?g = "\<lambda>p q. g p (visible_columns vis ! q)" and ?bx = "\<lambda>c. hide_box vis (bx c)"
  let ?ls = "map (\<lambda>r. r\<lparr>lr_cells := visible_cells vis (lr_cells r)\<rparr>) ls"
  note b = boxed_visible [OF assms(2)] and s = shows_grid_visible [OF assms(1)]
  have len: "length ls = m" using assms(1) by (simp add: shows_grid_def)
  have tr: "\<forall>p < m. lr_tr (?ls ! p) = Some p" using assms(3) len by simp
  obtain st where st: "js_foldM (draw_head_row ?ls) [0..<m] \<lparr>hs_applied = {}, hs_trs = trs\<rparr> = Inr st"
    "\<forall>t < m. hs_trs st t = pieces ?g ?bx t ?n"
    using draw_head_rows [OF b s tr order_refl] by blast
  have draw: "drawHead vis False ls trs = Inr (hs_trs st)" using st(1) len by (simp add: drawHead_def)
  have "map (hs_trs st) [0..<m] = map (\<lambda>t. pieces ?g ?bx t ?n) [0..<m]" using st(2) by simp
  then obtain ls' where ls': "detectHeader (map (hs_trs st) [0..<m]) = Inr ls'" "shows_grid ls' m ?n ?g"
    using detect_pieces [OF b] by auto
  have "map (map_option lc_cell) (lr_cells (ls' ! p)) = visible_cells vis (map (map_option lc_cell) (lr_cells (ls ! p)))"
    if "p < m" for p
  proof -
    have row: "map (map_option lc_cell) (lr_cells (ls ! p)) = map (\<lambda>q. Some (g p q)) [0..<length vis]"
      using assms(1) that by (simp add: shows_grid_def)
    have "visible_cells vis (map (\<lambda>q. Some (g p q)) [0..<length vis]) = map (\<lambda>q. Some (?g p q)) [0..<?n]"
    proof -
      have "map (nth (map (\<lambda>q. Some (g p q)) [0..<length vis])) (visible_columns vis) = map (\<lambda>c. Some (g p c)) (visible_columns vis)"
        by (rule map_cong) (auto simp: visible_columns_def)
      also have "\<dots> = map (\<lambda>c. Some (g p c)) (map (nth (visible_columns vis)) [0..<?n])" by (simp add: map_nth)
      also have "\<dots> = map (\<lambda>q. Some (?g p q)) [0..<?n]" by simp
      finally show ?thesis by (simp add: visible_cells_nth)
    qed
    with row ls'(2) that show ?thesis by (simp add: shows_grid_def)
  qed
  with draw ls' show ?thesis by (auto simp: shows_grid_def)
qed

text \<open>The element of a row of the layout is the last header row that has put a cell into it: the row itself,
  when it has a cell of its own.\<close>

lemma place_cell_tr:
  assumes "place_cell i c ls = Inr ls'"
  shows "length ls' = length ls" "p < i \<Longrightarrow> p < length ls \<Longrightarrow> ls' ! p = ls ! p" "i < length ls \<Longrightarrow> lr_tr (ls' ! i) = Some i"
proof -
  have "span (hc_rowspan c) \<noteq> 0" by (simp add: span_def)
  then show "length ls' = length ls" "p < i \<Longrightarrow> p < length ls \<Longrightarrow> ls' ! p = ls ! p" "i < length ls \<Longrightarrow> lr_tr (ls' ! i) = Some i"
    using assms by (auto simp: place_cell_def Let_def nth_enumerate_eq split: if_splits)
qed

lemma place_row_tr:
  assumes "js_foldM (place_cell i) cells ls = Inr ls'"
  shows "length ls' = length ls \<and> (p < i \<longrightarrow> p < length ls \<longrightarrow> ls' ! p = ls ! p) \<and>
    (i < length ls \<longrightarrow> cells \<noteq> [] \<or> lr_tr (ls ! i) = Some i \<longrightarrow> lr_tr (ls' ! i) = Some i)"
  using assms
proof (induction cells arbitrary: ls)
  case (Cons c cells)
  then obtain u where u: "place_cell i c ls = Inr u" "js_foldM (place_cell i) cells u = Inr ls'" by (auto simp: js_bind_Inr_iff)
  with Cons.IH [OF u(2)] place_cell_tr [OF u(1)] show ?case by auto
qed simp

lemma detect_rows_tr:
  assumes "js_foldM (\<lambda>(i, cells). js_foldM (place_cell i) cells) (enumerate k hs) ls = Inr ls'" "list_all (\<lambda>h. h \<noteq> []) hs"
    and "\<forall>p < k. p < length ls \<longrightarrow> lr_tr (ls ! p) = Some p"
  shows "length ls' = length ls \<and> (\<forall>p < k + length hs. p < length ls \<longrightarrow> lr_tr (ls' ! p) = Some p)"
  using assms
proof (induction hs arbitrary: k ls)
  case (Cons h hs)
  then obtain u where u: "js_foldM (place_cell k) h ls = Inr u"
    "js_foldM (\<lambda>(i, cells). js_foldM (place_cell i) cells) (enumerate (Suc k) hs) u = Inr ls'" by (auto simp: js_bind_Inr_iff)
  have "\<forall>p < Suc k. p < length u \<longrightarrow> lr_tr (u ! p) = Some p"
    using place_row_tr [OF u(1)] Cons.prems(2,3) by (auto simp: less_Suc_eq)
  from Cons.IH [OF u(2) _ this] place_row_tr [OF u(1)] Cons.prems(2) show ?case by auto
qed simp

lemma detectHeader_tr:
  assumes "detectHeader hs = Inr ls" "list_all (\<lambda>h. h \<noteq> []) hs" "p < length hs"
  shows "lr_tr (ls ! p) = Some p"
  using detect_rows_tr [OF assms(1) [unfolded detectHeader_def] assms(2)] assms(3) by simp

text \<open>C28: take a header in which each row has a cell of its own and whose cells are rectangles that fill a grid.  Redrawn
  with any set of columns visible, it reads back as the same grid without the hidden columns: every cell keeps its
  place, with row and column spans that cover exactly what is left of it.\<close>

theorem header_redrawn:
  assumes "detectHeader hs = Inr ls" "list_all (\<lambda>h. h \<noteq> []) hs"
    and "shows_grid ls (length hs) (length vis) g" "boxed (length hs) (length vis) g bx"
  shows "\<exists>trs' ls'. drawHead vis False ls (nth hs) = Inr trs' \<and> detectHeader (map trs' [0..<length hs]) = Inr ls' \<and>
    length ls' = length hs \<and>
    (\<forall>p < length hs. map (map_option lc_cell) (lr_cells (ls' ! p)) =
       visible_cells vis (map (map_option lc_cell) (lr_cells (ls ! p))))"
  using drawHead_reads_back [OF assms(3,4)] detectHeader_tr [OF assms(1,2)] by blast

text \<open>Two rows: a first and a last column over both, and a group of two columns; the second column is hidden.\<close>

definition grouped_header :: "head_cell list list" where
  "grouped_header = [[\<lparr>hc_id = 0, hc_colspan = 0, hc_rowspan = 2\<rparr>, \<lparr>hc_id = 1, hc_colspan = 2, hc_rowspan = 0\<rparr>,
      \<lparr>hc_id = 2, hc_colspan = 1, hc_rowspan = 2\<rparr>],
    [\<lparr>hc_id = 3, hc_colspan = 0, hc_rowspan = 0\<rparr>, \<lparr>hc_id = 4, hc_colspan = 0, hc_rowspan = 0\<rparr>]]"

definition grouped_grid :: "nat \<Rightarrow> nat \<Rightarrow> nat" where
  "grouped_grid p q = [[0, 1, 1, 2], [0, 3, 4, 2]] ! p ! q"

definition grouped_box :: "nat \<Rightarrow> box" where
  "grouped_box c = [\<lparr>bx_top = 0, bx_left = 0, bx_high = 2, bx_wide = 1\<rparr>, \<lparr>bx_top = 0, bx_left = 1, bx_high = 1, bx_wide = 2\<rparr>,
     \<lparr>bx_top = 0, bx_left = 3, bx_high = 2, bx_wide = 1\<rparr>, \<lparr>bx_top = 1, bx_left = 1, bx_high = 1, bx_wide = 1\<rparr>,
     \<lparr>bx_top = 1, bx_left = 2, bx_high = 1, bx_wide = 1\<rparr>] ! c"

lemma grouped_layout:
  "(case detectHeader grouped_header of Inl e \<Rightarrow> False | Inr ls \<Rightarrow> map lr_tr ls = [Some 0, Some 1] \<and>
     shows_grid ls 2 4 grouped_grid \<and>
     map (\<lambda>r. visible_cells [True, False, True, True] (map (map_option lc_cell) (lr_cells r))) ls =
       [[Some 0, Some 1, Some 2], [Some 0, Some 4, Some 2]])"
  by code_simp

lemma grouped_boxed: "boxed 2 4 grouped_grid grouped_box"
  by code_simp

theorem header_redrawn_witness:
  "\<exists>ls trs' ls'. detectHeader grouped_header = Inr ls \<and> drawHead [True, False, True, True] False ls (nth grouped_header) = Inr trs' \<and>
    detectHeader (map trs' [0..<2]) = Inr ls' \<and>
    map (map_option lc_cell) (lr_cells (ls' ! 0)) = [Some 0, Some 1, Some 2] \<and>
    map (map_option lc_cell) (lr_cells (ls' ! 1)) = [Some 0, Some 4, Some 2]"
proof -
  obtain ls where ls: "detectHeader grouped_header = Inr ls" "shows_grid ls 2 4 grouped_grid"
    "map (\<lambda>r. visible_cells [True, False, True, True] (map (map_option lc_cell) (lr_cells r))) ls =
       [[Some 0, Some 1, Some 2], [Some 0, Some 4, Some 2]]"
    using grouped_layout by (auto split: sum.splits)
  then obtain a b where ab: "ls = [a, b]" by (auto simp: map_eq_Cons_conv)
  have len: "length [True, False, True, True] = 4" "length grouped_header = 2" "list_all (\<lambda>h. h \<noteq> []) grouped_header"
    by (simp_all add: grouped_header_def)
  obtain trs' ls' where r: "drawHead [True, False, True, True] False ls (nth grouped_header) = Inr trs'"
    "detectHeader (map trs' [0..<2]) = Inr ls'"
    "\<forall>p < 2. map (map_option lc_cell) (lr_cells (ls' ! p)) =
       visible_cells [True, False, True, True] (map (map_option lc_cell) (lr_cells (ls ! p)))"
    using header_redrawn [OF ls(1) len(3), of "[True, False, True, True]" grouped_grid grouped_box, unfolded len(1,2)] ls(2)
      grouped_boxed by blast
  from r(3) have "map (map_option lc_cell) (lr_cells (ls' ! 0)) = [Some 0, Some 1, Some 2]"
    "map (map_option lc_cell) (lr_cells (ls' ! 1)) = [Some 0, Some 4, Some 2]"
    using ls(3) by (simp_all add: ab)
  with ls(1) r(1,2) show ?thesis by (intro exI [of _ ls] exI [of _ trs'] exI [of _ ls'] conjI)
qed

text \<open>A row that only has cells of the row above loses the header: the layout names the row above as its
  element, which the redraw empties after it was filled.\<close>

definition covered_header :: "head_cell list list" where
  "covered_header = [[\<lparr>hc_id = 0, hc_colspan = 1, hc_rowspan = 2\<rparr>, \<lparr>hc_id = 1, hc_colspan = 1, hc_rowspan = 2\<rparr>], []]"

theorem covered_row_empties_header:
  "(case detectHeader covered_header of Inl e \<Rightarrow> False | Inr ls \<Rightarrow>
     (case drawHead [True, True] False ls (nth covered_header) of Inl e \<Rightarrow> False | Inr trs \<Rightarrow> trs 0 = [] \<and> trs 1 = []))"
  by code_simp

end
