(* ===== verification/DT_Visible.thy ===== *)
theory DT_Visible
  imports DT_State DT_Header
begin

text \<open>
  Showing and hiding columns (public/js/plugins/dataTables/jquery.dataTables.js): \<open>__setColumnVis\<close>, the
  work of \<open>columns().visible()\<close>.  It moves cells in and out of the rows, redraws header and footer and
  saves the state.  Column widths and scrolling, adjusted afterwards, are not modelled.
\<close>

section \<open>The page around a table\<close>

text \<open>A header or footer: its layout and the children of its rows.\<close>

record head_part =
  hp_layout :: "layout_row list"
  hp_trs :: "nat \<Rightarrow> head_cell list"

text \<open>
  For each row of data, the columns whose cells are children of its element, in order; \<^const>\<open>None\<close> when
  there is no element.  All cells of the row exist as \<open>anCells\<close>, children or not.
\<close>

record view =
  vw_table :: settings
  vw_rows :: "nat list option list"
  vw_head :: head_part
  vw_foot :: head_part
  vw_stored :: "saved_state option"

section \<open>Changing the visibility of a column\<close>

text \<open>\<open>insertBefore\<close>: a reference that is not a child raises; null appends.\<close>

definition insert_before :: "nat \<Rightarrow> nat option \<Rightarrow> nat list \<Rightarrow> nat list js_res" where
  "insert_before c ref kids =
    (let away = filter (\<lambda>k. k \<noteq> c) kids
     in case ref of
          None \<Rightarrow> Inr (away @ [c])
        | Some r \<Rightarrow> if r \<in> set away then Inr (takeWhile (\<lambda>k. k \<noteq> r) away @ c # dropWhile (\<lambda>k. k \<noteq> r) away)
                    else Inl TypeError)"

text \<open>\<open>$.inArray(true, _pluck(cols, 'bVisible'), column+1)\<close>\<close>

definition next_visible :: "bool list \<Rightarrow> nat \<Rightarrow> nat option" where
  "next_visible vis column = find (nth vis) [Suc column..<length vis]"

definition visibility :: "view \<Rightarrow> bool list" where
  "visibility v = map co_bVisible (st_columns (vw_table v))"

definition redraw_part :: "bool list \<Rightarrow> head_part \<Rightarrow> head_part js_res" where
  "redraw_part vis p = js_bind (drawHead vis False (hp_layout p) (hp_trs p)) (\<lambda>trs. Inr (p\<lparr>hp_trs := trs\<rparr>))"

text \<open>\<open>col.bVisible = vis\<close>, both \<open>_fnDrawHead\<close> and \<open>_fnSaveState\<close>\<close>

definition apply_visibility :: "bool \<Rightarrow> int \<Rightarrow> nat \<Rightarrow> bool \<Rightarrow> view \<Rightarrow> view js_res" where
  "apply_visibility bStateSave now column vis v =
    (let s = vw_table v; s' = s\<lparr>st_columns := (st_columns s)[column := (st_columns s ! column)\<lparr>co_bVisible := vis\<rparr>]\<rparr>;
         flags = map co_bVisible (st_columns s')
     in js_bind (redraw_part flags (vw_head v)) (\<lambda>h. js_bind (redraw_part flags (vw_foot v)) (\<lambda>f.
          Inr (v\<lparr>vw_table := s', vw_head := h, vw_foot := f,
            vw_stored := (case saveState bStateSave False [] now s' of None \<Rightarrow> vw_stored v | Some sv \<Rightarrow> Some (json_state sv))\<rparr>))))"

text \<open>\<open>__setColumnVis\<close> with a value to set\<close>

definition setColumnVis :: "bool \<Rightarrow> int \<Rightarrow> nat \<Rightarrow> bool \<Rightarrow> view \<Rightarrow> view js_res" where
  "setColumnVis bStateSave now column vis v =
    (let cols = st_columns (vw_table v)
     in if length cols \<le> column then Inl TypeError
        else if co_bVisible (cols ! column) = vis then Inr v
        else if vis then
          js_bind (js_mapM (\<lambda>tr. case tr of None \<Rightarrow> Inr None
              | Some kids \<Rightarrow> js_bind (insert_before column (next_visible (visibility v) column) kids) (\<lambda>k. Inr (Some k))) (vw_rows v))
            (\<lambda>rows. apply_visibility bStateSave now column vis (v\<lparr>vw_rows := rows\<rparr>))
        else
          js_bind (apply_visibility bStateSave now column False
              (v\<lparr>vw_rows := map (map_option (filter (\<lambda>k. k \<noteq> column))) (vw_rows v)\<rparr>))
            (apply_visibility bStateSave now column vis))"

text \<open>\<open>columns().visible(vis)\<close> on a list of columns, each with the value to set\<close>

definition set_visible :: "bool \<Rightarrow> int \<Rightarrow> (nat \<times> bool) list \<Rightarrow> view \<Rightarrow> view js_res" where
  "set_visible bStateSave now = js_foldM (\<lambda>(column, vis). setColumnVis bStateSave now column vis)"

section \<open>What the page shows\<close>

text \<open>A full layout of rectangles whose rows read back as the visible columns.\<close>

definition full_part :: "nat \<Rightarrow> head_part \<Rightarrow> bool" where
  "full_part n p \<longleftrightarrow> (\<exists>g bx. shows_grid (hp_layout p) (length (hp_layout p)) n g \<and> boxed (length (hp_layout p)) n g bx \<and>
     (\<forall>i < length (hp_layout p). lr_tr (hp_layout p ! i) = Some i))"

definition part_shows :: "bool list \<Rightarrow> head_part \<Rightarrow> bool" where
  "part_shows vis p \<longleftrightarrow> (\<exists>ls. detectHeader (map (hp_trs p) [0..<length (hp_layout p)]) = Inr ls \<and>
     length ls = length (hp_layout p) \<and> (\<forall>i < length ls. map (map_option lc_cell) (lr_cells (ls ! i)) =
       visible_cells vis (map (map_option lc_cell) (lr_cells (hp_layout p ! i)))))"

definition view_ok :: "bool \<Rightarrow> view \<Rightarrow> bool" where
  "view_ok bStateSave v \<longleftrightarrow>
     (\<forall>kids. Some kids \<in> set (vw_rows v) \<longrightarrow> kids = visible_columns (visibility v)) \<and>
     full_part (length (visibility v)) (vw_head v) \<and> full_part (length (visibility v)) (vw_foot v) \<and>
     part_shows (visibility v) (vw_head v) \<and> part_shows (visibility v) (vw_foot v) \<and>
     (bStateSave \<longrightarrow> map_option sv_abVisCols (vw_stored v) = Some (visibility v))"

lemma find_filter: "find p xs = (case filter p xs of [] \<Rightarrow> None | x # _ \<Rightarrow> Some x)"
  by (induction xs) auto

lemma visible_columns_around:
  "c < length vis \<Longrightarrow> visible_columns vis = filter (nth vis) [0..<c] @ (if vis ! c then [c] else []) @ filter (nth vis) [Suc c..<length vis]"
proof -
  assume c: "c < length vis"
  then have "[0..<length vis] = [0..<c] @ c # [Suc c..<length vis]"
    using upt_add_eq_append [of 0 c "length vis - c"] upt_conv_Cons [OF c] by simp
  then show ?thesis by (simp add: visible_columns_def)
qed

lemma filter_without: "filter (nth (vis[c := b])) [i..<c] = filter (nth vis) [i..<c]"
  "filter (nth (vis[c := b])) [Suc c..<n] = filter (nth vis) [Suc c..<n]"
  by (auto intro!: filter_cong)

lemma filter_elsewhere [simp]:
  "filter (\<lambda>k. p k \<and> k \<noteq> c) [i..<c] = filter p [i..<c]"
  "filter (\<lambda>k. p k \<and> k \<noteq> c) [Suc c..<n] = filter p [Suc c..<n]"
  by (auto intro!: filter_cong)

lemma show_column:
  assumes "c < length vis" "\<not> vis ! c"
  shows "insert_before c (next_visible vis c) (visible_columns vis) = Inr (visible_columns (vis[c := True]))"
proof -
  let ?a = "filter (nth vis) [0..<c]" and ?b = "filter (nth vis) [Suc c..<length vis]"
  have v: "visible_columns vis = ?a @ ?b" "visible_columns (vis[c := True]) = ?a @ c # ?b"
    using visible_columns_around [of c vis] visible_columns_around [of c "vis[c := True]"] assms
    by (simp_all add: filter_without)
  have away: "filter (\<lambda>k. k \<noteq> c) (?a @ ?b) = ?a @ ?b" by simp
  show ?thesis
  proof (cases ?b)
    case Nil
    then show ?thesis using away by (simp add: insert_before_def v next_visible_def find_filter)
  next
    case (Cons r b)
    then have "r \<in> set ?b" by simp
    then have r: "c < r" by auto
    have "takeWhile (\<lambda>k. k \<noteq> r) (?a @ r # b) = ?a" "dropWhile (\<lambda>k. k \<noteq> r) (?a @ r # b) = r # b"
      using r by (auto simp: takeWhile_append dropWhile_append)
    then show ?thesis using away Cons by (simp add: insert_before_def v next_visible_def find_filter)
  qed
qed

lemma hide_column: "c < length vis \<Longrightarrow> filter (\<lambda>k. k \<noteq> c) (visible_columns vis) = visible_columns (vis[c := False])"
  using visible_columns_around [of c vis] visible_columns_around [of c "vis[c := False]"]
  by (simp add: filter_without)

lemma redraw_part_shows:
  assumes "full_part (length vis) p"
  shows "\<exists>p'. redraw_part vis p = Inr p' \<and> full_part (length vis) p' \<and> part_shows vis p'"
proof -
  from assms obtain g bx where f: "shows_grid (hp_layout p) (length (hp_layout p)) (length vis) g"
    "boxed (length (hp_layout p)) (length vis) g bx" "\<forall>i < length (hp_layout p). lr_tr (hp_layout p ! i) = Some i"
    by (auto simp: full_part_def)
  obtain trs ls where r: "drawHead vis False (hp_layout p) (hp_trs p) = Inr trs"
    "detectHeader (map trs [0..<length (hp_layout p)]) = Inr ls" "length ls = length (hp_layout p)"
    "\<forall>i < length (hp_layout p). map (map_option lc_cell) (lr_cells (ls ! i)) =
       visible_cells vis (map (map_option lc_cell) (lr_cells (hp_layout p ! i)))"
    using drawHead_reads_back [OF f] by metis
  then show ?thesis using f by (auto simp: redraw_part_def full_part_def part_shows_def)
qed

lemma apply_visibility_ok:
  assumes "full_part (length (visibility v)) (vw_head v)" "full_part (length (visibility v)) (vw_foot v)"
    and "\<forall>kids. Some kids \<in> set (vw_rows v) \<longrightarrow> kids = visible_columns ((visibility v)[c := b])"
  shows "\<exists>w. apply_visibility st now c b v = Inr w \<and> view_ok st w \<and> visibility w = (visibility v)[c := b] \<and> vw_rows w = vw_rows v"
proof -
  let ?vis = "(visibility v)[c := b]"
  let ?s = "(vw_table v)\<lparr>st_columns := (st_columns (vw_table v))[c := (st_columns (vw_table v) ! c)\<lparr>co_bVisible := b\<rparr>]\<rparr>"
  have vis: "map co_bVisible ((st_columns (vw_table v))[c := (st_columns (vw_table v) ! c)\<lparr>co_bVisible := b\<rparr>]) = ?vis"
    by (simp add: visibility_def map_update)
  obtain h where h: "redraw_part ?vis (vw_head v) = Inr h" "full_part (length ?vis) h" "part_shows ?vis h"
    using redraw_part_shows [of ?vis "vw_head v"] assms(1) by auto
  obtain f where f: "redraw_part ?vis (vw_foot v) = Inr f" "full_part (length ?vis) f" "part_shows ?vis f"
    using redraw_part_shows [of ?vis "vw_foot v"] assms(2) by auto
  let ?w = "v\<lparr>vw_table := ?s, vw_head := h, vw_foot := f,
      vw_stored := (case saveState st False [] now ?s of None \<Rightarrow> vw_stored v | Some sv \<Rightarrow> Some (json_state sv))\<rparr>"
  have run: "apply_visibility st now c b v = Inr ?w"
    using h(1) f(1) by (simp add: apply_visibility_def Let_def vis)
  have w: "visibility ?w = ?vis" by (simp add: visibility_def map_update)
  have "st \<Longrightarrow> map_option sv_abVisCols (vw_stored ?w) = Some ?vis"
    by (simp add: saveState_def json_state_def visibility_def map_update)
  with h(2,3) f(2,3) assms(3) have "view_ok st ?w" unfolding view_ok_def w by simp
  with run w show ?thesis by (intro exI [of _ ?w]) simp
qed

lemma setColumnVis_ok:
  assumes "view_ok st v" "c < length (visibility v)"
  shows "\<exists>w. setColumnVis st now c b v = Inr w \<and> view_ok st w \<and> visibility w = (visibility v)[c := b]"
proof -
  have c: "c < length (st_columns (vw_table v))" "co_bVisible (st_columns (vw_table v) ! c) = visibility v ! c"
    using assms(2) by (simp_all add: visibility_def)
  have ok: "\<forall>kids. Some kids \<in> set (vw_rows v) \<longrightarrow> kids = visible_columns (visibility v)"
    "full_part (length (visibility v)) (vw_head v)" "full_part (length (visibility v)) (vw_foot v)"
    using assms(1) by (simp_all add: view_ok_def)
  consider "visibility v ! c = b" | "b" "\<not> visibility v ! c" | "\<not> b" "visibility v ! c" by blast
  then show ?thesis
  proof cases
    case 1
    have upd: "(visibility v)[c := b] = visibility v" by (subst 1 [symmetric]) (rule list_update_id)
    have "co_bVisible (st_columns (vw_table v) ! c) = b" unfolding c(2) by (rule 1)
    with c(1) have "\<not> length (st_columns (vw_table v)) \<le> c" "(co_bVisible (st_columns (vw_table v) ! c) = b) = True" by simp_all
    then have run: "setColumnVis st now c b v = Inr v" by (simp only: setColumnVis_def Let_def if_False if_True)
    show ?thesis by (intro exI [of _ v] conjI run assms(1) upd [symmetric])
  next
    case 2
    let ?rows = "map (map_option (\<lambda>_. visible_columns ((visibility v)[c := True]))) (vw_rows v)"
    have "js_mapM (\<lambda>tr. case tr of None \<Rightarrow> Inr None
        | Some kids \<Rightarrow> js_bind (insert_before c (next_visible (visibility v) c) kids) (\<lambda>k. Inr (Some k))) rows =
      Inr (map (map_option (\<lambda>_. visible_columns ((visibility v)[c := True]))) rows)"
      if "\<forall>kids. Some kids \<in> set rows \<longrightarrow> kids = visible_columns (visibility v)" for rows
      using that
    proof (induction rows)
      case (Cons r rows)
      have "r = None \<or> r = Some (visible_columns (visibility v))" using Cons.prems by (cases r) simp_all
      moreover have "\<forall>kids. Some kids \<in> set rows \<longrightarrow> kids = visible_columns (visibility v)" using Cons.prems by simp
      note Cons.IH [OF this]
      ultimately show ?case using show_column [OF assms(2) 2(2)] by (elim disjE) simp_all
    qed simp
    from this [OF ok(1)] have run: "setColumnVis st now c b v = apply_visibility st now c True (v\<lparr>vw_rows := ?rows\<rparr>)"
      using 2 c by (simp add: setColumnVis_def Let_def)
    have vis: "visibility (v\<lparr>vw_rows := ?rows\<rparr>) = visibility v" by (simp add: visibility_def)
    have "\<forall>kids. Some kids \<in> set (vw_rows (v\<lparr>vw_rows := ?rows\<rparr>)) \<longrightarrow> kids = visible_columns ((visibility v)[c := True])"
      by (auto simp: image_iff) (metis option.map_disc_iff option.sel option.simps(9) not_None_eq)
    then obtain w where "apply_visibility st now c True (v\<lparr>vw_rows := ?rows\<rparr>) = Inr w" "view_ok st w"
      "visibility w = (visibility v)[c := True]"
      using apply_visibility_ok [of "v\<lparr>vw_rows := ?rows\<rparr>" c True st now] ok(2,3) unfolding vis by auto
    with run 2(1) show ?thesis by simp
  next
    case 3
    let ?v = "v\<lparr>vw_rows := map (map_option (filter (\<lambda>k. k \<noteq> c))) (vw_rows v)\<rparr>"
    have vis: "visibility ?v = visibility v" by (simp add: visibility_def)
    have rows: "\<forall>kids. Some kids \<in> set (vw_rows ?v) \<longrightarrow> kids = visible_columns ((visibility v)[c := False])"
    proof (intro allI impI)
      fix kids assume "Some kids \<in> set (vw_rows ?v)"
      then have "Some kids \<in> map_option (filter (\<lambda>k. k \<noteq> c)) ` set (vw_rows v)" by simp
      then obtain x where x: "Some kids = map_option (filter (\<lambda>k. k \<noteq> c)) x" "x \<in> set (vw_rows v)" by (rule imageE)
      from x(1) [symmetric] obtain old where old: "x = Some old" "kids = filter (\<lambda>k. k \<noteq> c) old" by auto
      with ok(1) x(2) have "old = visible_columns (visibility v)" by blast
      then show "kids = visible_columns ((visibility v)[c := False])" using hide_column [OF assms(2)] old(2) by simp
    qed
    obtain u where u: "apply_visibility st now c False ?v = Inr u" "view_ok st u"
      "visibility u = (visibility v)[c := False]" "vw_rows u = vw_rows ?v"
      using apply_visibility_ok [of ?v c False st now] ok(2,3) rows unfolding vis by auto
    have full: "full_part (length (visibility u)) (vw_head u)" "full_part (length (visibility u)) (vw_foot u)"
      using u(2) by (simp_all add: view_ok_def)
    obtain w where w: "apply_visibility st now c False u = Inr w" "view_ok st w" "visibility w = (visibility u)[c := False]"
      using apply_visibility_ok [OF full, of c False st now] rows u(3,4) by auto
    have "setColumnVis st now c b v = js_bind (apply_visibility st now c False ?v) (apply_visibility st now c False)"
      using 3 c by (simp add: setColumnVis_def Let_def)
    with u w 3(1) show ?thesis by simp
  qed
qed

text \<open>C29: whatever columns a page shows and hides, and in whatever order, no request fails, and afterwards
  every row element holds the cells of exactly the visible columns, in column order; header and footer
  read back as their layouts without the hidden columns; and the saved state has the visibility shown.\<close>

theorem visibility_consistent:
  assumes "view_ok bStateSave v" "\<forall>(c, b) \<in> set reqs. c < length (visibility v)"
  shows "\<exists>w. set_visible bStateSave now reqs v = Inr w \<and> view_ok bStateSave w \<and>
    visibility w = fold (\<lambda>(c, b) vis. vis[c := b]) reqs (visibility v)"
  using assms
proof (induction reqs arbitrary: v)
  case (Cons e reqs)
  obtain c b where e: "e = (c, b)" by (cases e)
  have "c < length (visibility v)" using Cons.prems(2) by (simp add: e)
  from setColumnVis_ok [OF Cons.prems(1) this, of now b] obtain u where
    u: "setColumnVis bStateSave now c b v = Inr u" "view_ok bStateSave u" "visibility u = (visibility v)[c := b]" by blast
  have "\<forall>(c, b) \<in> set reqs. c < length (visibility u)" using Cons.prems(2) u(3) by simp
  from Cons.IH [OF u(2) this] u show ?case by (auto simp: e set_visible_def)
qed (simp add: set_visible_def)

section \<open>Instance\<close>

text \<open>Three columns with a plain header and no footer rows; one row has its elements, one has not.\<close>

definition plain_head :: head_part where
  "plain_head = \<lparr>hp_layout = [\<lparr>lr_cells = map (\<lambda>q. Some \<lparr>lc_cell = q, lc_unique = True\<rparr>) [0, 1, 2], lr_tr = Some 0\<rparr>],
     hp_trs = (\<lambda>_. map (\<lambda>q. \<lparr>hc_id = q, hc_colspan = 1, hc_rowspan = 1\<rparr>) [0, 1, 2])\<rparr>"

definition three_columns :: view where
  "three_columns = \<lparr>vw_table = small_table 3 [[JStr ''a'', JStr ''b'', JStr ''c''], [JStr ''d'', JStr ''e'', JStr ''f'']],
     vw_rows = [Some [0, 1, 2], None], vw_head = plain_head, vw_foot = \<lparr>hp_layout = [], hp_trs = (\<lambda>_. [])\<rparr>, vw_stored = None\<rparr>"

lemma three_columns_flags: "visibility three_columns = [True, True, True]"
  by (simp add: visibility_def three_columns_def small_table_def plain_column_def numeral_3_eq_3)

lemma plain_head_shows:
  "(case detectHeader (map (hp_trs plain_head) [0..<1]) of Inl e \<Rightarrow> False
    | Inr ls \<Rightarrow> map (\<lambda>r. map (map_option lc_cell) (lr_cells r)) ls = [[Some 0, Some 1, Some 2]])"
  by code_simp

definition plain_grid :: "nat \<Rightarrow> nat \<Rightarrow> nat" where
  "plain_grid p q = q"

definition plain_box :: "nat \<Rightarrow> box" where
  "plain_box c = \<lparr>bx_top = 0, bx_left = c, bx_high = 1, bx_wide = 1\<rparr>"

lemma plain_shows: "shows_grid (hp_layout plain_head) 1 3 plain_grid"
  by (simp add: shows_grid_def plain_head_def plain_grid_def numeral_3_eq_3)

lemma plain_boxed: "boxed 1 3 plain_grid plain_box"
  by (auto simp: boxed_def plain_grid_def plain_box_def in_box_def)

lemma plain_visible:
  "visible_cells [True, True, True] [Some 0, Some 1, Some (2::nat)] = [Some 0, Some 1, Some 2]"
  "visible_columns [True, True, True] = [0, 1, 2]"
  by (simp_all add: visible_cells_def visible_columns_def numeral_3_eq_3)

lemma three_columns_ok: "view_ok False three_columns"
proof -
  have len: "length (hp_layout plain_head) = 1" "hp_layout plain_head ! 0 = \<lparr>lr_cells = map (\<lambda>q. Some \<lparr>lc_cell = q, lc_unique = True\<rparr>) [0, 1, 2], lr_tr = Some 0\<rparr>"
    by (simp_all add: plain_head_def)
  have full: "full_part 3 plain_head"
    unfolding full_part_def len(1)
    by (intro exI [of _ plain_grid] exI [of _ plain_box] conjI plain_shows plain_boxed)
      (simp add: len(2))
  obtain ls where ls: "detectHeader (map (hp_trs plain_head) [0..<1]) = Inr ls"
    "map (\<lambda>r. map (map_option lc_cell) (lr_cells r)) ls = [[Some 0, Some 1, Some 2]]"
    using plain_head_shows by (auto split: sum.splits)
  then have "part_shows [True, True, True] plain_head"
    unfolding part_shows_def len(1) by (intro exI [of _ ls]) (auto simp: len(2) plain_visible(1) [simplified] map_eq_Cons_conv)
  moreover have "full_part 3 \<lparr>hp_layout = [], hp_trs = (\<lambda>_. [])\<rparr>" "part_shows [True, True, True] \<lparr>hp_layout = [], hp_trs = (\<lambda>_. [])\<rparr>"
    by (simp_all add: full_part_def part_shows_def shows_grid_def boxed_def detectHeader_def)
  moreover have "vw_rows three_columns = [Some [0, 1, 2], None]" "vw_head three_columns = plain_head"
    "vw_foot three_columns = \<lparr>hp_layout = [], hp_trs = (\<lambda>_. [])\<rparr>" by (simp_all add: three_columns_def)
  moreover have "length [True, True, True] = 3" by simp
  ultimately show ?thesis
    unfolding view_ok_def three_columns_flags plain_visible(2) using full by (simp add: numeral_3_eq_3)
qed

theorem visibility_consistent_witness:
  "\<exists>w. set_visible False 0 [(1, False), (0, False), (1, True)] three_columns = Inr w \<and> visibility w = [False, True, True] \<and>
    (\<forall>kids. Some kids \<in> set (vw_rows w) \<longrightarrow> kids = [1, 2])"
proof -
  obtain w where w: "set_visible False 0 [(1, False), (0, False), (1, True)] three_columns = Inr w" "view_ok False w"
    "visibility w = [False, True, True]"
    using visibility_consistent [OF three_columns_ok, of "[(1, False), (0, False), (1, True)]" 0]
    by (auto simp: three_columns_flags)
  have "visible_columns [False, True, True] = [1, 2]" by code_simp
  with w show ?thesis by (auto simp: view_ok_def)
qed

end
