(* ===== verification/DT_Dom.thy ===== *)
theory DT_Dom
  imports DT_Table
begin

text \<open>
  The control string of a table (public/js/plugins/dataTables/jquery.dataTables.js): \<open>_fnAddOptionsHtml\<close>
  reads \<open>sDom\<close>, a string such as \<open><"top"fl>t<"bottom"ip>\<close>, and nests the controls and the table in
  containers.  The position in the string is the rest of it; the controls themselves
  (\<open>_fnFeatureHtml...\<close>) are leaves named by their character.  A second table in one string, which would
  move the first, is outside the model.
\<close>

section \<open>Reading an attribute\<close>

text \<open>The loop that looks for the closing quote: beyond the end of the string it goes on with undefined.\<close>

partial_function (option) scan_attr :: "char \<Rightarrow> string \<Rightarrow> string \<Rightarrow> (string \<times> string) option" where
  "scan_attr cNext aDom sAttr = (case aDom of
      [] \<Rightarrow> scan_attr cNext [] (sAttr @ ''undefined'')
    | c # r \<Rightarrow> if c = cNext then Some (sAttr, r) else scan_attr cNext r (sAttr @ [c]))"

text \<open>What the page and its options supply.\<close>

record dom_features =
  df_bPaginate :: bool
  df_bLengthChange :: bool
  df_bFilter :: bool
  df_bProcessing :: bool
  df_bInfo :: bool
  df_ext :: "(char \<times> bool) list"         \<comment> \<open>plug-in features, and whether they make a node\<close>
  df_sJUIHeader :: string
  df_sJUIFooter :: string
  df_fragment :: bool                      \<comment> \<open>whether jQuery leaves a new element in a document fragment\<close>

text \<open>The id and class of a container.\<close>

definition container_attr :: "dom_features \<Rightarrow> string \<Rightarrow> string \<times> string" where
  "container_attr F attr =
    (let sAttr = (if attr = ''H'' then df_sJUIHeader F else if attr = ''F'' then df_sJUIFooter F else attr)
     in if CHR ''.'' \<in> set sAttr then
          (let aSplit = split_on (CHR ''.'') sAttr in (drop 1 (aSplit ! 0), aSplit ! 1))
        else if sAttr \<noteq> [] \<and> hd sAttr = CHR ''#'' then (drop 1 sAttr, '''')
        else ('''', sAttr))"

section \<open>Building the containers\<close>

datatype dom_node = Container string string "dom_node list" | Feature char

text \<open>
  The open containers from the inside out, each with its id, class and children so far; the last is the
  wrapper, or the document fragment that jQuery made the wrapper in: closing the wrapper leads there, and what is
  put there is not on the page.  When the last is closed the insert node is null.  \<open>aanFeatures\<close> is the list of
  controls made.
\<close>

record dom_state =
  da_open :: "(string \<times> string \<times> dom_node list) list"
  da_null :: bool
  da_features :: "char list"

definition append_node :: "dom_node \<Rightarrow> dom_state \<Rightarrow> dom_state js_res" where
  "append_node n st = (if da_null st then Inl TypeError else case da_open st of
      [] \<Rightarrow> Inl TypeError
    | (i, c, kids) # up \<Rightarrow> Inr (st\<lparr>da_open := (i, c, kids @ [n]) # up\<rparr>))"

text \<open>\<open>nInsertNode.appendChild(nNewNode); nInsertNode = nNewNode\<close>: the child is recorded when it closes.\<close>

definition open_container :: "string \<times> string \<Rightarrow> dom_state \<Rightarrow> dom_state js_res" where
  "open_container a st = (if da_null st then Inl TypeError
     else Inr (st\<lparr>da_open := (fst a, snd a, []) # da_open st\<rparr>))"

definition close_container :: "dom_state \<Rightarrow> dom_state js_res" where
  "close_container st = (if da_null st then Inl TypeError else case da_open st of
      (i, c, kids) # (i', c', kids') # up \<Rightarrow> Inr (st\<lparr>da_open := (i', c', kids' @ [Container i c kids]) # up\<rparr>)
    | _ \<Rightarrow> Inr (st\<lparr>da_null := True\<rparr>))"

text \<open>Whether a character makes a control: the six of the table, then those of plug-ins.\<close>

definition makes_feature :: "dom_features \<Rightarrow> char \<Rightarrow> bool" where
  "makes_feature F cOption =
    (if cOption = CHR ''l'' \<and> df_bPaginate F \<and> df_bLengthChange F then True
     else if cOption = CHR ''f'' \<and> df_bFilter F then True
     else if cOption = CHR ''r'' \<and> df_bProcessing F then True
     else if cOption = CHR ''t'' then True
     else if cOption = CHR ''i'' \<and> df_bInfo F then True
     else if cOption = CHR ''p'' \<and> df_bPaginate F then True
     else map_of (df_ext F) cOption = Some True)"

definition add_feature :: "char \<Rightarrow> dom_state \<Rightarrow> dom_state js_res" where
  "add_feature c st =
    (if c = CHR ''t'' \<and> c \<in> set (da_features st) then Inl Unsupported
     else append_node (Feature c) (st\<lparr>da_features := da_features st @ [c]\<rparr>))"

text \<open>One round of the loop: the rest of the string and the state; \<^const>\<open>None\<close> when it does not return.\<close>

definition dom_step :: "dom_features \<Rightarrow> char \<Rightarrow> string \<Rightarrow> dom_state \<Rightarrow> (string \<times> dom_state) js_res option" where
  "dom_step F cOption r st =
    (if cOption = CHR ''<'' then
       (if r \<noteq> [] \<and> (hd r = CHR 0x27 \<or> hd r = CHR 0x22) then
          Option.bind (scan_attr (hd r) (tl r) []) (\<lambda>(sAttr, r').
            Some (js_bind (open_container (container_attr F sAttr) st) (\<lambda>st'. Inr (r', st'))))
        else Some (js_bind (open_container ('''', '''') st) (\<lambda>st'. Inr (r, st'))))
     else if cOption = CHR ''>'' then Some (js_bind (close_container st) (\<lambda>st'. Inr (r, st')))
     else if makes_feature F cOption then Some (js_bind (add_feature cOption st) (\<lambda>st'. Inr (r, st')))
     else Some (Inr (r, st)))"

partial_function (option) build_dom :: "dom_features \<Rightarrow> string \<Rightarrow> dom_state \<Rightarrow> dom_state js_res option" where
  "build_dom F aDom st = (case aDom of
      [] \<Rightarrow> Some (Inr st)
    | c # r \<Rightarrow> Option.bind (dom_step F c r st) (\<lambda>res. case res of
          Inl e \<Rightarrow> Some (Inl e)
        | Inr e \<Rightarrow> build_dom F (fst e) (snd e)))"

text \<open>The children of the outermost node at the end; containers left open end there.\<close>

fun close_all :: "(string \<times> string \<times> dom_node list) list \<Rightarrow> dom_node list" where
  "close_all [] = []"
| "close_all [(i, c, kids)] = kids"
| "close_all ((i, c, kids) # (i', c', kids') # up) = close_all ((i', c', kids' @ [Container i c kids]) # up)"

text \<open>The children of the wrapper: it is the first child of its fragment.\<close>

definition wrapper_children :: "dom_features \<Rightarrow> dom_node list \<Rightarrow> dom_node list" where
  "wrapper_children F ns = (if df_fragment F then (case ns of Container i c kids # rest \<Rightarrow> kids | _ \<Rightarrow> []) else ns)"

definition dom_start :: "dom_features \<Rightarrow> dom_state" where
  "dom_start F = \<lparr>da_open = ('''', '''', []) # (if df_fragment F then [('''', '''', [])] else []), da_null = False, da_features = []\<rparr>"

definition addOptionsHtml :: "dom_features \<Rightarrow> string \<Rightarrow> (dom_node list \<times> char list) js_res option" where
  "addOptionsHtml F sDom =
    map_option (\<lambda>r. js_bind r (\<lambda>st. Inr (wrapper_children F (close_all (da_open st)), da_features st)))
      (build_dom F sDom (dom_start F))"

section \<open>Which strings are read to the end\<close>

lemma scan_attr_Cons [simp]:
  "scan_attr q (c # r) acc = (if c = q then Some (acc, r) else scan_attr q r (acc @ [c]))"
  by (subst scan_attr.simps) simp

lemma scan_attr_found: "q \<notin> set a \<Longrightarrow> scan_attr q (a @ q # r) acc = Some (acc @ a, r)"
  by (induction a arbitrary: acc) auto

lemma scan_attr_needs_quote:
  assumes ret: "scan_attr q s acc = Some res"
  shows "q \<in> set s"
proof (rule scan_attr.raw_induct [where P = "\<lambda>q s acc res. q \<in> set s", OF _ ret])
  fix f q s acc res
  assume IH: "\<And>q s acc res. f q s acc = Some res \<Longrightarrow> q \<in> set s"
    and eq: "(case s of [] \<Rightarrow> f q [] (acc @ ''undefined'') | c # r \<Rightarrow> if c = q then Some (acc, r) else f q r (acc @ [c])) = Some res"
  show "q \<in> set s"
  proof (cases s)
    case Nil
    with eq IH [of q "[]" "acc @ ''undefined''" res] show ?thesis by simp
  next
    case (Cons c r)
    with eq IH [of q r "acc @ [c]" res] show ?thesis by (cases "c = q") auto
  qed
qed


lemma scan_attr_hangs: "q \<notin> set s \<Longrightarrow> scan_attr q s acc = None"
  using scan_attr_needs_quote [of q s acc] by (cases "scan_attr q s acc") auto




lemma build_dom_step:
  "build_dom F (c # r) st = (case dom_step F c r st of
      None \<Rightarrow> None | Some (Inl e) \<Rightarrow> Some (Inl e) | Some (Inr (r', st')) \<Rightarrow> build_dom F r' st')"
  by (subst build_dom.simps) (auto split: option.split sum.split)

lemma build_dom_end [simp]: "build_dom F [] st = Some (Inr st)"
  by (simp add: build_dom.simps)














section \<open>Writing a layout as a control string\<close>

definition attr_text :: "string \<Rightarrow> string \<Rightarrow> string" where
  "attr_text i c = (if i \<noteq> [] then CHR ''#'' # i @ (if c \<noteq> [] then CHR ''.'' # c else []) else c)"

definition valid_attr :: "string \<Rightarrow> string \<Rightarrow> bool" where
  "valid_attr i c \<longleftrightarrow> set (i @ c) \<inter> {CHR ''.'', CHR 0x22} = {} \<and>
     (i = [] \<longrightarrow> c \<notin> {''H'', ''F''} \<and> (c \<noteq> [] \<longrightarrow> hd c \<noteq> CHR ''#''))"

fun render :: "dom_node \<Rightarrow> string" where
  "render (Container i c kids) = [CHR ''<'', CHR 0x22] @ attr_text i c @ CHR 0x22 # concat (map render kids) @ ''>''"
| "render (Feature c) = [c]"

fun controls :: "dom_node \<Rightarrow> char list" where
  "controls (Container i c kids) = concat (map controls kids)"
| "controls (Feature c) = [c]"

fun valid_node :: "dom_features \<Rightarrow> dom_node \<Rightarrow> bool" where
  "valid_node F (Container i c kids) \<longleftrightarrow> valid_attr i c \<and> list_all (valid_node F) kids"
| "valid_node F (Feature c) \<longleftrightarrow> makes_feature F c \<and> c \<noteq> CHR ''<'' \<and> c \<noteq> CHR ''>''"

lemma container_attr_text: "valid_attr i c \<Longrightarrow> container_attr F (attr_text i c) = (i, c)"
proof (cases "i = []")
  case True
  then show "valid_attr i c \<Longrightarrow> ?thesis" by (auto simp: valid_attr_def attr_text_def container_attr_def Let_def)
next
  case False
  assume v: "valid_attr i c"
  then have s: "split_on (CHR ''.'') (CHR ''#'' # i @ CHR ''.'' # c) = [CHR ''#'' # i, c]"
    using split_on_append_sep [of "CHR ''.''" "CHR ''#'' # i" c] by (auto simp: valid_attr_def split_on_single)
  with v False show ?thesis by (auto simp: valid_attr_def attr_text_def container_attr_def Let_def)
qed

lemma build_container:
  assumes "valid_attr i c" "\<not> da_null st"
  shows "build_dom F ([CHR ''<'', CHR 0x22] @ attr_text i c @ CHR 0x22 # s) st =
    build_dom F s (st\<lparr>da_open := (i, c, []) # da_open st\<rparr>)"
proof -
  have "CHR 0x22 \<notin> set (attr_text i c)" using assms(1) by (auto simp: valid_attr_def attr_text_def)
  from scan_attr_found [OF this, of s "[]"] show ?thesis
    by (simp add: build_dom_step dom_step_def container_attr_text [OF assms(1)] open_container_def assms(2))
qed

lemma build_nodes:
  assumes "\<And>n s st i c kids up. n \<in> set ns \<Longrightarrow> \<not> da_null st \<Longrightarrow> da_open st = (i, c, kids) # up \<Longrightarrow>
      count_list (da_features st @ controls n) CHR ''t'' \<le> 1 \<Longrightarrow>
      build_dom F (render n @ s) st =
        build_dom F s (st\<lparr>da_open := (i, c, kids @ [n]) # up, da_features := da_features st @ controls n\<rparr>)"
    and "\<not> da_null st" "da_open st = (i, c, kids) # up" "count_list (da_features st @ concat (map controls ns)) CHR ''t'' \<le> 1"
  shows "build_dom F (concat (map render ns) @ s) st =
    build_dom F s (st\<lparr>da_open := (i, c, kids @ ns) # up, da_features := da_features st @ concat (map controls ns)\<rparr>)"
  using assms
proof (induction ns arbitrary: st kids)
  case Nil
  then show ?case by (cases st) simp
next
  case (Cons n ns)
  let ?st = "st\<lparr>da_open := (i, c, kids @ [n]) # up, da_features := da_features st @ controls n\<rparr>"
  have "build_dom F (render n @ concat (map render ns) @ s) st = build_dom F (concat (map render ns) @ s) ?st"
    using Cons.prems(2-4) by (intro Cons.prems(1)) auto
  also have "\<dots> = build_dom F s (?st\<lparr>da_open := (i, c, (kids @ [n]) @ ns) # up,
      da_features := da_features ?st @ concat (map controls ns)\<rparr>)"
  proof (rule Cons.IH)
    show "count_list (da_features ?st @ concat (map controls ns)) CHR ''t'' \<le> 1" using Cons.prems(4) by simp
  qed (use Cons.prems in auto)
  finally show ?case by simp
qed

lemma build_render:
  assumes "valid_node F n" "\<not> da_null st" "da_open st = (i, c, kids) # up"
    "count_list (da_features st @ controls n) CHR ''t'' \<le> 1"
  shows "build_dom F (render n @ s) st =
    build_dom F s (st\<lparr>da_open := (i, c, kids @ [n]) # up, da_features := da_features st @ controls n\<rparr>)"
  using assms
proof (induction n arbitrary: s st i c kids up)
  case (Container i' c' ns)
  let ?st = "st\<lparr>da_open := (i', c', []) # (i, c, kids) # up\<rparr>"
  have "build_dom F (render (Container i' c' ns) @ s) st = build_dom F (concat (map render ns) @ ''>'' @ s) ?st"
    using build_container [of i' c' st F "concat (map render ns) @ ''>'' @ s"] Container.prems by simp
  also have "\<dots> = build_dom F (''>'' @ s) (?st\<lparr>da_open := (i', c', [] @ ns) # (i, c, kids) # up,
      da_features := da_features ?st @ concat (map controls ns)\<rparr>)"
  proof (rule build_nodes)
    fix n s i c kids up and st :: dom_state
    assume "n \<in> set ns" "\<not> da_null st" "da_open st = (i, c, kids) # up"
      "count_list (da_features st @ controls n) CHR ''t'' \<le> 1"
    then show "build_dom F (render n @ s) st =
        build_dom F s (st\<lparr>da_open := (i, c, kids @ [n]) # up, da_features := da_features st @ controls n\<rparr>)"
      using Container.prems(1) by (intro Container.IH) (auto simp: list_all_iff)
  qed (use Container.prems in auto)
  also have "\<dots> = build_dom F s (st\<lparr>da_open := (i, c, kids @ [Container i' c' ns]) # up,
      da_features := da_features st @ controls (Container i' c' ns)\<rparr>)"
    using Container.prems(2) by (cases st) (simp add: build_dom_step dom_step_def close_container_def)
  finally show ?case .
next
  case (Feature f)
  have "\<not> (f = CHR ''t'' \<and> f \<in> set (da_features st))"
    using Feature.prems(4) by (auto simp flip: count_list_0_iff)
  with Feature.prems show ?case
    by (cases st) (auto simp: build_dom_step dom_step_def add_feature_def append_node_def)
qed

text \<open>C31: a nesting of containers and enabled controls, written as a control string, is built as that
  nesting: containers with their ids and classes, the controls in their places, and the list of
  controls in the order of the string.\<close>

theorem control_string_roundtrip:
  assumes "list_all (valid_node F) ns" "count_list (concat (map controls ns)) CHR ''t'' \<le> 1"
  shows "addOptionsHtml F (concat (map render ns)) = Some (Inr (ns, concat (map controls ns)))"
proof -
  let ?up = "if df_fragment F then [('''', '''', [])] else []"
  have "build_dom F (concat (map render ns) @ []) (dom_start F) = build_dom F [] ((dom_start F)\<lparr>da_open := ('''', '''', [] @ ns) # ?up,
      da_features := da_features (dom_start F) @ concat (map controls ns)\<rparr>)"
    by (rule build_nodes) (use assms build_render in \<open>auto simp: list_all_iff dom_start_def\<close>)
  then show ?thesis by (simp add: addOptionsHtml_def wrapper_children_def dom_start_def)
qed

section \<open>Instances\<close>

definition all_features :: dom_features where
  "all_features = \<lparr>df_bPaginate = True, df_bLengthChange = True, df_bFilter = True, df_bProcessing = True, df_bInfo = True,
     df_ext = [], df_sJUIHeader = ''ui-header'', df_sJUIFooter = ''ui-footer'', df_fragment = True\<rparr>"

text \<open>\<open><"top"lf>t<"#bottom.row"ip>\<close>\<close>

definition usual_layout :: "dom_node list" where
  "usual_layout = [Container '''' ''top'' [Feature CHR ''l'', Feature CHR ''f''], Feature CHR ''t'',
     Container ''bottom'' ''row'' [Feature CHR ''i'', Feature CHR ''p'']]"

definition usual_string :: string where
  "usual_string = [CHR ''<'', CHR 0x22] @ ''top'' @ [CHR 0x22] @ ''lf>t<'' @ [CHR 0x22] @ ''#bottom.row'' @ [CHR 0x22] @ ''ip>''"

theorem control_string_roundtrip_witness:
  "addOptionsHtml all_features usual_string = Some (Inr (usual_layout, ''lftip''))"
proof -
  have "concat (map render usual_layout) = usual_string" "concat (map controls usual_layout) = ''lftip''"
    by (simp_all add: usual_layout_def usual_string_def attr_text_def)
  moreover have "list_all (valid_node all_features) usual_layout"
    by (simp add: usual_layout_def all_features_def makes_feature_def valid_attr_def)
  ultimately show ?thesis using control_string_roundtrip [of all_features usual_layout] by simp
qed


theorem table_outside_wrapper: "addOptionsHtml all_features ''f>t'' = Some (Inr ([Feature CHR ''f''], ''ft''))"
proof -
  have "makes_feature all_features CHR ''f''" "makes_feature all_features CHR ''t''" by code_simp+
  then show ?thesis
    by (simp add: addOptionsHtml_def dom_start_def build_dom_step dom_step_def add_feature_def append_node_def
        close_container_def wrapper_children_def all_features_def)
qed

end
