(* ===== verification/DT_Select.thy ===== *)
theory DT_Select
  imports DT_Columns DT_Rows
begin

text \<open>
  The selectors of the API (public/js/plugins/dataTables/jquery.dataTables.js): \<open>_selector_run\<close>,
  \<open>__row_selector\<close>, \<open>__column_selector\<close>, \<open>_selector_first\<close> and \<open>column.index()\<close>.  What jQuery selects by a
  selector string or a number it does not know is a parameter.
\<close>

section \<open>Running a selector\<close>

text \<open>A selector is a list of strings and numbers.\<close>

datatype selector = SelStr string | SelNum int

text \<open>A string that is not empty is split at its commas, and strings are trimmed.\<close>

definition selector_parts :: "selector \<Rightarrow> selector list" where
  "selector_parts x = (case x of
      SelStr s \<Rightarrow> map (\<lambda>p. SelStr (js_trim p)) (if s = [] then [s] else split_on (CHR '','') s)
    | SelNum n \<Rightarrow> [SelNum n])"

definition selector_run :: "selector list \<Rightarrow> (selector \<Rightarrow> 'a list js_res) \<Rightarrow> 'a list js_res" where
  "selector_run sels select = js_bind (js_mapM select (concat (map selector_parts sels))) (\<lambda>out. Inr (concat out))"

text \<open>\<open>_intVal\<close>\<close>

definition sel_int :: "selector \<Rightarrow> int option" where
  "sel_int x = (case x of SelStr s \<Rightarrow> dt_intVal s | SelNum n \<Rightarrow> Some n)"

text \<open>\<open>!sel\<close>\<close>

definition sel_none :: "selector \<Rightarrow> bool" where
  "sel_none x = (case x of SelStr s \<Rightarrow> s = [] | SelNum n \<Rightarrow> n = 0)"

section \<open>Rows\<close>

text \<open>\<open>jq\<close> filters the elements of the given rows.\<close>

definition row_selector :: "(selector \<Rightarrow> nat list \<Rightarrow> int list) \<Rightarrow> settings \<Rightarrow> selector list \<Rightarrow> sel_opts option \<Rightarrow> int list js_res" where
  "row_selector jq s sels opts = selector_run sels (\<lambda>sel. case (sel_int sel, opts) of
      (Some n, None) \<Rightarrow> Inr [n]
    | (_, None) \<Rightarrow> Inl TypeError
    | (selInt, Some os) \<Rightarrow> js_bind (row_indexes os s) (\<lambda>rows.
        if selInt \<noteq> None \<and> the selInt \<in> int ` set rows then Inr [the selInt]
        else if sel_none sel then Inr (map int rows)
        else Inr (jq sel rows)))"

section \<open>Columns\<close>

datatype column_kind = ByName | ByVisible

text \<open>\<open>/^(.*):(name|visIdx|visible)$/\<close>\<close>

definition column_match :: "string \<Rightarrow> (string \<times> column_kind) option" where
  "column_match s =
    (let before = (\<lambda>w. if length w \<le> length s \<and> drop (length s - length w) s = w \<and>
           list_all (\<lambda>c. \<not> line_end c) (take (length s - length w) s) then Some (take (length s - length w) s) else None)
     in case before '':name'' of Some p \<Rightarrow> Some (p, ByName) | None \<Rightarrow>
       (case before '':visIdx'' of Some p \<Rightarrow> Some (p, ByVisible) | None \<Rightarrow>
          map_option (\<lambda>p. (p, ByVisible)) (before '':visible'')))"

text \<open>A column that is not there is undefined or null, \<^const>\<open>None\<close>; \<open>NaN\<close> finds none either.\<close>

definition visible_index :: "settings \<Rightarrow> int option \<Rightarrow> int option" where
  "visible_index s idx = (case idx of
      None \<Rightarrow> None
    | Some n \<Rightarrow>
        if n < 0 then
          (let visColumns = get_columns s co_bVisible in map_option int (js_nth visColumns (int (length visColumns) + n)))
        else map_option int (visibleToColumnIndex s n))"

definition column_selector :: "(string \<Rightarrow> nat list) \<Rightarrow> settings \<Rightarrow> selector list \<Rightarrow> int option list js_res" where
  "column_selector jq s sels = selector_run sels (\<lambda>sel.
    let n = length (st_columns s)
    in if sel = SelStr '''' then Inr (map (\<lambda>i. Some (int i)) [0..<n])
       else case (sel_int sel, sel) of
           (Some k, _) \<Rightarrow> Inr [Some (if k \<ge> 0 then k else int n + k)]
         | (None, SelNum _) \<Rightarrow> Inl TypeError
         | (None, SelStr t) \<Rightarrow>
             (case column_match t of
                Some (p, ByVisible) \<Rightarrow> Inr [visible_index s (parse_int p)]
              | Some (p, ByName) \<Rightarrow> Inr (map (\<lambda>i. Some (int i)) (filter (\<lambda>i. co_sName (st_columns s ! i) = p) [0..<n]))
              | None \<Rightarrow> Inr (map (\<lambda>i. Some (int i)) (jq t))))"

text \<open>\<open>column.index(type, idx)\<close> on the first table; \<^const>\<open>None\<close> is null or undefined.\<close>

definition column_index :: "settings \<Rightarrow> string \<Rightarrow> nat \<Rightarrow> int option" where
  "column_index s type idx =
    (if type = ''fromVisible'' \<or> type = ''toData'' then columnIndexToVisible s idx
     else if type = ''fromData'' \<or> type = ''toVisible'' then map_option int (visibleToColumnIndex s (int idx))
     else None)"

text \<open>\<open>columns().index(type)\<close>\<close>

definition columns_index :: "settings \<Rightarrow> string option \<Rightarrow> nat \<Rightarrow> int option" where
  "columns_index s type column = (if type = Some ''visible'' then columnIndexToVisible s column else Some (int column))"

section \<open>The first result\<close>

text \<open>\<open>_selector_first\<close>: the results of each table with its table; what is left.\<close>

definition selector_first :: "('a list \<times> 'c) list \<Rightarrow> ('a list \<times> 'c) list" where
  "selector_first inst = (case dropWhile (\<lambda>(items, c). items = []) inst of [] \<Rightarrow> [] | e # _ \<Rightarrow> [e])"

section \<open>Addressing columns\<close>

lemma column_match_visible:
  "list_all (\<lambda>c. \<not> line_end c) p \<Longrightarrow> column_match (p @ '':visible'') = Some (p, ByVisible)"
proof -
  have d: "drop (length (p @ '':visible'') - 5) (p @ '':visible'') = ''sible''"
    "drop (length (p @ '':visible'') - 7) (p @ '':visible'') = ''visible''"
    "drop (length (p @ '':visible'') - 8) (p @ '':visible'') = '':visible''" by simp_all
  then show "list_all (\<lambda>c. \<not> line_end c) p \<Longrightarrow> ?thesis" by (simp add: column_match_def Let_def)
qed

lemma column_match_name:
  "list_all (\<lambda>c. \<not> line_end c) p \<Longrightarrow> column_match (p @ '':name'') = Some (p, ByName)"
  by (simp add: column_match_def Let_def)

lemma digits_plain:
  assumes "list_all is_digit ds"
  shows "list_all (\<lambda>c. \<not> line_end c) ds" "takeWhile is_digit (ds @ '':'' @ r) = ds" "dropWhile is_digit (ds @ '':'' @ r) = '':'' @ r"
    "CHR '','' \<notin> set ds" "list_all (\<lambda>c. \<not> js_space c) ds"
  using assms by (induction ds) (auto simp: line_end_def is_digit_def js_space_def)

lemma read_decimal_colon: "list_all is_digit ds \<Longrightarrow> read_decimal (ds @ '':visible'') = None"
  using digits_plain(2,3) [of ds "''visible''"] by (simp add: read_decimal_def take_digits_def read_exponent_def)

lemma read_hex_colon: "list_all is_digit ds \<Longrightarrow> ds \<noteq> [] \<Longrightarrow> read_hex (ds @ '':visible'') = None"
  by (cases ds; cases "tl ds") (auto simp: read_hex_def is_digit_def)

lemma trim_visible: "s \<noteq> [] \<Longrightarrow> \<not> js_space (hd s) \<Longrightarrow> js_trim (s @ '':visible'') = s @ '':visible''"
  by (cases s) (simp_all add: js_trim_def js_space_def)

lemma visible_not_number:
  assumes "list_all is_digit ds" "ds \<noteq> []"
  shows "dt_intVal (ds @ '':visible'') = None" "dt_intVal (CHR ''-'' # ds @ '':visible'') = None"
proof -
  obtain c r where ds: "ds = c # r" using assms(2) by (cases ds) auto
  have c: "is_digit c" "c \<noteq> CHR ''-''" "c \<noteq> CHR ''+''" "\<not> js_space c"
    using assms(1) ds by (auto simp: is_digit_def js_space_def)
  have "js_number (ds @ '':visible'') = DNaN"
    using trim_visible [of ds] c read_hex_colon [OF assms] read_decimal_colon [OF assms(1)]
    by (simp add: js_number_def Let_def ds)
  then show "dt_intVal (ds @ '':visible'') = None" by (simp add: dt_intVal_def split: option.split)
  have "read_hex (CHR ''-'' # ds @ '':visible'') = None" by (simp add: read_hex_def ds)
  then have "js_number (CHR ''-'' # ds @ '':visible'') = DNaN"
    using trim_visible [of "CHR ''-'' # ds"] c(1) read_decimal_colon [OF assms(1)]
    by (simp add: js_number_def Let_def ds js_space_def)
  then show "dt_intVal (CHR ''-'' # ds @ '':visible'') = None" by (simp add: dt_intVal_def split: option.split)
qed

lemma parse_digits:
  assumes "list_all is_digit ds" "ds \<noteq> []"
  shows "parse_int ds = Some (int (read_digits ds))" "parse_int (CHR ''-'' # ds) = Some (- int (read_digits ds))"
proof -
  obtain c r where ds: "ds = c # r" using assms(2) by (cases ds) auto
  have c: "c \<noteq> CHR ''-''" "c \<noteq> CHR ''+''" "\<not> js_space c" using assms(1) ds by (auto simp: is_digit_def js_space_def)
  have t: "takeWhile is_digit ds = ds" using assms(1) by (simp add: list_all_iff)
  show "parse_int ds = Some (int (read_digits ds))" using c t by (simp add: parse_int_def Let_def ds)
  show "parse_int (CHR ''-'' # ds) = Some (- int (read_digits ds))" using t ds by (simp add: parse_int_def Let_def js_space_def)
qed

lemma column_selector_one:
  assumes "CHR '','' \<notin> set s" "s \<noteq> []" "js_trim s = s" "dt_intVal s = None" "column_match s = Some (p, ByVisible)"
  shows "column_selector jq t [SelStr s] = Inr [visible_index t (parse_int p)]"
  using assms by (simp add: column_selector_def selector_run_def selector_parts_def split_on_single sel_int_def)

text \<open>A visible column is selected by its visible index, counted from the left, and by the negative index
  that counts from the right; both give the column itself, whatever columns are hidden.\<close>

theorem visible_selectors_agree:
  assumes "columnIndexToVisible s c = Some k"
  shows "column_selector jq s [SelStr (show_nat (nat k) @ '':visible'')] = Inr [Some (int c)] \<and>
    column_selector jq s [SelStr (CHR ''-'' # show_nat (visibleColumns s - nat k) @ '':visible'')] = Inr [Some (int c)]"
proof -
  have nth: "visibleToColumnIndex s k = Some c" using assms visible_roundtrip by blast
  then have k: "0 \<le> k" "nat k < visibleColumns s" by (simp_all add: visibleToColumnIndex_def visibleColumns_def js_nth_Some_iff)
  have d: "list_all is_digit (show_nat n)" "show_nat n \<noteq> []" for n by (simp_all add: show_nat_digits show_nat_nonempty)
  have hd: "\<not> js_space (hd (show_nat n))" for n
    using digits_plain(5) [OF d(1) [of n]] d(2) [of n] by (cases "show_nat n") auto
  have comma: "CHR '','' \<notin> set (show_nat n @ '':visible'')" for n using digits_plain(4) [OF d(1)] by simp
  have left: "visible_index s (parse_int (show_nat (nat k))) = Some (int c)"
    using nth k by (simp add: visible_index_def parse_digits(1) [OF d] read_show_nat)
  have "column_selector jq s [SelStr (show_nat (nat k) @ '':visible'')] = Inr [Some (int c)]"
    using column_selector_one [OF comma _ trim_visible [OF d(2) hd] visible_not_number(1) [OF d]
        column_match_visible [OF digits_plain(1) [OF d(1)]], of "nat k" jq s] left by simp
  moreover let ?m = "visibleColumns s - nat k"
  have right: "visible_index s (parse_int (CHR ''-'' # show_nat ?m)) = Some (int c)"
    using nth k nat_less_iff [OF k(1), of "visibleColumns s"] by (simp add: visible_index_def parse_digits(2) [OF d] read_show_nat visibleColumns_def visibleToColumnIndex_def of_nat_diff)
  have minus: "list_all (\<lambda>c. \<not> line_end c) (CHR ''-'' # show_nat ?m)" using digits_plain(1) [OF d(1)] by (simp add: line_end_def)
  have "column_selector jq s [SelStr (CHR ''-'' # show_nat ?m @ '':visible'')] = Inr [Some (int c)]"
    using column_selector_one [of "CHR ''-'' # show_nat ?m @ '':visible''" "CHR ''-'' # show_nat ?m" jq s] comma [of ?m]
      trim_visible [of "CHR ''-'' # show_nat ?m"] visible_not_number(2) [OF d, of ?m] column_match_visible [OF minus] right
    by (simp add: js_space_def)
  ultimately show ?thesis by blast
qed

theorem visible_selectors_agree_witness:
  "column_selector jq hidden_first [SelStr ''0:visible''] = Inr [Some 1] \<and>
    column_selector jq hidden_first [SelStr ''-1:visible''] = Inr [Some 1]"
proof -
  have "columnIndexToVisible hidden_first 1 = Some 0" "visibleColumns hidden_first = 1" by code_simp+
  moreover have "show_nat 0 = ''0''" "show_nat 1 = ''1''" by code_simp+
  ultimately show ?thesis using visible_selectors_agree [of hidden_first 1 0 jq] by simp
qed

text \<open>The conversions of \<open>column.index()\<close> are exchanged: asked for the data index of visible column 0 when the
  first column is hidden, it does not answer 1.\<close>

theorem column_index_exchanged:
  "visibleToColumnIndex hidden_first 0 = Some 1 \<and> column_index hidden_first ''toData'' 0 = None \<and>
    column_index hidden_first ''toVisible'' 0 = Some 1"
  by code_simp

text \<open>The row number 0 that is not among the rows asked for counts as no selector: all of them are selected.\<close>

theorem row_zero_selects_all:
  assumes "row_indexes os s = Inr rows" "0 \<notin> set rows"
  shows "row_selector jq s [SelNum 0] (Some os) = Inr (map int rows)"
  using assms by (auto simp: row_selector_def selector_run_def selector_parts_def sel_int_def sel_none_def)

end
