(* ===== verification/DT_Api.thy ===== *)
theory DT_Api
  imports DT_Util
begin

text \<open>
  The API registry (public/js/plugins/dataTables/jquery.dataTables.js): \<open>_Api.register\<close> keeps a tree of
  names such as \<open>row.add()\<close> or \<open>ajax.url().load()\<close>, shown here to be a map from paths to functions, and
  \<open>_Api.extend\<close> attaches the tree to an API instance.  Objects live in a heap, because a name without a
  function of its own is one object for all instances.
\<close>

section \<open>The tree of names\<close>

text \<open>Name, function if there is one (a plain object if not), method extensions, property extensions.\<close>

datatype 'f api_struct = Api_Struct string "'f option" "'f api_struct list" "'f api_struct list"

fun drop_call :: "string \<Rightarrow> string" where
  "drop_call (a # b # r) = (if a = CHR ''('' \<and> b = CHR '')'' then r else a # drop_call (b # r))"
| "drop_call s = s"

fun has_call :: "string \<Rightarrow> bool" where
  "has_call (a # b # r) = (a = CHR ''('' \<and> b = CHR '')'' \<or> has_call (b # r))"
| "has_call s = False"

text \<open>The parts of a name: the key, and whether it is a method.\<close>

definition heir :: "string \<Rightarrow> (string \<times> bool) list" where
  "heir name = map (\<lambda>h. (if has_call h then drop_call h else h, has_call h)) (split_on (CHR ''.'') name)"

text \<open>The loop of \<open>_Api.register\<close>: it finds or adds the key, and goes on in its extensions.\<close>

fun register_path :: "(string \<times> bool) list \<Rightarrow> 'f \<Rightarrow> 'f api_struct list \<Rightarrow> 'f api_struct list" where
  "register_path [] val struct = struct"
| "register_path ((key, meth) # rest) val [] =
    [if rest = [] then Api_Struct key (Some val) [] []
     else if meth then Api_Struct key None (register_path rest val []) []
     else Api_Struct key None [] (register_path rest val [])]"
| "register_path ((key, meth) # rest) val (Api_Struct n v me pe # struct) =
    (if n = key then
       (if rest = [] then Api_Struct n (Some val) me pe
        else if meth then Api_Struct n v (register_path rest val me) pe
        else Api_Struct n v me (register_path rest val pe)) # struct
     else Api_Struct n v me pe # register_path ((key, meth) # rest) val struct)"

definition register :: "string list \<Rightarrow> 'f \<Rightarrow> 'f api_struct list \<Rightarrow> 'f api_struct list" where
  "register names val struct = fold (\<lambda>name. register_path (heir name) val) names struct"

section \<open>The tree as a map\<close>

fun registered :: "(string \<times> bool) list \<Rightarrow> 'f api_struct list \<Rightarrow> 'f option" where
  "registered [] struct = None"
| "registered (e # rest) [] = None"
| "registered ((key, meth) # rest) (Api_Struct n v me pe # struct) =
    (if n = key then if rest = [] then v else registered rest (if meth then me else pe)
     else registered ((key, meth) # rest) struct)"

text \<open>Two paths name the same place if they differ at most in the parentheses of the last key.\<close>

fun same_place :: "(string \<times> bool) list \<Rightarrow> (string \<times> bool) list \<Rightarrow> bool" where
  "same_place [(k, m)] [(k', m')] \<longleftrightarrow> k = k'"
| "same_place (e # es) (e' # es') \<longleftrightarrow> e = e' \<and> es \<noteq> [] \<and> es' \<noteq> [] \<and> same_place es es'"
| "same_place _ _ \<longleftrightarrow> False"

lemma registered_Nil [simp]: "registered q [] = None"
  by (cases q) auto

lemma registered_new: "p \<noteq> [] \<Longrightarrow> registered q (register_path p val []) = (if same_place p q then Some val else None)"
proof (induction p arbitrary: q)
  case (Cons e p)
  obtain k m where e: "e = (k, m)" by (cases e)
  show ?case
  proof (cases q)
    case Nil
    then show ?thesis by (cases p) auto
  next
    case (Cons e' q')
    obtain k' m' where e': "e' = (k', m')" by (cases e')
    have none: "registered q' [] = None" by (cases q') auto
    show ?thesis
    proof (cases "p = []")
      case True
      with Cons none show ?thesis by (cases q') (auto simp: e e')
    next
      case False
      then obtain a b where p: "p = a # b" by (cases p) auto
      from Cons.IH [OF False, of q'] Cons none show ?thesis by (cases q'; cases m; cases m') (auto simp: e e' p)
    qed
  qed
qed simp

lemma registered_path:
  "p \<noteq> [] \<Longrightarrow> registered q (register_path p val S) = (if same_place p q then Some val else registered q S)"
proof (induction p val S arbitrary: q rule: register_path.induct)
  case (2 key meth rest val)
  with registered_new [of "(key, meth) # rest" q val] show ?case by (simp del: register_path.simps)
next
  case (3 key meth rest val n v me pe S)
  show ?case
  proof (cases q)
    case Nil
    then show ?thesis by (cases rest) auto
  next
    case (Cons e q')
    obtain k m where e: "e = (k, m)" by (cases e)
    have deep: "same_place ((key, meth) # rest) ((k, m) # q') \<longleftrightarrow> key = k \<and> meth = m \<and> q' \<noteq> [] \<and> same_place rest q'"
      if "rest \<noteq> []" using that by (cases rest; cases q') auto
    have leaf: "same_place [(key, meth)] ((k, m) # q') \<longleftrightarrow> key = k \<and> q' = []" by (cases q') auto
    show ?thesis
    proof (cases "n = key")
      case True
      with "3.IH"(1,2) [of q'] deep leaf show ?thesis
        by (cases "rest = []"; cases meth; cases m) (auto simp: Cons e)
    next
      case False
      with "3.IH"(3) [of "(k, m) # q'"] deep leaf show ?thesis
        by (cases "rest = []") (auto simp: Cons e)
    qed
  qed
qed simp

definition register_all :: "(string list \<times> 'f) list \<Rightarrow> 'f api_struct list" where
  "register_all regs = fold (\<lambda>(names, val). register names val) regs []"

lemma heir_nonempty: "heir name \<noteq> []"
  by (simp add: heir_def split_on_nonempty)

lemma registered_register:
  "registered q (register names val S) = (if \<exists>name \<in> set names. same_place (heir name) q then Some val else registered q S)"
  by (induction names arbitrary: S) (auto simp: register_def registered_path heir_nonempty)

text \<open>the registry is a map: after any sequence of registrations a name leads to the function registered last
  under it, and to nothing if there is none.\<close>

theorem registry_is_map:
  "registered (heir name) (register_all regs) =
    map_option snd (find (\<lambda>(names, f). \<exists>n \<in> set names. same_place (heir n) (heir name)) (rev regs))"
proof -
  have "registered q (fold (\<lambda>(names, f). register names f) regs S) =
      (case find (\<lambda>(names, f). \<exists>n \<in> set names. same_place (heir n) q) (rev regs) of Some e \<Rightarrow> Some (snd e) | None \<Rightarrow> registered q S)"
    for q S
    by (induction regs arbitrary: S rule: rev_induct) (auto simp: registered_register)
  then show ?thesis by (simp add: register_all_def split: option.split)
qed

section \<open>Instances\<close>

text \<open>An object of the API: an instance, the function made for a name, or the plain object of a name without a
  function.  The last belongs to the registry, so it is known by its place there.\<close>

datatype api_ref = Instance nat | Wrapper nat | Plain "(string \<times> bool) list"

text \<open>A wrapper: its function, the object it is applied to, what its result is extended by.\<close>

record 'f wrapper =
  wr_fn :: 'f
  wr_scope :: api_ref
  wr_ext :: "'f api_struct list"
  wr_at :: "(string \<times> bool) list"

record 'f api_heap =
  hp_props :: "((api_ref \<times> string) \<times> api_ref) list"
  hp_wrappers :: "'f wrapper list"
  hp_marked :: "api_ref list"
  hp_instances :: nat

text \<open>The guard at the start of \<open>_Api.extend\<close>.\<close>

definition extensible :: "'f api_heap \<Rightarrow> api_ref option \<Rightarrow> bool" where
  "extensible h obj = (case obj of None \<Rightarrow> False | Some (Instance i) \<Rightarrow> True | Some r \<Rightarrow> r \<in> set (hp_marked h))"

text \<open>\<open>obj[struct.name] = ...\<close> and the mark; \<open>p\<close> is the place of the structs in the registry.\<close>

definition put_value :: "(string \<times> bool) list \<Rightarrow> api_ref \<Rightarrow> api_ref \<Rightarrow> string \<Rightarrow> 'f option \<Rightarrow> 'f api_struct list \<Rightarrow>
    'f api_heap \<Rightarrow> api_ref \<times> 'f api_heap" where
  "put_value p scope obj n v me h =
    (let (r, h) = (case v of
          Some f \<Rightarrow> (Wrapper (length (hp_wrappers h)),
            h\<lparr>hp_wrappers := hp_wrappers h @ [\<lparr>wr_fn = f, wr_scope = scope, wr_ext = me, wr_at = p @ [(n, True)]\<rparr>]\<rparr>)
        | None \<Rightarrow> (Plain (p @ [(n, False)]), h))
     in (r, h\<lparr>hp_props := ((obj, n), r) # hp_props h, hp_marked := r # hp_marked h\<rparr>))"

fun extend_each :: "(string \<times> bool) list \<Rightarrow> api_ref \<Rightarrow> api_ref \<Rightarrow> 'f api_struct list \<Rightarrow> 'f api_heap \<Rightarrow> 'f api_heap" where
  "extend_each p scope obj [] h = h"
| "extend_each p scope obj (Api_Struct n v me pe # ext) h =
    (let (r, h) = put_value p scope obj n v me h;
         h = (if extensible h (Some r) then extend_each (p @ [(n, False)]) scope r pe h else h)
     in extend_each p scope obj ext h)"

definition api_extend :: "(string \<times> bool) list \<Rightarrow> api_ref option \<Rightarrow> 'f api_struct list \<Rightarrow> 'f api_heap \<Rightarrow> 'f api_heap" where
  "api_extend p obj ext h = (if extensible h obj then extend_each p (the obj) (the obj) ext h else h)"

text \<open>The end of the constructor: a new instance, extended by the whole registry.\<close>

definition new_api :: "'f api_struct list \<Rightarrow> 'f api_heap \<Rightarrow> api_ref \<times> 'f api_heap" where
  "new_api S h = (let i = Instance (hp_instances h) in (i, api_extend [] (Some i) S (h\<lparr>hp_instances := Suc (hp_instances h)\<rparr>)))"

definition api_start :: "'f api_heap" where
  "api_start = \<lparr>hp_props = [], hp_wrappers = [], hp_marked = [], hp_instances = 0\<rparr>"

text \<open>A call: what the function does to the heap and returns is a parameter \<open>run\<close>.\<close>

definition call_wrapper :: "('f \<Rightarrow> api_ref \<Rightarrow> 'f api_heap \<Rightarrow> api_ref option \<times> 'f api_heap) \<Rightarrow> nat \<Rightarrow> 'f api_heap \<Rightarrow>
    (api_ref option \<times> 'f api_heap) option" where
  "call_wrapper run w h = (if w < length (hp_wrappers h)
     then (let wr = hp_wrappers h ! w; (ret, h) = run (wr_fn wr) (wr_scope wr) h in Some (ret, api_extend (wr_at wr) ret (wr_ext wr) h))
     else None)"

text \<open>\<open>obj.a.b.c\<close>\<close>

fun follow :: "'f api_heap \<Rightarrow> api_ref \<Rightarrow> string list \<Rightarrow> api_ref option" where
  "follow h obj [] = Some obj"
| "follow h obj (n # ns) = (case map_of (hp_props h) (obj, n) of None \<Rightarrow> None | Some r \<Rightarrow> follow h r ns)"

definition acts_on :: "'f api_heap \<Rightarrow> api_ref \<Rightarrow> string list \<Rightarrow> ('f \<times> api_ref) option" where
  "acts_on h obj ns = (case follow h obj ns of
      Some (Wrapper w) \<Rightarrow> if w < length (hp_wrappers h) then Some (wr_fn (hp_wrappers h ! w), wr_scope (hp_wrappers h ! w)) else None
    | _ \<Rightarrow> None)"

section \<open>What a name of an instance acts on\<close>

fun api_name :: "'f api_struct \<Rightarrow> string" where
  "api_name (Api_Struct n v me pe) = n"

fun tree_ok :: "'f api_struct list \<Rightarrow> bool" where
  "tree_ok [] = True"
| "tree_ok (Api_Struct n v me pe # S) \<longleftrightarrow> n \<notin> api_name ` set S \<and> tree_ok me \<and> tree_ok pe \<and> tree_ok S"

lemma register_path_names:
  "p \<noteq> [] \<Longrightarrow> api_name ` set (register_path p val S) = insert (fst (hd p)) (api_name ` set S)"
  by (induction p val S rule: register_path.induct) auto

lemma register_path_ok: "tree_ok S \<Longrightarrow> tree_ok (register_path p val S)"
  by (induction p val S rule: register_path.induct) (auto simp: register_path_names)

lemma register_all_ok: "tree_ok (register_all regs)"
proof -
  have names: "tree_ok S \<Longrightarrow> tree_ok (fold (\<lambda>n. register_path (heir n) val) names S)" for names and val :: 'a and S
    by (induction names arbitrary: S) (auto simp: register_path_ok)
  have "tree_ok S \<Longrightarrow> tree_ok (fold (\<lambda>(names, val). register names val) regs S)" for S :: "'a api_struct list"
    by (induction regs arbitrary: S) (auto simp: names register_def)
  then show ?thesis by (simp add: register_all_def)
qed

abbreviation props_path :: "string list \<Rightarrow> (string \<times> bool) list" where
  "props_path ns \<equiv> map (\<lambda>n. (n, False)) ns"

text \<open>Every name before the last has a function, hence a wrapper of its own in each instance.\<close>

fun owned :: "string list \<Rightarrow> 'f api_struct list \<Rightarrow> bool" where
  "owned [] S = True"
| "owned (n # ns) [] = True"
| "owned (n # ns) (Api_Struct m v me pe # S) = (if m = n then ns = [] \<or> (v \<noteq> None \<and> owned ns pe) else owned (n # ns) S)"

text \<open>What extending an object may write.\<close>

definition touched :: "(string \<times> bool) list \<Rightarrow> api_ref \<Rightarrow> 'f api_struct list \<Rightarrow> 'f api_heap \<Rightarrow> 'f api_heap \<Rightarrow> api_ref \<Rightarrow> string \<Rightarrow> bool" where
  "touched p obj ext h h' r n \<longleftrightarrow> (case r of
      Wrapper w \<Rightarrow> length (hp_wrappers h) \<le> w \<and> w < length (hp_wrappers h') \<or> obj = r \<and> n \<in> api_name ` set ext
    | Plain q \<Rightarrow> (\<exists>m q'. q = p @ (m, False) # q' \<and> m \<in> api_name ` set ext) \<or> obj = r \<and> n \<in> api_name ` set ext
    | Instance i \<Rightarrow> obj = r \<and> n \<in> api_name ` set ext)"

lemma extend_wrappers: "\<exists>ws. hp_wrappers (extend_each p scope obj ext h) = hp_wrappers h @ ws"
proof (induction p scope obj ext h rule: extend_each.induct)
  case (2 p scope obj n v me pe ext h)
  obtain r h1 where h1: "put_value p scope obj n v me h = (r, h1)" by (cases "put_value p scope obj n v me h")
  then have "\<exists>ws. hp_wrappers h1 = hp_wrappers h @ ws" by (auto simp: put_value_def Let_def split: option.splits)
  moreover have "extensible h1 (Some r)" using h1 by (auto simp: put_value_def Let_def extensible_def split: option.splits api_ref.split)
  ultimately show ?case using "2.IH" h1 by fastforce
qed simp

lemma extend_instances: "hp_instances (extend_each p scope obj ext h) = hp_instances h"
  by (induction p scope obj ext h rule: extend_each.induct) (auto simp: put_value_def Let_def split: option.splits prod.splits)

lemma put_value_facts:
  assumes "put_value p scope obj n v me h = (r, h1)"
  shows "extensible h1 (Some r)" "map_of (hp_props h1) = (map_of (hp_props h))((obj, n) \<mapsto> r)"
    "v = None \<Longrightarrow> r = Plain (p @ [(n, False)]) \<and> hp_wrappers h1 = hp_wrappers h"
    "v = Some f \<Longrightarrow> r = Wrapper (length (hp_wrappers h)) \<and>
      hp_wrappers h1 = hp_wrappers h @ [\<lparr>wr_fn = f, wr_scope = scope, wr_ext = me, wr_at = p @ [(n, True)]\<rparr>]"
  using assms by (auto simp: put_value_def Let_def extensible_def split: option.splits api_ref.split)

lemma extend_each_Cons:
  assumes "put_value p scope obj n v me h = (r, h1)"
  shows "extend_each p scope obj (Api_Struct n v me pe # ext) h =
    extend_each p scope obj ext (extend_each (p @ [(n, False)]) scope r pe h1)"
  using assms put_value_facts(1) [OF assms] by (simp add: Let_def)

lemma extend_frame:
  "\<not> touched p obj ext h (extend_each p scope obj ext h) r n \<Longrightarrow>
    map_of (hp_props (extend_each p scope obj ext h)) (r, n) = map_of (hp_props h) (r, n)"
proof (induction p scope obj ext h arbitrary: r n rule: extend_each.induct)
  case (2 p scope obj m v me pe ext h)
  obtain r1 h1 where h1: "put_value p scope obj m v me h = (r1, h1)" by (cases "put_value p scope obj m v me h")
  note f = put_value_facts [OF h1]
  let ?h2 = "extend_each (p @ [(m, False)]) scope r1 pe h1" let ?h3 = "extend_each p scope obj ext ?h2"
  from extend_wrappers [of "p @ [(m, False)]" scope r1 pe h1] obtain ws2 where w2: "hp_wrappers ?h2 = hp_wrappers h1 @ ws2" by blast
  from extend_wrappers [of p scope obj ext ?h2] obtain ws3 where w3: "hp_wrappers ?h3 = hp_wrappers ?h2 @ ws3" by blast
  have len: "length (hp_wrappers h) \<le> length (hp_wrappers h1)" using f(3,4) by (cases v) auto
  have no: "\<not> touched p obj (Api_Struct m v me pe # ext) h ?h3 r n" using "2.prems" extend_each_Cons [OF h1] by simp
  have r1: "r \<noteq> r1"
  proof
    assume "r = r1"
    with no f(3,4) w2 w3 show False by (cases v) (auto simp: touched_def)
  qed
  have "\<not> touched p obj ext ?h2 ?h3 r n" using no w2 len by (auto simp: touched_def split: api_ref.splits)
  then have "map_of (hp_props ?h3) (r, n) = map_of (hp_props ?h2) (r, n)"
    using "2.IH"(2) [OF h1 [symmetric] refl refl] f(1) by simp
  also have "\<not> touched (p @ [(m, False)]) r1 pe h1 ?h2 r n"
    using no w2 w3 len r1 by (auto simp: touched_def split: api_ref.splits)
  then have "map_of (hp_props ?h2) (r, n) = map_of (hp_props h1) (r, n)"
    using "2.IH"(1) [OF h1 [symmetric] refl f(1)] by simp
  also have "\<dots> = map_of (hp_props h) (r, n)" using f(2) no by (auto simp: touched_def split: api_ref.splits)
  finally show ?case using extend_each_Cons [OF h1] by simp
qed simp

text \<open>\<open>K\<close> is whether the later heap also keeps what was written to plain objects.\<close>

lemma extend_acts_on:
  assumes "tree_ok ext" "registered (props_path ns) ext = Some f" "K \<or> owned ns ext"
    "\<And>w. obj = Wrapper w \<Longrightarrow> w < length (hp_wrappers h)" "\<And>q. obj = Plain q \<Longrightarrow> q = p"
    "\<And>r n. touched p obj ext h (extend_each p scope obj ext h) r n \<Longrightarrow> r = obj \<or> K \<or> (\<exists>w. r = Wrapper w) \<Longrightarrow>
      map_of (hp_props h') (r, n) = map_of (hp_props (extend_each p scope obj ext h)) (r, n)"
    "hp_wrappers h' = hp_wrappers (extend_each p scope obj ext h) @ ws"
  shows "acts_on h' obj ns = Some (f, scope)"
  using assms
proof (induction p scope obj ext h arbitrary: ns ws rule: extend_each.induct)
  case (2 p scope obj m v me pe ext h)
  obtain r1 h1 where h1: "put_value p scope obj m v me h = (r1, h1)" by (cases "put_value p scope obj m v me h")
  note fs = put_value_facts [OF h1]
  let ?h2 = "extend_each (p @ [(m, False)]) scope r1 pe h1" let ?h3 = "extend_each p scope obj ext ?h2"
  note step = extend_each_Cons [OF h1]
  from extend_wrappers [of "p @ [(m, False)]" scope r1 pe h1] obtain ws2 where w2: "hp_wrappers ?h2 = hp_wrappers h1 @ ws2" by blast
  from extend_wrappers [of p scope obj ext ?h2] obtain ws3 where w3: "hp_wrappers ?h3 = hp_wrappers ?h2 @ ws3" by blast
  have len: "length (hp_wrappers h) \<le> length (hp_wrappers h1)" using fs(3,4) by (cases v) auto
  have agree: "map_of (hp_props h') (r, n) = map_of (hp_props ?h3) (r, n)"
    if "touched p obj (Api_Struct m v me pe # ext) h ?h3 r n" "r = obj \<or> K \<or> (\<exists>w. r = Wrapper w)" for r n
    using "2.prems"(6) that step by simp
  have m: "m \<notin> api_name ` set ext" using "2.prems"(1) by simp
  from "2.prems"(2) obtain k ns' where ns: "ns = k # ns'" by (cases ns) auto
  show ?case
  proof (cases "m = k")
    case False
    show ?thesis
    proof (rule "2.IH"(2) [OF h1 [symmetric] refl refl, of ns ws])
      show "tree_ok ext" "registered (props_path ns) ext = Some f" "K \<or> owned ns ext"
        using "2.prems"(1-3) False ns by auto
      show "\<And>w. obj = Wrapper w \<Longrightarrow> w < length (hp_wrappers (if extensible h1 (Some r1) then ?h2 else h1))"
        using "2.prems"(4) len w2 fs(1) by fastforce
      show "\<And>q. obj = Plain q \<Longrightarrow> q = p" by (rule "2.prems"(5))
      show "hp_wrappers h' = hp_wrappers (extend_each p scope obj ext (if extensible h1 (Some r1) then ?h2 else h1)) @ ws"
        using "2.prems"(7) step fs(1) by simp
      fix r n
      assume t: "touched p obj ext (if extensible h1 (Some r1) then ?h2 else h1)
        (extend_each p scope obj ext (if extensible h1 (Some r1) then ?h2 else h1)) r n" and r: "r = obj \<or> K \<or> (\<exists>w. r = Wrapper w)"
      have "touched p obj (Api_Struct m v me pe # ext) h ?h3 r n"
        using t fs(1) w2 len by (auto simp: touched_def split: api_ref.splits)
      from agree [OF this r] show "map_of (hp_props h') (r, n) =
        map_of (hp_props (extend_each p scope obj ext (if extensible h1 (Some r1) then ?h2 else h1))) (r, n)"
        using fs(1) by simp
    qed
  next
    case True
    have kept: "map_of (hp_props ?h3) (r, n) = map_of (hp_props ?h2) (r, n)"
      if "\<not> touched p obj ext ?h2 ?h3 r n" for r n using extend_frame [OF that] .
    have r1: "r1 \<noteq> obj" using fs(3,4) "2.prems"(4,5) by (cases v) auto
    have "map_of (hp_props h') (obj, m) = map_of (hp_props ?h3) (obj, m)"
      by (rule agree) (auto simp: touched_def split: api_ref.split)
    also have "\<dots> = map_of (hp_props ?h2) (obj, m)"
      by (rule kept) (use m "2.prems"(4,5) len w2 in \<open>fastforce simp: touched_def split: api_ref.splits\<close>)
    also have "\<dots> = map_of (hp_props h1) (obj, m)"
      by (rule extend_frame) (use r1 "2.prems"(4,5) len in \<open>fastforce simp: touched_def split: api_ref.splits\<close>)
    finally have first: "map_of (hp_props h') (obj, m) = Some r1" using fs(2) by simp
    show ?thesis
    proof (cases "ns' = []")
      case True
      with "2.prems"(2) \<open>m = k\<close> ns have "v = Some f" by simp
      with fs(4) w2 w3 "2.prems"(7) step first True \<open>m = k\<close> ns show ?thesis by (simp add: acts_on_def nth_append)
    next
      case False
      have deep: "registered (props_path ns') pe = Some f" "K \<or> v \<noteq> None \<and> owned ns' pe"
        using "2.prems"(2,3) False \<open>m = k\<close> ns by auto
      have "acts_on h' r1 ns' = Some (f, scope)"
      proof (rule "2.IH"(1) [OF h1 [symmetric] refl fs(1), of ns' "ws3 @ ws"])
        show "tree_ok pe" using "2.prems"(1) by simp
        show "registered (props_path ns') pe = Some f" "K \<or> owned ns' pe" using deep by auto
        show "\<And>w. r1 = Wrapper w \<Longrightarrow> w < length (hp_wrappers h1)" using fs(3,4) by (cases v) auto
        show "\<And>q. r1 = Plain q \<Longrightarrow> q = p @ [(m, False)]" using fs(3,4) by (cases v) auto
        show "hp_wrappers h' = hp_wrappers ?h2 @ ws3 @ ws" using "2.prems"(7) step w3 by simp
        fix r n
        assume t: "touched (p @ [(m, False)]) r1 pe h1 ?h2 r n" and r: "r = r1 \<or> K \<or> (\<exists>w. r = Wrapper w)"
        have "r = r1 \<Longrightarrow> K \<or> (\<exists>w. r = Wrapper w)" using deep(2) fs(4) by (cases v) auto
        then have r': "r = obj \<or> K \<or> (\<exists>w. r = Wrapper w)" using r by blast
        have "touched p obj (Api_Struct m v me pe # ext) h ?h3 r n"
          using t fs(3,4) w2 w3 len by (cases v) (auto simp: touched_def split: api_ref.splits)
        moreover have "\<not> touched p obj ext ?h2 ?h3 r n"
          using t fs(3,4) w2 w3 len m r1 "2.prems"(4,5) by (cases v) (auto simp: touched_def split: api_ref.splits)
        ultimately show "map_of (hp_props h') (r, n) = map_of (hp_props ?h2) (r, n)"
          using agree [OF _ r'] kept by metis
      qed
      with first show ?thesis by (simp add: acts_on_def ns \<open>m = k\<close>)
    qed
  qed
qed simp

lemma extend_plain:
  assumes "tree_ok ext" "k \<in> api_name ` set ext" "registered [(k, False)] ext = None"
    "\<And>w. obj = Wrapper w \<Longrightarrow> w < length (hp_wrappers h)" "\<And>q. obj = Plain q \<Longrightarrow> q = p"
  shows "map_of (hp_props (extend_each p scope obj ext h)) (obj, k) = Some (Plain (p @ [(k, False)]))"
  using assms
proof (induction ext arbitrary: h)
  case (Cons e ext)
  obtain m v me pe where e: "e = Api_Struct m v me pe" by (cases e)
  obtain r1 h1 where h1: "put_value p scope obj m v me h = (r1, h1)" by (cases "put_value p scope obj m v me h")
  note fs = put_value_facts [OF h1] and step = extend_each_Cons [OF h1]
  let ?h2 = "extend_each (p @ [(m, False)]) scope r1 pe h1"
  from extend_wrappers [of "p @ [(m, False)]" scope r1 pe h1] obtain ws2 where w2: "hp_wrappers ?h2 = hp_wrappers h1 @ ws2" by blast
  have len: "length (hp_wrappers h) \<le> length (hp_wrappers h1)" using fs(3,4) by (cases v) auto
  show ?case
  proof (cases "m = k")
    case True
    then have v: "v = None" using Cons.prems(3) e by simp
    have "map_of (hp_props (extend_each p scope obj ext ?h2)) (obj, k) = map_of (hp_props ?h2) (obj, k)"
      by (rule extend_frame) (use Cons.prems(1,4,5) e True len w2 in \<open>fastforce simp: touched_def split: api_ref.splits\<close>)
    also have "\<dots> = map_of (hp_props h1) (obj, k)"
      by (rule extend_frame) (use fs(3) [OF v] Cons.prems(4,5) len in \<open>fastforce simp: touched_def split: api_ref.splits\<close>)
    finally show ?thesis using fs(2) fs(3) [OF v] step e True by simp
  next
    case False
    have "map_of (hp_props (extend_each p scope obj ext ?h2)) (obj, k) = Some (Plain (p @ [(k, False)]))"
    proof (rule Cons.IH)
      show "tree_ok ext" "k \<in> api_name ` set ext" "registered [(k, False)] ext = None" using Cons.prems(1-3) e False by auto
      show "w < length (hp_wrappers ?h2)" if "obj = Wrapper w" for w using Cons.prems(4) [OF that] len w2 by simp
    qed (rule Cons.prems(5))
    then show ?thesis using step e by simp
  qed
qed simp

lemma registered_name: "registered (props_path (k # ns)) S = Some f \<Longrightarrow> k \<in> api_name ` set S"
  by (induction "props_path (k # ns)" S rule: registered.induct) (auto split: if_splits)

text \<open>What may happen to the heap after an instance was made: other instances, and extension of results.\<close>

inductive api_later :: "nat \<Rightarrow> 'f api_heap \<Rightarrow> 'f api_heap \<Rightarrow> bool" for i where
  same: "api_later i h h"
| made: "api_later i h h1 \<Longrightarrow> new_api S h1 = (a, h2) \<Longrightarrow> a \<noteq> Instance i \<Longrightarrow> api_later i h h2"
| extended: "api_later i h h1 \<Longrightarrow> j \<noteq> i \<Longrightarrow> api_later i h (api_extend p (Some (Instance j)) ext h1)"

lemma api_later_kept:
  "api_later i h h2 \<Longrightarrow> (\<exists>ws. hp_wrappers h2 = hp_wrappers h @ ws) \<and>
    (\<forall>r n. r = Instance i \<or> (\<exists>w. r = Wrapper w \<and> w < length (hp_wrappers h)) \<longrightarrow>
      map_of (hp_props h2) (r, n) = map_of (hp_props h) (r, n))"
proof (induction rule: api_later.induct)
  case (made h h1 S a h2)
  let ?h = "h1\<lparr>hp_instances := Suc (hp_instances h1)\<rparr>"
  have h2: "h2 = extend_each [] a a S ?h" and a: "a = Instance (hp_instances h1)"
    using made(2) by (auto simp: new_api_def api_extend_def extensible_def Let_def)
  obtain ws where "hp_wrappers h2 = hp_wrappers h1 @ ws" using extend_wrappers [of "[]" a a S ?h] h2 by auto
  moreover have "map_of (hp_props h2) (r, n) = map_of (hp_props h1) (r, n)"
    if "r = Instance i \<or> (\<exists>w. r = Wrapper w \<and> w < length (hp_wrappers h1))" for r n
    using extend_frame [of "[]" a S ?h a r n] that made(3) a h2 by (auto simp: touched_def)
  ultimately show ?case using made.IH by fastforce
next
  case (extended h h1 j p ext)
  let ?h2 = "api_extend p (Some (Instance j)) ext h1"
  have h2: "?h2 = extend_each p (Instance j) (Instance j) ext h1" by (simp add: api_extend_def extensible_def)
  obtain ws where "hp_wrappers ?h2 = hp_wrappers h1 @ ws" using extend_wrappers [of p "Instance j" "Instance j" ext h1] h2 by auto
  moreover have "map_of (hp_props ?h2) (r, n) = map_of (hp_props h1) (r, n)"
    if "r = Instance i \<or> (\<exists>w. r = Wrapper w \<and> w < length (hp_wrappers h1))" for r n
    using extend_frame [of p "Instance j" ext h1 "Instance j" r n] that extended(2) h2 by (auto simp: touched_def)
  ultimately show ?case using extended.IH by fastforce
qed simp

text \<open>C34: a name whose every part has a function acts, on each instance, on that instance, with the function
  registered for it, whatever instances are made and whatever results are extended afterwards.\<close>

theorem names_act_on_their_instance:
  assumes "registered (props_path ns) (register_all regs) = Some f" "owned ns (register_all regs)"
    "new_api (register_all regs) h = (Instance i, h1)" "api_later i h1 h2"
  shows "acts_on h2 (Instance i) ns = Some (f, Instance i)"
proof -
  let ?S = "register_all regs" let ?h = "h\<lparr>hp_instances := Suc (hp_instances h)\<rparr>"
  have h1: "h1 = extend_each [] (Instance i) (Instance i) ?S ?h"
    using assms(3) by (auto simp: new_api_def api_extend_def extensible_def Let_def)
  from api_later_kept [OF assms(4)] obtain ws where ws: "hp_wrappers h2 = hp_wrappers h1 @ ws"
    and kept: "\<And>r n. r = Instance i \<or> (\<exists>w. r = Wrapper w \<and> w < length (hp_wrappers h1)) \<Longrightarrow>
      map_of (hp_props h2) (r, n) = map_of (hp_props h1) (r, n)" by blast
  show ?thesis
    by (rule extend_acts_on [of ?S ns f False "Instance i" ?h "[]" "Instance i" h2 ws])
      (use assms(1,2) ws kept h1 in \<open>auto simp: register_all_ok touched_def\<close>)
qed

text \<open>a name below a plain object does not: the object is the registry's own, so that after a second instance
  was made the name acts on the second instance's tables also when it is called on the first.\<close>

theorem plain_names_act_on_last:
  assumes "registered (props_path (k # ns)) (register_all regs) = Some f" "ns \<noteq> []"
    "registered [(k, False)] (register_all regs) = None"
    "new_api (register_all regs) h = (a, h1)" "new_api (register_all regs) h1 = (b, h2)"
  shows "a \<noteq> b \<and> acts_on h1 a (k # ns) = Some (f, a) \<and> acts_on h2 a (k # ns) = Some (f, b)"
proof -
  let ?S = "register_all regs" let ?h = "h\<lparr>hp_instances := Suc (hp_instances h)\<rparr>" let ?h1 = "h1\<lparr>hp_instances := Suc (hp_instances h1)\<rparr>"
  have a: "a = Instance (hp_instances h)" "h1 = extend_each [] a a ?S ?h" and b: "b = Instance (hp_instances h1)" "h2 = extend_each [] b b ?S ?h1"
    using assms(4,5) by (auto simp: new_api_def api_extend_def extensible_def Let_def)
  have ab: "a \<noteq> b" using a b extend_instances [of "[]" a a ?S ?h] by simp
  have made: "acts_on h1 a (k # ns) = Some (f, a)" "acts_on h2 b (k # ns) = Some (f, b)"
    using extend_acts_on [OF register_all_ok assms(1), of True a ?h "[]" a h1 "[]"]
      extend_acts_on [OF register_all_ok assms(1), of True b ?h1 "[]" b h2 "[]"] a b by auto
  have plain: "map_of (hp_props h1) (a, k) = Some (Plain [(k, False)])" "map_of (hp_props h2) (b, k) = Some (Plain [(k, False)])"
    using extend_plain [where obj = a and h = ?h and p = "[]" and scope = a, OF register_all_ok registered_name [OF assms(1)] assms(3)]
      extend_plain [where obj = b and h = ?h1 and p = "[]" and scope = b, OF register_all_ok registered_name [OF assms(1)] assms(3)] a b by auto
  have "map_of (hp_props h2) (a, k) = map_of (hp_props h1) (a, k)"
    using extend_frame [of "[]" b ?S ?h1 b a k] ab a b by (auto simp: touched_def)
  then have "acts_on h2 a (k # ns) = acts_on h2 b (k # ns)" using plain by (simp add: acts_on_def)
  with ab made show ?thesis by simp
qed

text \<open>Part of the registry of the library.\<close>

definition small_registry :: "(string list \<times> string) list" where
  "small_registry = [([''draw()''], ''draw''), ([''rows()''], ''rows''), ([''rows.add()''], ''add''), ([''ajax.json()''], ''json''),
    ([''ajax.reload()''], ''reload'')]"

theorem registry_paths:
  "registered [(''ajax'', False), (''reload'', True)] (register_all small_registry) = Some ''reload'' \<and>
    registered [(''ajax'', True), (''reload'', True)] (register_all small_registry) = None"
  by code_simp

theorem names_act_on_their_instance_witness:
  "let (a, h) = new_api (register_all small_registry) api_start; (b, h') = new_api (register_all small_registry) h
   in acts_on h' (Instance 0) [''rows'', ''add''] = Some (''add'', Instance 0)"
proof -
  let ?S = "register_all small_registry"
  have r: "registered (props_path [''rows'', ''add'']) ?S = Some ''add''" "owned [''rows'', ''add''] ?S" by code_simp+
  obtain h where h: "new_api ?S api_start = (Instance 0, h)" and i: "hp_instances h = 1"
    by (simp add: new_api_def api_start_def api_extend_def extensible_def Let_def extend_instances)
  obtain h' where h': "new_api ?S h = (Instance 1, h')" using i by (simp add: new_api_def Let_def)
  have "api_later 0 h h'" by (rule api_later.made [OF api_later.same h']) simp
  from names_act_on_their_instance [OF r h this] show ?thesis by (simp add: h h')
qed

theorem plain_names_act_on_last_witness:
  "let (a, h) = new_api (register_all small_registry) api_start; (b, h') = new_api (register_all small_registry) h
   in acts_on h' a [''ajax'', ''reload''] = Some (''reload'', b)"
proof -
  let ?S = "register_all small_registry"
  have r: "registered (props_path [''ajax'', ''reload'']) ?S = Some ''reload''" "registered [(''ajax'', False)] ?S = None" by code_simp+
  obtain a h b h' where h: "new_api ?S api_start = (a, h)" "new_api ?S h = (b, h')"
    by (cases "new_api ?S api_start"; cases "new_api ?S (snd (new_api ?S api_start))") auto
  from plain_names_act_on_last [OF r(1) _ r(2) h] h show ?thesis by simp
qed

end
