(* ===== verification/DT_Details.thy ===== *)
theory DT_Details
  imports DT_Draw
begin

text \<open>
  Child rows (public/js/plugins/dataTables/jquery.dataTables.js): \<open>__details_add\<close>, \<open>__details_display\<close>,
  \<open>__details_events\<close>, \<open>row().child()\<close> and its methods.  The body of the table is the list of its TR elements;
  jQuery's \<open>insertAfter\<close> moves elements after an element that is in the document and inserts nothing
  otherwise.  Its events are modelled as documented: a handler bound for an event with namespaces runs when the event is
  triggered with no namespace that the handler does not have.
\<close>

section \<open>State\<close>

text \<open>A child row: the contents of its cell, the classes of the cell, its colspan.\<close>

record child_tr =
  ch_html :: string
  ch_class :: "string list"
  ch_span :: nat

text \<open>\<open>_details\<close> and \<open>_detailsShow\<close>\<close>

record row_details =
  rd_trs :: "child_tr list option"
  rd_shown :: bool

text \<open>Elements of the body: a row, the k-th child row of a row, the row of a message, what is left of a removed row.\<close>

datatype body_node = RowNode nat | ChildNode nat nat | MessageNode | OrphanNode

text \<open>\<open>ds_handlers\<close> are the events of the handlers bound on the table.\<close>

record details_state =
  ds_rows :: "row_details list"
  ds_body :: "body_node list"
  ds_handlers :: "string list"

section \<open>jQuery events\<close>

text \<open>The type and the namespaces of an event name such as \<open>draw.DT_details\<close>.\<close>

definition event_type :: "string \<Rightarrow> string" where
  "event_type e = hd (split_on CHR ''.'' e)"

definition event_namespaces :: "string \<Rightarrow> string list" where
  "event_namespaces e = tl (split_on CHR ''.'' e)"

text \<open>Whether triggering \<open>e\<close> runs a handler bound as \<open>h\<close>, and what \<open>off(e)\<close> leaves of the handlers.\<close>

definition event_runs :: "string \<Rightarrow> string \<Rightarrow> bool" where
  "event_runs e h \<longleftrightarrow> event_type e = event_type h \<and> set (event_namespaces e) \<subseteq> set (event_namespaces h)"

definition handlers_off :: "string \<Rightarrow> string list \<Rightarrow> string list" where
  "handlers_off e hs = filter (\<lambda>h. \<not> event_runs e h) hs"

text \<open>\<open>_fnCallbackFire\<close> triggers its event in the namespace \<open>dt\<close>.\<close>

definition fired_event :: "string \<Rightarrow> string" where
  "fired_event event = event @ ''.dt''"

section \<open>Operations\<close>

text \<open>What is given for a child row: HTML, or an element with its node name.\<close>

datatype child_item = Html string | Element string string

definition upper_char :: "char \<Rightarrow> char" where
  "upper_char c = (if (97 :: nat) \<le> of_char c \<and> of_char c \<le> (122 :: nat) then char_of (of_char c - (32 :: nat)) else c)"

text \<open>The test of \<open>addRow\<close> that leads to a new TR around the item.\<close>

definition needs_row :: "child_item \<Rightarrow> bool" where
  "needs_row r = (case r of Html h \<Rightarrow> True | Element name inner \<Rightarrow> name = '''' \<or> map upper_char name \<noteq> ''tr'')"

text \<open>\<open>addRow\<close>; an element that is used as it is keeps its contents.\<close>

definition add_child_row :: "nat \<Rightarrow> string \<Rightarrow> child_item \<Rightarrow> child_tr" where
  "add_child_row visible k r =
    \<lparr>ch_html = (case r of Html h \<Rightarrow> h
       | Element name inner \<Rightarrow> if needs_row r then ''<'' @ name @ ''>'' @ inner @ ''</'' @ name @ ''>'' else inner),
     ch_class = add_class (class_words k) [], ch_span = visible\<rparr>"

definition remove_children :: "nat \<Rightarrow> body_node list \<Rightarrow> body_node list" where
  "remove_children i body = filter (\<lambda>x. case x of ChildNode j k \<Rightarrow> j \<noteq> i | _ \<Rightarrow> True) body"

text \<open>\<open>row._details.insertAfter(row.nTr)\<close> for n child rows\<close>

definition insert_children :: "nat \<Rightarrow> nat \<Rightarrow> body_node list \<Rightarrow> body_node list" where
  "insert_children i n body = concat (map (\<lambda>x. x # (if x = RowNode i then map (ChildNode i) [0..<n] else []))
     (remove_children i body))"

definition details_add :: "settings \<Rightarrow> nat \<Rightarrow> child_item list \<Rightarrow> string \<Rightarrow> details_state \<Rightarrow> details_state" where
  "details_add s i items klass d =
    (let trs = map (add_child_row (visibleColumns s) klass) items;
         d1 = (if rd_trs (ds_rows d ! i) \<noteq> None then d\<lparr>ds_body := remove_children i (ds_body d)\<rparr> else d);
         d2 = d1\<lparr>ds_rows := (ds_rows d1)[i := (ds_rows d1 ! i)\<lparr>rd_trs := Some trs\<rparr>]\<rparr>
     in if rd_shown (ds_rows d2 ! i) then d2\<lparr>ds_body := insert_children i (length trs) (ds_body d2)\<rparr> else d2)"

text \<open>The handler of the draw event on the elements that are in the body when it starts.\<close>

fun details_on_draw :: "body_node list \<Rightarrow> details_state \<Rightarrow> details_state js_res" where
  "details_on_draw [] d = Inr d"
| "details_on_draw (x # xs) d = (case x of
      RowNode i \<Rightarrow>
        if length (ds_rows d) \<le> i then Inl TypeError
        else if rd_shown (ds_rows d ! i)
          then (case rd_trs (ds_rows d ! i) of
              None \<Rightarrow> Inl TypeError
            | Some trs \<Rightarrow> details_on_draw xs (d\<lparr>ds_body := insert_children i (length trs) (ds_body d)\<rparr>))
          else details_on_draw xs d
    | _ \<Rightarrow> Inl TypeError)"

text \<open>The handler of the column visibility event.\<close>

definition details_on_visibility :: "settings \<Rightarrow> details_state \<Rightarrow> details_state" where
  "details_on_visibility s d = d\<lparr>ds_rows :=
     map (\<lambda>r. r\<lparr>rd_trs := map_option (map (ch_span_update (\<lambda>_. visibleColumns s))) (rd_trs r)\<rparr>) (ds_rows d)\<rparr>"

definition details_events :: "details_state \<Rightarrow> details_state" where
  "details_events d =
    (let hs = handlers_off ''column-visibility.DT_details'' (handlers_off ''draw.DT_details'' (ds_handlers d))
     in d\<lparr>ds_handlers := (if ds_rows d \<noteq> [] then hs @ [''draw.DT_details'', ''column-visibility.DT_details''] else hs)\<rparr>)"

text \<open>\<open>sel\<close> is the first row of the selection, if there is one.\<close>

definition details_display :: "bool \<Rightarrow> nat option \<Rightarrow> details_state \<Rightarrow> details_state js_res" where
  "details_display show sel d = (case sel of
      None \<Rightarrow> Inr d
    | Some i \<Rightarrow>
        if length (ds_rows d) \<le> i then Inl TypeError
        else (case rd_trs (ds_rows d ! i) of
            None \<Rightarrow> Inr d
          | Some trs \<Rightarrow>
              (let d1 = d\<lparr>ds_rows := (ds_rows d)[i := (ds_rows d ! i)\<lparr>rd_shown := show\<rparr>]\<rparr>
               in Inr (details_events (d1\<lparr>ds_body :=
                   (if show then insert_children i (length trs) (ds_body d1) else remove_children i (ds_body d1))\<rparr>)))))"

text \<open>\<open>row().child()\<close> with data, and without\<close>

definition child_set :: "settings \<Rightarrow> nat option \<Rightarrow> child_item list \<Rightarrow> string \<Rightarrow> details_state \<Rightarrow> details_state js_res" where
  "child_set s sel items klass d = (case sel of
      None \<Rightarrow> Inr d
    | Some i \<Rightarrow> if length (ds_rows d) \<le> i then Inl TypeError else Inr (details_add s i items klass d))"

definition child_get :: "nat option \<Rightarrow> details_state \<Rightarrow> child_tr list option js_res" where
  "child_get sel d = (case sel of
      None \<Rightarrow> Inr None
    | Some i \<Rightarrow> if length (ds_rows d) \<le> i then Inl TypeError else Inr (rd_trs (ds_rows d ! i)))"

definition isShown :: "nat option \<Rightarrow> details_state \<Rightarrow> bool js_res" where
  "isShown sel d = (case sel of
      None \<Rightarrow> Inr False
    | Some i \<Rightarrow> if length (ds_rows d) \<le> i then Inl TypeError else Inr (rd_shown (ds_rows d ! i)))"

text \<open>The end of a draw: the body is replaced, then the event fires.  Each handler bound for it that jQuery runs is one of
  \<open>__details_events\<close>.\<close>

definition body_nodes :: "tbody \<Rightarrow> body_node list" where
  "body_nodes b = (case b of Rows rows \<Rightarrow> map RowNode rows | EmptyMessage m \<Rightarrow> [MessageNode])"

definition details_drawn :: "tbody \<Rightarrow> details_state \<Rightarrow> details_state js_res" where
  "details_drawn b d =
    (let d1 = d\<lparr>ds_body := body_nodes b\<rparr>
     in js_foldM (\<lambda>h d. details_on_draw (ds_body d) d) (filter (event_runs (fired_event ''draw'')) (ds_handlers d1)) d1)"

text \<open>The end of \<open>setColumnVis\<close>, likewise.\<close>

definition details_column_vis :: "settings \<Rightarrow> details_state \<Rightarrow> details_state" where
  "details_column_vis s d =
    fold (\<lambda>h. details_on_visibility s) (filter (event_runs (fired_event ''column-visibility'')) (ds_handlers d)) d"

text \<open>A row is added at the end, or removed; the rows after it move down.\<close>

definition details_row_added :: "details_state \<Rightarrow> details_state" where
  "details_row_added d = d\<lparr>ds_rows := ds_rows d @ [\<lparr>rd_trs = None, rd_shown = False\<rparr>]\<rparr>"

definition node_removed :: "nat \<Rightarrow> body_node \<Rightarrow> body_node" where
  "node_removed i x = (case x of
      RowNode j \<Rightarrow> if j = i then OrphanNode else RowNode (if j > i then j - 1 else j)
    | ChildNode j k \<Rightarrow> if j = i then OrphanNode else ChildNode (if j > i then j - 1 else j) k
    | _ \<Rightarrow> x)"

definition details_row_removed :: "nat \<Rightarrow> details_state \<Rightarrow> details_state" where
  "details_row_removed i d = d\<lparr>ds_rows := take i (ds_rows d) @ drop (Suc i) (ds_rows d),
     ds_body := map (node_removed i) (ds_body d)\<rparr>"

section \<open>What the events run\<close>

text \<open>The handlers that can be bound, and those that are after child rows were shown or hidden.\<close>

definition handlers_ok :: "details_state \<Rightarrow> bool" where
  "handlers_ok d \<longleftrightarrow> set (ds_handlers d) \<subseteq> {''draw.DT_details'', ''column-visibility.DT_details''}"

lemma events_in_dt:
  "\<not> event_runs (fired_event ''draw'') ''draw.DT_details''"
  "\<not> event_runs (fired_event ''draw'') ''column-visibility.DT_details''"
  "\<not> event_runs (fired_event ''column-visibility'') ''draw.DT_details''"
  "\<not> event_runs (fired_event ''column-visibility'') ''column-visibility.DT_details''"
  by code_simp+

lemma no_handler_runs:
  assumes "handlers_ok d"
  shows "details_drawn b d = Inr (d\<lparr>ds_body := body_nodes b\<rparr>)" "details_column_vis s d = d"
proof -
  have "filter (event_runs (fired_event ''draw'')) (ds_handlers d) = []"
    "filter (event_runs (fired_event ''column-visibility'')) (ds_handlers d) = []"
    using assms events_in_dt unfolding handlers_ok_def by (auto simp: filter_empty_conv)
  then show "details_drawn b d = Inr (d\<lparr>ds_body := body_nodes b\<rparr>)" "details_column_vis s d = d"
    by (simp_all add: details_drawn_def details_column_vis_def)
qed

lemma details_events_ok: "handlers_ok d \<Longrightarrow> handlers_ok (details_events d)"
  by (auto simp: handlers_ok_def details_events_def Let_def handlers_off_def)

section \<open>The invariant\<close>

text \<open>The child rows of row \<open>i\<close> when they are in the body; \<open>A\<close> is the set of rows whose child rows were put there since
  the last draw.\<close>

definition child_nodes :: "details_state \<Rightarrow> nat set \<Rightarrow> nat \<Rightarrow> body_node list" where
  "child_nodes d A i = (if i \<in> A \<and> i < length (ds_rows d) \<and> rd_shown (ds_rows d ! i)
     then map (ChildNode i) [0..<length (the (rd_trs (ds_rows d ! i)))] else [])"

definition with_children :: "details_state \<Rightarrow> nat set \<Rightarrow> nat list \<Rightarrow> body_node list" where
  "with_children d A rows = concat (map (\<lambda>i. RowNode i # child_nodes d A i) rows)"

abbreviation no_orphans :: "body_node list \<Rightarrow> body_node list" where
  "no_orphans body \<equiv> filter (\<lambda>x. x \<noteq> OrphanNode) body"

definition body_ok :: "details_state \<Rightarrow> bool" where
  "body_ok d \<longleftrightarrow> ds_body d = [MessageNode] \<or>
    (\<exists>rows A. distinct rows \<and> (\<forall>i \<in> set rows. i < length (ds_rows d)) \<and> no_orphans (ds_body d) = with_children d A rows)"

definition details_ok :: "details_state \<Rightarrow> bool" where
  "details_ok d \<longleftrightarrow> handlers_ok d \<and> (\<forall>r \<in> set (ds_rows d). rd_shown r \<longrightarrow> rd_trs r \<noteq> None) \<and> body_ok d"

inductive details_step :: "details_state \<Rightarrow> details_state \<Rightarrow> bool" where
  child: "child_set s sel items klass d = Inr d' \<Longrightarrow> details_step d d'"
| display: "details_display show sel d = Inr d' \<Longrightarrow> details_step d d'"
| drawn: "details_drawn b d = Inr d' \<Longrightarrow> (\<And>rows. b = Rows rows \<Longrightarrow> distinct rows \<and> (\<forall>i \<in> set rows. i < length (ds_rows d))) \<Longrightarrow>
    details_step d d'"
| visibility: "details_step d (details_column_vis s d)"
| added: "details_step d (details_row_added d)"
| removed: "i < length (ds_rows d) \<Longrightarrow> details_step d (details_row_removed i d)"

text \<open>A body whose rows are followed by child rows of their own.\<close>

lemma remove_children_body:
  assumes "\<And>j. \<exists>ks. f j = map (ChildNode j) ks"
  shows "remove_children i (concat (map (\<lambda>j. RowNode j # f j) rows)) =
    concat (map (\<lambda>j. RowNode j # (if j = i then [] else f j)) rows)"
proof -
  have "filter (\<lambda>x. case x of ChildNode j' k \<Rightarrow> j' \<noteq> i | _ \<Rightarrow> True) (f j) = (if j = i then [] else f j)" for j
    using assms [of j] by (auto intro!: filter_True filter_False)
  then show ?thesis by (induction rows) (auto simp: remove_children_def)
qed

lemma insert_children_body:
  assumes "\<And>j. \<exists>ks. f j = map (ChildNode j) ks"
  shows "insert_children i n (concat (map (\<lambda>j. RowNode j # f j) rows)) =
    concat (map (\<lambda>j. RowNode j # (if j = i then map (ChildNode i) [0..<n] else f j)) rows)"
proof -
  have "concat (map (\<lambda>x. x # (if x = RowNode i then ys else [])) (f j)) = f j" for j ys
    using assms [of j] by (auto simp: comp_def)
  then show ?thesis
    unfolding insert_children_def remove_children_body [of f, OF assms] by (induction rows) auto
qed

lemma child_nodes_own: "\<exists>ks. child_nodes d A j = map (ChildNode j) ks"
  by (simp add: child_nodes_def) (metis list.map_disc_iff)

lemma children_no_orphans:
  "no_orphans (remove_children i body) = remove_children i (no_orphans body)"
  "no_orphans (insert_children i n body) = insert_children i n (no_orphans body)"
proof -
  have "no_orphans (concat (map (\<lambda>x. x # (if x = RowNode i then map (ChildNode i) [0..<n] else [])) xs)) =
      concat (map (\<lambda>x. x # (if x = RowNode i then map (ChildNode i) [0..<n] else [])) (no_orphans xs))" for xs
    by (induction xs) auto
  then show "no_orphans (insert_children i n body) = insert_children i n (no_orphans body)"
    by (simp add: insert_children_def remove_children_def conj_commute)
qed (simp add: remove_children_def conj_commute)

lemma with_children_cong:
  "(\<And>j. j \<in> set rows \<Longrightarrow> child_nodes d A j = child_nodes d' A' j) \<Longrightarrow> with_children d A rows = with_children d' A' rows"
  by (simp add: with_children_def cong: map_cong)

lemma no_orphans_with_children: "no_orphans (with_children d A rows) = with_children d A rows"
  by (auto simp: with_children_def child_nodes_def filter_id_conv split: if_splits)

lemma message_children [simp]: "insert_children i n [MessageNode] = [MessageNode]" "remove_children i [MessageNode] = [MessageNode]"
  by (simp_all add: insert_children_def remove_children_def)

lemma insert_after_remove: "insert_children i n (remove_children i body) = insert_children i n body"
  by (simp add: insert_children_def remove_children_def)

text \<open>Writing row \<open>i\<close> of the state and inserting or removing its child rows in the body.\<close>

lemma update_body_ok:
  assumes "body_ok d" "i < length (ds_rows d)" "ds_rows d' = (ds_rows d)[i := r]"
    and "ds_body d' = (if rd_shown r then insert_children i (length (the (rd_trs r))) (ds_body d) else remove_children i (ds_body d))"
  shows "body_ok d'"
proof -
  have row: "child_nodes d' (insert i A) j = (if j = i then (if rd_shown r then map (ChildNode i) [0..<length (the (rd_trs r))] else [])
      else child_nodes d A j)" for j A
    using assms(2,3) by (auto simp: child_nodes_def nth_list_update)
  have body: "with_children d' (insert i A) rows = (if rd_shown r then insert_children i (length (the (rd_trs r))) (with_children d A rows)
    else remove_children i (with_children d A rows))" for A rows
    unfolding with_children_def insert_children_body [OF child_nodes_own] remove_children_body [OF child_nodes_own]
    by (auto simp: row intro!: arg_cong [of _ _ concat] map_cong)
  from assms(1) show ?thesis
    unfolding body_ok_def
  proof (elim disjE exE conjE)
    fix rows A assume r: "distinct rows" "\<forall>i \<in> set rows. i < length (ds_rows d)" "no_orphans (ds_body d) = with_children d A rows"
    have "no_orphans (ds_body d') = with_children d' (insert i A) rows"
      by (simp add: assms(4) body children_no_orphans r(3))
    with r assms(3) show "ds_body d' = [MessageNode] \<or> (\<exists>rows A. distinct rows \<and> (\<forall>i \<in> set rows. i < length (ds_rows d')) \<and>
        no_orphans (ds_body d') = with_children d' A rows)" by (metis length_list_update)
  qed (simp add: assms(4))
qed

lemma update_rows_ok:
  "\<forall>r \<in> set rs. P r \<Longrightarrow> P r \<Longrightarrow> \<forall>x \<in> set (rs[i := r]). P x"
  using set_update_subset_insert by fastforce

lemma child_set_ok:
  assumes "details_ok d" "child_set s sel items klass d = Inr d'"
  shows "details_ok d'"
proof (cases sel)
  case (Some i)
  let ?r = "(ds_rows d ! i)\<lparr>rd_trs := Some (map (add_child_row (visibleColumns s) klass) items)\<rparr>"
  have i: "i < length (ds_rows d)" and d': "d' = details_add s i items klass d" using assms(2) Some by (auto simp: child_set_def split: if_splits)
  have rows: "ds_rows d' = (ds_rows d)[i := ?r]" and hs: "ds_handlers d' = ds_handlers d"
    using i by (auto simp: d' details_add_def Let_def)
  have "body_ok d'"
  proof (cases "rd_trs (ds_rows d ! i) = None \<and> \<not> rd_shown (ds_rows d ! i)")
    case False
    then have "ds_body d' = (if rd_shown ?r then insert_children i (length (the (rd_trs ?r))) (ds_body d) else remove_children i (ds_body d))"
      using i by (auto simp: d' details_add_def Let_def insert_after_remove)
    from update_body_ok [OF _ i rows this] show ?thesis using assms(1) by (simp add: details_ok_def)
  next
    case True
    then have "ds_body d' = ds_body d" using i by (simp add: d' details_add_def Let_def)
    moreover have "child_nodes d' A j = child_nodes d A j" for A j
      using True i by (cases "j = i") (simp_all add: rows child_nodes_def)
    then have "with_children d' = with_children d" by (intro ext with_children_cong)
    ultimately show ?thesis using assms(1) by (simp add: details_ok_def body_ok_def rows)
  qed
  then show ?thesis
    using assms(1) hs update_rows_ok [of "ds_rows d" "\<lambda>r. rd_shown r \<longrightarrow> rd_trs r \<noteq> None" ?r i]
    by (simp add: details_ok_def handlers_ok_def rows)
qed (use assms in \<open>simp add: child_set_def\<close>)

lemma details_display_shape:
  assumes "details_display show (Some i) d = Inr d'" "rd_trs (ds_rows d ! i) = Some trs"
  shows "i < length (ds_rows d)" "ds_rows d' = (ds_rows d)[i := (ds_rows d ! i)\<lparr>rd_shown := show\<rparr>]"
    "ds_body d' = (if show then insert_children i (length trs) (ds_body d) else remove_children i (ds_body d))"
    "handlers_ok d \<Longrightarrow> handlers_ok d'"
proof -
  from assms(1) show i: "i < length (ds_rows d)" by (auto simp: details_display_def split: if_splits)
  have d': "d' = details_events (d\<lparr>ds_rows := (ds_rows d)[i := (ds_rows d ! i)\<lparr>rd_shown := show\<rparr>],
      ds_body := (if show then insert_children i (length trs) (ds_body d) else remove_children i (ds_body d))\<rparr>)"
    using assms i by (auto simp: details_display_def Let_def)
  show "ds_rows d' = (ds_rows d)[i := (ds_rows d ! i)\<lparr>rd_shown := show\<rparr>]"
    "ds_body d' = (if show then insert_children i (length trs) (ds_body d) else remove_children i (ds_body d))"
    by (simp_all add: d' details_events_def Let_def)
  show "handlers_ok d \<Longrightarrow> handlers_ok d'" unfolding d' by (rule details_events_ok) (simp add: handlers_ok_def)
qed

lemma details_display_ok:
  assumes "details_ok d" "details_display show sel d = Inr d'"
  shows "details_ok d'"
proof (cases "sel = None \<or> rd_trs (ds_rows d ! the sel) = None")
  case False
  then obtain i trs where i: "sel = Some i" "rd_trs (ds_rows d ! i) = Some trs" by auto
  let ?r = "(ds_rows d ! i)\<lparr>rd_shown := show\<rparr>"
  note sh = details_display_shape [OF assms(2) [unfolded i(1)] i(2)]
  have "body_ok d'" by (rule update_body_ok [OF _ sh(1,2)]) (use assms(1) sh(3) i in \<open>auto simp: details_ok_def\<close>)
  then show ?thesis
    using assms(1) sh(2,4) i update_rows_ok [of "ds_rows d" "\<lambda>r. rd_shown r \<longrightarrow> rd_trs r \<noteq> None" ?r i]
    by (simp add: details_ok_def)
qed (use assms in \<open>auto simp: details_display_def split: if_splits option.splits\<close>)

lemma details_drawn_ok:
  assumes "details_ok d" "details_drawn b d = Inr d'"
    "\<And>rows. b = Rows rows \<Longrightarrow> distinct rows \<and> (\<forall>i \<in> set rows. i < length (ds_rows d))"
  shows "details_ok d'"
proof -
  have d': "d' = d\<lparr>ds_body := body_nodes b\<rparr>"
    using assms(1,2) no_handler_runs(1) [of d b] by (simp add: details_ok_def)
  have "body_ok d'"
  proof (cases b)
    case (Rows rows)
    have "with_children d' {} rows = map RowNode rows" by (induction rows) (simp_all add: with_children_def child_nodes_def)
    then have "no_orphans (ds_body d') = with_children d' {} rows" by (auto simp: d' Rows body_nodes_def filter_id_conv)
    with assms(3) [OF Rows] show ?thesis unfolding body_ok_def d' by auto
  qed (simp add: body_ok_def d' body_nodes_def)
  with assms(1) show ?thesis by (simp add: details_ok_def handlers_ok_def d')
qed

lemma details_row_added_ok:
  assumes "details_ok d" shows "details_ok (details_row_added d)"
proof -
  let ?d = "details_row_added d"
  have child: "child_nodes ?d (A \<inter> {..<length (ds_rows d)}) j = child_nodes d A j" for A j
    by (auto simp: details_row_added_def child_nodes_def nth_append)
  then have "with_children ?d (A \<inter> {..<length (ds_rows d)}) rows = with_children d A rows" for A rows by (intro with_children_cong)
  moreover have "ds_body ?d = ds_body d" "length (ds_rows ?d) = Suc (length (ds_rows d))" by (simp_all add: details_row_added_def)
  ultimately have "body_ok ?d" using assms unfolding details_ok_def body_ok_def by (metis less_SucI)
  with assms show ?thesis by (auto simp: details_ok_def handlers_ok_def details_row_added_def)
qed

lemma node_removed_simps:
  "node_removed i (RowNode j) = (if j = i then OrphanNode else RowNode (if j > i then j - 1 else j))"
  "node_removed i (ChildNode j k) = (if j = i then OrphanNode else ChildNode (if j > i then j - 1 else j) k)"
  "node_removed i MessageNode = MessageNode" "node_removed i OrphanNode = OrphanNode"
  by (simp_all add: node_removed_def)

lemma details_row_removed_ok:
  assumes ok: "details_ok d" and i: "i < length (ds_rows d)"
  shows "details_ok (details_row_removed i d)"
proof -
  let ?d = "details_row_removed i d" let ?dec = "\<lambda>j. if j > i then j - 1 else j"
  have nth: "ds_rows ?d ! ?dec j = ds_rows d ! j \<and> (?dec j < length (ds_rows ?d) \<longleftrightarrow> j < length (ds_rows d))" if "j \<noteq> i" for j
    using i that by (auto simp: details_row_removed_def nth_append min_def)
  have inj: "inj_on ?dec {j. j \<noteq> i}" by (auto simp: inj_on_def)
  have mem: "?dec j \<in> ?dec ` (A - {i}) \<longleftrightarrow> j \<in> A" if "j \<noteq> i" for A j
  proof -
    have "A - {i} \<subseteq> {j. j \<noteq> i}" by auto
    from inj_on_image_mem_iff [OF inj _ this, of j] that show ?thesis by simp
  qed
  have child: "no_orphans (map (node_removed i) (child_nodes d A j)) = (if j = i then [] else child_nodes ?d (?dec ` (A - {i})) (?dec j))" for A j
    using nth [of j] mem [of j A] by (auto simp: child_nodes_def node_removed_def comp_def)
  have body: "no_orphans (map (node_removed i) (with_children d A rows)) =
      with_children ?d (?dec ` (A - {i})) (map ?dec (filter (\<lambda>j. j \<noteq> i) rows))" for A rows
  proof (induction rows)
    case (Cons j rows)
    then show ?case using child [of A j] by (simp add: with_children_def node_removed_simps)
  qed (simp add: with_children_def)
  have skip: "no_orphans (map (node_removed i) xs) = no_orphans (map (node_removed i) (no_orphans xs))" for xs
    by (induction xs) (auto simp: node_removed_simps)
  have body_d: "ds_body ?d = map (node_removed i) (ds_body d)" by (simp add: details_row_removed_def)
  have "body_ok ?d"
  proof (cases "ds_body d = [MessageNode]")
    case False
    with ok obtain rows A where r: "distinct rows" "\<forall>j \<in> set rows. j < length (ds_rows d)"
      "no_orphans (ds_body d) = with_children d A rows" by (auto simp: details_ok_def body_ok_def)
    have "distinct (map ?dec (filter (\<lambda>j. j \<noteq> i) rows))"
      using r(1) inj by (simp add: distinct_map inj_on_def)
    moreover have "\<forall>j \<in> set (map ?dec (filter (\<lambda>j. j \<noteq> i) rows)). j < length (ds_rows ?d)"
    proof
      fix x assume "x \<in> set (map ?dec (filter (\<lambda>j. j \<noteq> i) rows))"
      then obtain j where "j \<in> set rows" "j \<noteq> i" "x = ?dec j" by auto
      with nth [of j] r(2) show "x < length (ds_rows ?d)" by blast
    qed
    moreover have "no_orphans (ds_body ?d) = with_children ?d (?dec ` (A - {i})) (map ?dec (filter (\<lambda>j. j \<noteq> i) rows))"
      using skip [of "ds_body d"] body [of A rows] r(3) body_d by simp
    ultimately show ?thesis unfolding body_ok_def by blast
  qed (simp add: body_ok_def body_d node_removed_simps)
  with ok show ?thesis
    by (auto simp: details_ok_def handlers_ok_def details_row_removed_def dest: in_set_takeD in_set_dropD)
qed

lemma details_step_ok: "details_step d d' \<Longrightarrow> details_ok d \<Longrightarrow> details_ok d'"
proof (induction rule: details_step.induct)
  case (drawn b d d')
  then show ?case using details_drawn_ok by blast
next
  case (visibility d s)
  then show ?case using no_handler_runs(2) [of d s] by (simp add: details_ok_def)
qed (blast intro: child_set_ok details_display_ok details_row_added_ok details_row_removed_ok)+

definition details_init :: "nat \<Rightarrow> details_state" where
  "details_init n = \<lparr>ds_rows = replicate n \<lparr>rd_trs = None, rd_shown = False\<rparr>, ds_body = [], ds_handlers = []\<rparr>"

lemma details_init_ok: "details_ok (details_init n)"
  unfolding details_ok_def body_ok_def handlers_ok_def
  by (auto simp: details_init_def with_children_def intro!: exI [of _ "[]"])

lemma details_reachable_ok: "details_step\<^sup>*\<^sup>* (details_init n) d \<Longrightarrow> details_ok d"
  by (induction rule: rtranclp_induct) (auto intro: details_step_ok details_init_ok)

section \<open>Properties\<close>

text \<open>The child rows right below row \<open>i\<close> in a body.\<close>

definition children_below :: "nat \<Rightarrow> body_node list \<Rightarrow> body_node list" where
  "children_below i body = takeWhile (\<lambda>x. case x of ChildNode j k \<Rightarrow> True | _ \<Rightarrow> False) (tl (dropWhile (\<lambda>x. x \<noteq> RowNode i) body))"

lemma children_below_body:
  assumes "\<And>j. \<exists>ks. f j = map (ChildNode j) ks" "i \<in> set rows"
  shows "children_below i (concat (map (\<lambda>j. RowNode j # f j) rows)) = f i"
  using assms(2)
proof (induction rows)
  case (Cons j rows)
  have skip: "dropWhile (\<lambda>x. x \<noteq> RowNode i) (f j @ xs) = dropWhile (\<lambda>x. x \<noteq> RowNode i) xs" for xs
    using assms(1) [of j] by (auto intro!: dropWhile_append2)
  have own: "takeWhile (\<lambda>x. case x of ChildNode j k \<Rightarrow> True | _ \<Rightarrow> False) (f i @ concat (map (\<lambda>j. RowNode j # f j) rows)) = f i"
  proof -
    obtain ks where "f i = map (ChildNode i) ks" using assms(1) by blast
    then show ?thesis by (subst takeWhile_append2) (auto split: list.split, cases rows, auto)
  qed
  show ?case
  proof (cases "j = i")
    case True
    with own show ?thesis by (simp add: children_below_def)
  next
    case False
    with Cons skip show ?thesis by (simp add: children_below_def)
  qed
qed simp


text \<open>C33: a draw takes the child rows of every row off the page although they are still said to be shown, and a change
  of column visibility leaves the width of their cells: the handlers that are meant to put them back and to adjust them
  are bound in the namespace \<open>DT_details\<close>, the events are triggered in the namespace \<open>dt\<close>, and so they never run.  Showing
  the child rows again puts them back.\<close>

theorem redraw_loses_child_rows:
  assumes "details_step\<^sup>*\<^sup>* (details_init n) d" "distinct rows" "list_all (\<lambda>i. i < length (ds_rows d)) rows"
  shows "\<exists>d'. details_drawn (Rows rows) d = Inr d' \<and> ds_body d' = map RowNode rows \<and>
    (\<forall>i. isShown (Some i) d' = isShown (Some i) d \<and> child_get (Some i) d' = child_get (Some i) d) \<and>
    details_column_vis s d = d \<and>
    (\<forall>i trs d''. i \<in> set rows \<and> rd_trs (ds_rows d ! i) = Some trs \<and> details_display True (Some i) d' = Inr d'' \<longrightarrow>
      children_below i (ds_body d'') = map (ChildNode i) [0..<length trs])"
proof -
  have hs: "handlers_ok d" using details_reachable_ok [OF assms(1)] by (simp add: details_ok_def)
  let ?d' = "d\<lparr>ds_body := map RowNode rows\<rparr>"
  have "details_drawn (Rows rows) d = Inr ?d'" using no_handler_runs(1) [OF hs, of "Rows rows"] by (simp add: body_nodes_def)
  moreover have "children_below i (ds_body d'') = map (ChildNode i) [0..<length trs]"
    if "i \<in> set rows" "rd_trs (ds_rows d ! i) = Some trs" "details_display True (Some i) ?d' = Inr d''" for i trs d''
  proof -
    have "ds_body d'' = insert_children i (length trs) (concat (map (\<lambda>j. RowNode j # []) rows))"
      using details_display_shape(3) [OF that(3)] that(2) by (simp add: concat_map_singleton)
    also have "\<dots> = concat (map (\<lambda>j. RowNode j # (if j = i then map (ChildNode i) [0..<length trs] else [])) rows)"
      by (rule insert_children_body) simp
    also have "children_below i \<dots> = (if i = i then map (ChildNode i) [0..<length trs] else [])"
      by (rule children_below_body [OF _ that(1)]) auto
    finally show ?thesis by simp
  qed
  ultimately show ?thesis using no_handler_runs(2) [OF hs] by (intro exI [of _ ?d']) (auto simp: isShown_def child_get_def)
qed

text \<open>A TR given as a child row is not used as it is: the comparison of node names never holds.\<close>

theorem child_tr_wrapped: "needs_row (Element ''TR'' inner) \<and> needs_row (Element ''tr'' inner)"
proof -
  have "map upper_char ''TR'' = ''TR''" "map upper_char ''tr'' = ''TR''" by code_simp+
  then show ?thesis by (simp add: needs_row_def)
qed

text \<open>Three rows drawn, the second with two child rows that are shown.\<close>

definition opened :: "details_state" where
  "opened = (case js_bind (js_bind (details_drawn (Rows [2, 1, 0]) (details_init 3))
      (child_set (small_table 2 []) (Some 1) [Html ''a'', Html ''b''] [])) (details_display True (Some 1)) of
    Inr d \<Rightarrow> d | Inl e \<Rightarrow> details_init 3)"

lemma opened_reachable: "details_step\<^sup>*\<^sup>* (details_init 3) opened"
proof -
  have "handlers_ok (details_init 3)" by (simp add: handlers_ok_def details_init_def)
  then obtain d1 where d1: "details_drawn (Rows [2, 1, 0]) (details_init 3) = Inr d1" and l: "length (ds_rows d1) = 3"
    using no_handler_runs(1) [of "details_init 3" "Rows [2, 1, 0]"] by (simp add: details_init_def)
  obtain d2 where d2: "child_set (small_table 2 []) (Some 1) [Html ''a'', Html ''b''] [] d1 = Inr d2"
    and l2: "length (ds_rows d2) = 3" "rd_trs (ds_rows d2 ! 1) \<noteq> None"
    using l by (simp add: child_set_def details_add_def Let_def)
  obtain d3 where d3: "details_display True (Some 1) d2 = Inr d3"
    using l2 by (auto simp: details_display_def)
  have "details_step (details_init 3) d1" by (rule details_step.drawn [OF d1]) (auto simp: details_init_def)
  moreover have "details_step d1 d2" by (rule details_step.child [OF d2])
  moreover have "details_step d2 d3" by (rule details_step.display [OF d3])
  moreover have "opened = d3" by (simp only: opened_def d1 d2 d3 js_bind_simps sum.case)
  ultimately show ?thesis by (metis rtranclp.rtrancl_into_rtrancl rtranclp.rtrancl_refl)
qed

lemma opened_state: "ds_body opened = [RowNode 2, RowNode 1, ChildNode 1 0, ChildNode 1 1, RowNode 0]" "length (ds_rows opened) = 3"
  "isShown (Some 1) opened = Inr True" "map_option length (rd_trs (ds_rows opened ! 1)) = Some 2"
  by code_simp+


theorem redraw_loses_child_rows_witness:
  "\<exists>d'. details_drawn (Rows [1, 2]) opened = Inr d' \<and> ds_body d' = [RowNode 1, RowNode 2] \<and> isShown (Some 1) d' = Inr True"
  using redraw_loses_child_rows [OF opened_reachable, of "[1, 2]" "small_table 2 []"] opened_state by auto

end
