(* ===== verification/Ng_Url.thy ===== *)
theory Ng_Url
  imports Rest_Client
begin

text \<open>
  URL text of AngularJS (public/bower_components/angular/angular.js): encoding of path segments and of
  query strings (\<open>encodeUriSegment\<close>, \<open>encodeUriQuery\<close>, \<open>toKeyValue\<close>), and reading them back
  (\<open>tryDecodeURIComponent\<close>, \<open>parseKeyValue\<close>).  The order of object keys is the order of insertion; keys that
  look like array indexes, which JavaScript enumerates first, are not treated apart.
\<close>

section \<open>Decoding\<close>

text \<open>Well-formed UTF-8: \<open>decodeURIComponent\<close> refuses everything else.\<close>

definition cont_byte :: "char \<Rightarrow> bool" where
  "cont_byte c \<longleftrightarrow> (128 :: nat) \<le> of_char c \<and> of_char c < (192 :: nat)"

fun utf8_ok :: "string \<Rightarrow> bool" where
  "utf8_ok [] = True"
| "utf8_ok (a # s) =
    (let n = of_char a :: nat
     in if n < 128 then utf8_ok s
        else case s of
          b # r \<Rightarrow>
            (let m = of_char b :: nat
             in if 194 \<le> n \<and> n < 224 then cont_byte b \<and> utf8_ok r
                else case r of
                  c # q \<Rightarrow>
                    if 224 \<le> n \<and> n < 240
                    then cont_byte b \<and> (n = 224 \<longrightarrow> 160 \<le> m) \<and> (n = 237 \<longrightarrow> m < 160) \<and> cont_byte c \<and> utf8_ok q
                    else (case q of
                        d # t \<Rightarrow> 240 \<le> n \<and> n < 245 \<and> cont_byte b \<and> (n = 240 \<longrightarrow> 144 \<le> m) \<and> (n = 244 \<longrightarrow> m < 144) \<and>
                          cont_byte c \<and> cont_byte d \<and> utf8_ok t
                      | [] \<Rightarrow> False)
                | [] \<Rightarrow> False)
        | [] \<Rightarrow> False)"

definition decodeURIComponent :: "string \<Rightarrow> string option" where
  "decodeURIComponent s = (case uri_decode s of Some t \<Rightarrow> if utf8_ok t then Some t else None | None \<Rightarrow> None)"

section \<open>Encoding\<close>

text \<open>\<open>s.replace(/%XY/gi, r)\<close> where XY are the hex digits of \<open>n\<close>.\<close>

fun replace_escape :: "nat \<Rightarrow> string \<Rightarrow> string \<Rightarrow> string" where
  "replace_escape n r (p # a # b # s) =
    (if p = CHR ''%'' \<and> hex_val a = Some (n div 16) \<and> hex_val b = Some (n mod 16) then r @ replace_escape n r s
     else p # replace_escape n r (a # b # s))"
| "replace_escape n r s = s"

definition encodeUriQuery :: "string \<Rightarrow> bool \<Rightarrow> string" where
  "encodeUriQuery val pctEncodeSpaces =
    replace_escape 0x20 (if pctEncodeSpaces then ''%20'' else ''+'')
    (replace_escape 0x2C '',''
    (replace_escape 0x24 ''$''
    (replace_escape 0x3A '':''
    (replace_escape 0x40 ''@'' (encodeURIComponent val)))))"

definition encodeUriSegment :: "string \<Rightarrow> string" where
  "encodeUriSegment val =
    replace_escape 0x2B ''+'' (replace_escape 0x3D ''='' (replace_escape 0x26 ''&'' (encodeUriQuery val True)))"

fun js_join_chars :: "string \<Rightarrow> string list \<Rightarrow> string" where
  "js_join_chars sep [] = []"
| "js_join_chars sep [x] = x"
| "js_join_chars sep (x # xs) = x @ sep @ js_join_chars sep xs"

definition encodePath :: "string \<Rightarrow> string" where
  "encodePath path = js_join_chars ''/'' (map encodeUriSegment (split_on (CHR ''/'') path))"

section \<open>Query strings\<close>

text \<open>Values of a search object: text, the value of a key without one, text that could not be decoded; and
  arrays of them.\<close>

datatype search_atom = AStr string | ATrue | AUndef

datatype search_val = One search_atom | Many "search_atom list"

text \<open>\<open>obj[key] = val\<close>; a value that is no object is not stored under \<open>__proto__\<close>.\<close>

definition put_search :: "string \<Rightarrow> search_atom \<Rightarrow> search_val js_obj \<Rightarrow> search_val js_obj" where
  "put_search key val obj = (if key = ''__proto__'' then obj else
    case js_get obj key of
      None \<Rightarrow> obj @ [(key, One val)]
    | Some (Many vs) \<Rightarrow> map (\<lambda>(k, v). (k, if k = key then Many (vs @ [val]) else v)) obj
    | Some (One v0) \<Rightarrow> map (\<lambda>(k, v). (k, if k = key then Many [v0, val] else v)) obj)"

definition plus_escaped :: "string \<Rightarrow> string" where
  "plus_escaped s = concat (map (\<lambda>c. if c = CHR ''+'' then ''%20'' else [c]) s)"

definition parse_pair :: "string \<Rightarrow> search_val js_obj \<Rightarrow> search_val js_obj" where
  "parse_pair keyValue obj = (if keyValue = [] then obj else
    case split_on (CHR ''='') (plus_escaped keyValue) of
      [] \<Rightarrow> obj
    | k # vs \<Rightarrow> (case decodeURIComponent k of
          None \<Rightarrow> obj
        | Some key \<Rightarrow> put_search key (case vs of
              [] \<Rightarrow> ATrue
            | v # _ \<Rightarrow> (case decodeURIComponent v of Some t \<Rightarrow> AStr t | None \<Rightarrow> AUndef)) obj))"

definition parseKeyValue :: "string \<Rightarrow> search_val js_obj" where
  "parseKeyValue keyValue = fold parse_pair (split_on (CHR ''&'') keyValue) []"

text \<open>\<open>forEach\<close> on an object calls a member \<open>forEach\<close> that is truthy, and the member \<open>hasOwnProperty\<close> for every
  key: an own key of that name is no function.\<close>

definition truthy_val :: "search_val \<Rightarrow> bool" where
  "truthy_val v = (case v of One (AStr s) \<Rightarrow> s \<noteq> [] | One ATrue \<Rightarrow> True | One AUndef \<Rightarrow> False | Many vs \<Rightarrow> True)"

definition forEach_keys :: "search_val js_obj \<Rightarrow> search_val js_obj js_res" where
  "forEach_keys obj =
    (if (case js_get obj ''forEach'' of Some v \<Rightarrow> truthy_val v | None \<Rightarrow> False) then Inl TypeError
     else if js_get obj ''hasOwnProperty'' \<noteq> None then Inl TypeError
     else Inr obj)"

definition atom_part :: "string \<Rightarrow> search_atom \<Rightarrow> string" where
  "atom_part key a = encodeUriQuery key True @ (case a of
      ATrue \<Rightarrow> [] | AStr s \<Rightarrow> ''='' @ encodeUriQuery s True | AUndef \<Rightarrow> ''='' @ encodeUriQuery ''undefined'' True)"

definition val_parts :: "string \<times> search_val \<Rightarrow> string list" where
  "val_parts kv = (case snd kv of One a \<Rightarrow> [atom_part (fst kv) a] | Many as' \<Rightarrow> map (atom_part (fst kv)) as')"

definition toKeyValue :: "search_val js_obj \<Rightarrow> string js_res" where
  "toKeyValue obj = js_bind (forEach_keys obj) (\<lambda>kvs. Inr (js_join_chars ''&'' (concat (map val_parts kvs))))"

section \<open>Encoded text, character by character\<close>

text \<open>A piece of encoded text: one plain character, or one escape.\<close>

definition block :: "string \<Rightarrow> bool" where
  "block w \<longleftrightarrow> (\<exists>c. w = [c] \<and> c \<noteq> CHR ''%'') \<or>
    (\<exists>a b. w = [CHR ''%'', a, b] \<and> a \<noteq> CHR ''%'' \<and> b \<noteq> CHR ''%'')"

definition escapes :: "nat \<Rightarrow> string \<Rightarrow> bool" where
  "escapes n w \<longleftrightarrow> (\<exists>a b. w = [CHR ''%'', a, b] \<and> hex_val a = Some (n div 16) \<and> hex_val b = Some (n mod 16))"

lemma replace_escape_plain: "c \<noteq> CHR ''%'' \<Longrightarrow> replace_escape n r (c # s) = c # replace_escape n r s"
  by (cases s; cases "tl s") auto

lemma replace_escape_block:
  assumes "block w"
  shows "replace_escape n r (w @ s) = (if escapes n w then r else w) @ replace_escape n r s"
  using assms by (auto simp: block_def escapes_def replace_escape_plain)

lemma replace_escape_blocks:
  "(\<And>c. block (f c)) \<Longrightarrow>
    replace_escape n r (concat (map f s)) = concat (map (\<lambda>c. if escapes n (f c) then r else f c) s)"
  by (induction s) (simp_all add: replace_escape_block)

lemma hex_char_not_percent:
  assumes "d < 16" shows "hex_char d \<noteq> CHR ''%''"
proof
  assume "hex_char d = CHR ''%''"
  with hex_val_hex_char [OF assms] show False by (simp add: hex_val_def)
qed

lemma encode_char_block: "block (encode_char c)"
proof (cases "unreserved c")
  case True
  then have "c \<noteq> CHR ''%''" by (auto simp: unreserved_def)
  with True show ?thesis by (simp add: block_def encode_char_def)
qed (use of_char_nibbles in \<open>simp add: block_def encode_char_def hex_char_not_percent\<close>)

text \<open>An encoded character is an escape of its code only.\<close>

lemma escapes_encode_char: "escapes n (encode_char c) \<longleftrightarrow> \<not> unreserved c \<and> n = of_char c"
proof (cases "unreserved c")
  case False
  have "escapes n (encode_char c) \<longleftrightarrow> of_char c div 16 = n div 16 \<and> of_char c mod 16 = n mod 16"
    using False of_char_nibbles [of c] by (simp add: escapes_def encode_char_def hex_val_hex_char)
  also have "\<dots> \<longleftrightarrow> n = of_char c" by (metis div_mult_mod_eq)
  finally show ?thesis using False by simp
qed (simp add: escapes_def encode_char_def)

text \<open>Everything is encoded but the characters of K.\<close>

definition enc_but :: "char set \<Rightarrow> char \<Rightarrow> string" where
  "enc_but K c = (if c \<in> K then [c] else encode_char c)"

lemma enc_but_block: "CHR ''%'' \<notin> K \<Longrightarrow> block (enc_but K c)"
  by (auto simp: enc_but_def encode_char_block) (auto simp: block_def)

lemma escapes_enc_but: "escapes n (enc_but K c) \<longleftrightarrow> c \<notin> K \<and> \<not> unreserved c \<and> n = of_char c"
  by (auto simp: enc_but_def escapes_encode_char) (auto simp: escapes_def)

lemma replace_escape_enc_but:
  assumes "CHR ''%'' \<notin> K" "k \<noteq> CHR ''%''" "n = of_char k"
  shows "replace_escape n [k] (concat (map (enc_but K) s)) = concat (map (enc_but (insert k K)) s)"
proof -
  have "(if escapes n (enc_but K c) then [k] else enc_but K c) = enc_but (insert k K) c" for c
  proof (cases "c = k")
    case True
    then show ?thesis using assms(3) by (cases "unreserved k") (simp_all add: escapes_enc_but, simp_all add: enc_but_def encode_char_def)
  next
    case False
    then have "of_char k \<noteq> (of_char c :: nat)" by (metis of_char_eq_iff)
    with False assms(3) show ?thesis by (simp add: escapes_enc_but) (simp add: enc_but_def)
  qed
  then show ?thesis by (simp add: replace_escape_blocks enc_but_block assms(1))
qed

definition query_plain :: "char set" where
  "query_plain = set ''@:$,''"

definition segment_plain :: "char set" where
  "segment_plain = set ''@:$,&=+''"

lemma encodeUriQuery_chars: "encodeUriQuery s True = concat (map (enc_but query_plain) s)"
proof -
  have start: "encodeURIComponent s = concat (map (enc_but {}) s)" by (simp add: encodeURIComponent_def enc_but_def [abs_def])
  have K: "insert (CHR '','') (insert (CHR ''$'') (insert (CHR '':'') (insert (CHR ''@'') {}))) = query_plain"
    by (auto simp: query_plain_def)
  have sp: "enc_but query_plain (CHR '' '') = ''%20''" by code_simp
  have same: "(if escapes 0x20 (enc_but query_plain c) then ''%20'' else enc_but query_plain c) = enc_but query_plain c" for c
  proof (cases "c = CHR '' ''")
    case False
    then have "of_char c \<noteq> (0x20 :: nat)" using of_char_eq_iff [of c "CHR '' ''", where 'a = nat] by simp
    then show ?thesis by (simp add: escapes_enc_but)
  qed (simp add: sp)
  have "block (enc_but query_plain c)" for c by (rule enc_but_block) (simp add: query_plain_def)
  then have space: "replace_escape 0x20 ''%20'' (concat (map (enc_but query_plain) s)) = concat (map (enc_but query_plain) s)"
    by (simp add: replace_escape_blocks same)
  show ?thesis
    unfolding encodeUriQuery_def start by (simp add: replace_escape_enc_but K space)
qed

lemma encodeUriSegment_chars: "encodeUriSegment s = concat (map (enc_but segment_plain) s)"
proof -
  have "insert (CHR ''+'') (insert (CHR ''='') (insert (CHR ''&'') query_plain)) = segment_plain"
    by (auto simp: query_plain_def segment_plain_def)
  then show ?thesis
    unfolding encodeUriSegment_def encodeUriQuery_chars by (simp add: replace_escape_enc_but query_plain_def)
qed

section \<open>Reading encoded text back\<close>

text \<open>An encoder of single characters that a query string can be read from.\<close>

definition query_encoder :: "(char \<Rightarrow> string) \<Rightarrow> bool" where
  "query_encoder f \<longleftrightarrow> (\<forall>c t. uri_decode (f c @ t) = map_option (Cons c) (uri_decode t)) \<and>
    (\<forall>c. f c \<noteq> [] \<and> CHR ''+'' \<notin> set (f c) \<and> CHR ''='' \<notin> set (f c) \<and> CHR ''&'' \<notin> set (f c))"

lemma uri_decode_blocks:
  assumes "\<And>c t. uri_decode (f c @ t) = map_option (Cons c) (uri_decode t)"
  shows "uri_decode (concat (map f s)) = Some s"
proof -
  have "uri_decode (concat (map f s) @ t) = map_option (append s) (uri_decode t)" for t
    by (induction s) (simp_all add: assms option.map_comp o_def option.map_ident)
  from this [of "[]"] show ?thesis by simp
qed

lemma decode_blocks: "query_encoder f \<Longrightarrow> utf8_ok s \<Longrightarrow> decodeURIComponent (concat (map f s)) = Some s"
  by (simp add: decodeURIComponent_def uri_decode_blocks query_encoder_def)

lemma decode_enc_but: "CHR ''%'' \<notin> K \<Longrightarrow> uri_decode (enc_but K c @ t) = map_option (Cons c) (uri_decode t)"
  by (auto simp: enc_but_def uri_decode_encode_char)

lemma hex_char_unreserved:
  assumes "d < 16" shows "unreserved (hex_char d)"
proof -
  have "list_all (\<lambda>d. unreserved (hex_char d)) [0..<16]" by code_simp
  with assms show ?thesis by (simp add: list_all_iff)
qed

lemma encode_char_chars: "x \<in> set (encode_char c) \<Longrightarrow> unreserved x \<or> x = CHR ''%''"
proof -
  assume x: "x \<in> set (encode_char c)"
  with of_char_nibbles [of c] show ?thesis by (auto simp: encode_char_def hex_char_unreserved split: if_splits)
qed

lemma enc_but_chars: "x \<in> set (enc_but K c) \<Longrightarrow> unreserved x \<or> x = CHR ''%'' \<or> x \<in> K"
  using encode_char_chars by (auto simp: enc_but_def split: if_splits)

text \<open>The encoder of \<open>encodeUriQuery\<close>; with \<open>q\<close> the one that also escapes the apostrophe, as browsers do in
  the query of an address.\<close>

definition query_char :: "bool \<Rightarrow> char \<Rightarrow> string" where
  "query_char q c = (if q \<and> c = CHR 0x27 then ''%27'' else enc_but query_plain c)"

lemma query_char_encoder: "query_encoder (query_char q)"
proof -
  have dec: "uri_decode (query_char q c @ t) = map_option (Cons c) (uri_decode t)" for c t
  proof (cases "q \<and> c = CHR 0x27")
    case True
    have "hex_val (CHR ''2'') = Some 2" "hex_val (CHR ''7'') = Some 7" "char_of (39 :: nat) = CHR 0x27" by code_simp+
    with True show ?thesis by (simp add: query_char_def)
  qed (auto simp: query_char_def query_plain_def intro!: decode_enc_but)
  have chars: "x \<in> set (query_char q c) \<Longrightarrow> unreserved x \<or> x = CHR ''%'' \<or> x \<in> query_plain" for x c
    using enc_but_chars [of x query_plain c] by (auto simp: query_char_def unreserved_def split: if_splits)
  have "query_char q c \<noteq> []" for c by (simp add: query_char_def enc_but_def encode_char_def)
  moreover have "CHR ''+'' \<notin> set (query_char q c)" "CHR ''='' \<notin> set (query_char q c)" "CHR ''&'' \<notin> set (query_char q c)" for c
    using chars by (fastforce simp: unreserved_def query_plain_def)+
  ultimately show ?thesis using dec by (simp add: query_encoder_def)
qed

section \<open>Query strings read back\<close>

text \<open>The parts of a query string, written with a given encoder.\<close>

definition atom_text :: "search_atom \<Rightarrow> string option" where
  "atom_text a = (case a of ATrue \<Rightarrow> None | AStr s \<Rightarrow> Some s | AUndef \<Rightarrow> Some ''undefined'')"

definition coded_part :: "(char \<Rightarrow> string) \<Rightarrow> string \<Rightarrow> search_atom \<Rightarrow> string" where
  "coded_part f key a = concat (map f key) @
    (case atom_text a of None \<Rightarrow> [] | Some s \<Rightarrow> CHR ''='' # concat (map f s))"

definition coded_parts :: "(char \<Rightarrow> string) \<Rightarrow> string \<times> search_val \<Rightarrow> string list" where
  "coded_parts f kv = (case snd kv of One a \<Rightarrow> [coded_part f (fst kv) a] | Many as' \<Rightarrow> map (coded_part f (fst kv)) as')"

definition coded_query :: "(char \<Rightarrow> string) \<Rightarrow> search_val js_obj \<Rightarrow> string" where
  "coded_query f obj = js_join_chars ''&'' (concat (map (coded_parts f) obj))"

text \<open>What a query string can express: distinct keys, decoded text, a key for a value without text, arrays of
  two or more.\<close>

definition atom_ok :: "string \<Rightarrow> search_atom \<Rightarrow> bool" where
  "atom_ok key a = (case a of AStr s \<Rightarrow> utf8_ok s | ATrue \<Rightarrow> key \<noteq> [] | AUndef \<Rightarrow> False)"

definition search_ok :: "search_val js_obj \<Rightarrow> bool" where
  "search_ok obj \<longleftrightarrow> distinct (map fst obj) \<and> (\<forall>(k, v) \<in> set obj. utf8_ok k \<and> k \<noteq> ''__proto__'' \<and>
    (case v of One a \<Rightarrow> atom_ok k a | Many as' \<Rightarrow> 2 \<le> length as' \<and> list_all (atom_ok k) as'))"

lemma no_char_coded: "query_encoder f \<Longrightarrow> x \<in> set ''+=&'' \<Longrightarrow> x \<notin> set (concat (map f s))"
  by (auto simp: query_encoder_def)

lemma plus_escaped_id: "CHR ''+'' \<notin> set s \<Longrightarrow> plus_escaped s = s"
  by (induction s) (auto simp: plus_escaped_def)

lemma coded_part_chars:
  assumes "query_encoder f"
  shows "CHR ''+'' \<notin> set (coded_part f k a)" "CHR ''&'' \<notin> set (coded_part f k a)"
proof -
  have "CHR ''+'' \<notin> set (concat (map f s))" "CHR ''&'' \<notin> set (concat (map f s))" for s
    by (rule no_char_coded [OF assms], simp)+
  then show "CHR ''+'' \<notin> set (coded_part f k a)" "CHR ''&'' \<notin> set (coded_part f k a)"
    by (cases "atom_text a"; simp add: coded_part_def)+
qed

lemma parse_coded_part:
  assumes f: "query_encoder f" and k: "utf8_ok k" and a: "atom_ok k a"
  shows "parse_pair (coded_part f k a) obj = put_search k a obj"
proof -
  have eq: "CHR ''='' \<notin> set (concat (map f s))" for s by (rule no_char_coded [OF f]) simp
  have ne: "coded_part f k a \<noteq> []"
  proof (cases a)
    case ATrue
    with a obtain c r where "k = c # r" by (cases k) (auto simp: atom_ok_def)
    with f ATrue show ?thesis by (auto simp: coded_part_def query_encoder_def)
  qed (use a in \<open>simp_all add: coded_part_def atom_ok_def atom_text_def\<close>)
  have plus: "plus_escaped (coded_part f k a) = coded_part f k a" using coded_part_chars(1) [OF f] by (rule plus_escaped_id)
  show ?thesis
  proof (cases a)
    case (AStr s)
    have "split_on (CHR ''='') (coded_part f k a) = [concat (map f k), concat (map f s)]"
      using split_on_append_sep [OF eq [of k], of "concat (map f s)"] split_on_single [OF eq [of s]] AStr
      by (simp add: coded_part_def atom_text_def)
    with ne plus AStr a k show ?thesis by (simp add: parse_pair_def decode_blocks [OF f] atom_ok_def)
  next
    case ATrue
    have "split_on (CHR ''='') (coded_part f k a) = [concat (map f k)]"
      using split_on_single [OF eq [of k]] ATrue by (simp add: coded_part_def atom_text_def)
    with ne plus ATrue k show ?thesis by (simp add: parse_pair_def decode_blocks [OF f])
  qed (use a in \<open>simp add: atom_ok_def\<close>)
qed

lemma split_join:
  "ps \<noteq> [] \<Longrightarrow> \<forall>p \<in> set ps. c \<notin> set p \<Longrightarrow> split_on c (js_join_chars [c] ps) = ps"
  by (induction "[c]" ps rule: js_join_chars.induct) (simp_all add: split_on_single split_on_append_sep)

lemma put_new: "key \<noteq> ''__proto__'' \<Longrightarrow> key \<notin> fst ` set obj \<Longrightarrow> put_search key a obj = obj @ [(key, One a)]"
  using map_of_eq_None_iff [of obj key] by (simp add: put_search_def)

lemma put_old:
  assumes "key \<noteq> ''__proto__''" "key \<notin> fst ` set obj"
  shows "put_search key b (obj @ [(key, One a)]) = obj @ [(key, Many [a, b])]"
    "put_search key b (obj @ [(key, Many as')]) = obj @ [(key, Many (as' @ [b]))]"
proof -
  have get: "map_of (obj @ [(key, v)]) key = Some v" for v
    using assms(2) map_of_eq_None_iff [of obj key] by (simp add: map_add_def)
  have same: "map (\<lambda>(k, v). (k, if k = key then w v else v)) obj = obj" for w
    using assms(2) by (intro map_idI) (auto simp: rev_image_eqI)
  show "put_search key b (obj @ [(key, One a)]) = obj @ [(key, Many [a, b])]"
    using assms(1) same [of "\<lambda>_. Many [a, b]"] unfolding put_search_def get by simp
  show "put_search key b (obj @ [(key, Many as')]) = obj @ [(key, Many (as' @ [b]))]"
    using assms(1) same [of "\<lambda>_. Many (as' @ [b])"] unfolding put_search_def get by simp
qed

lemma put_many:
  assumes "key \<noteq> ''__proto__''" "key \<notin> fst ` set obj"
  shows "fold (put_search key) bs (obj @ [(key, Many as')]) = obj @ [(key, Many (as' @ bs))]"
  by (induction bs arbitrary: as') (simp_all add: put_old [OF assms])

lemma parse_coded_parts:
  assumes f: "query_encoder f" and ok: "utf8_ok k" "k \<noteq> ''__proto__''" "k \<notin> fst ` set obj"
    and v: "case v of One a \<Rightarrow> atom_ok k a | Many as' \<Rightarrow> 2 \<le> length as' \<and> list_all (atom_ok k) as'"
  shows "fold parse_pair (coded_parts f (k, v)) obj = obj @ [(k, v)]"
proof (cases v)
  case (One a)
  with v show ?thesis by (simp add: coded_parts_def parse_coded_part [OF f ok(1)] put_new [OF ok(2,3)])
next
  case (Many as')
  have parts: "list_all (atom_ok k) bs \<Longrightarrow> fold parse_pair (map (coded_part f k) bs) obj' = fold (put_search k) bs obj'" for bs obj'
    by (induction bs arbitrary: obj') (simp_all add: parse_coded_part [OF f ok(1)])
  from Many v obtain a b bs where as': "as' = a # b # bs" by (cases as'; cases "tl as'") auto
  have "fold (put_search k) as' obj = obj @ [(k, Many as')]"
    by (simp add: as' put_new [OF ok(2,3)] put_old [OF ok(2,3)] put_many [OF ok(2,3)])
  with Many v parts show ?thesis by (simp add: coded_parts_def)
qed

lemma parse_coded_query:
  assumes f: "query_encoder f" and ok: "search_ok obj"
  shows "parseKeyValue (coded_query f obj) = obj"
proof -
  have fold: "search_ok (done @ obj) \<Longrightarrow> fold parse_pair (concat (map (coded_parts f) obj)) done = done @ obj" for "done"
  proof (induction obj arbitrary: "done")
    case (Cons kv obj)
    obtain k v where kv: "kv = (k, v)" by (cases kv)
    have "fold parse_pair (coded_parts f kv) done = done @ [kv]"
      unfolding kv by (rule parse_coded_parts [OF f]) (use Cons.prems in \<open>auto simp: search_ok_def kv\<close>)
    moreover have "search_ok ((done @ [kv]) @ obj)" using Cons.prems by simp
    ultimately show ?case using Cons.IH [of "done @ [kv]"] by simp
  qed simp
  have amp: "\<forall>p \<in> set (concat (map (coded_parts f) obj)). CHR ''&'' \<notin> set p"
    using coded_part_chars(2) [OF f] by (auto simp: coded_parts_def split: search_val.splits)
  show ?thesis
  proof (cases "concat (map (coded_parts f) obj) = []")
    case True
    then have "parseKeyValue (coded_query f obj) = []"
      by (simp add: parseKeyValue_def coded_query_def parse_pair_def del: concat_eq_Nil_conv)
    moreover have "obj = []" using fold [of "[]"] ok True by simp
    ultimately show ?thesis by simp
  next
    case False
    from split_join [OF this amp] fold [of "[]"] ok show ?thesis by (simp add: parseKeyValue_def coded_query_def)
  qed
qed

text \<open>An address may come back with its apostrophes escaped.\<close>

definition quoted :: "bool \<Rightarrow> string \<Rightarrow> string" where
  "quoted q s = concat (map (\<lambda>c. if q \<and> c = CHR 0x27 then ''%27'' else [c]) s)"

lemma quoted_append [simp]: "quoted q (s @ t) = quoted q s @ quoted q t"
  by (simp add: quoted_def)

lemma quoted_Cons [simp]: "quoted q (c # s) = (if q \<and> c = CHR 0x27 then ''%27'' else [c]) @ quoted q s" "quoted q [] = []"
  by (simp_all add: quoted_def)

lemma quoted_plain: "CHR 0x27 \<notin> set s \<Longrightarrow> quoted q s = s"
  by (induction s) auto

lemma quoted_block: "quoted q (query_char False c) = query_char q c"
proof (cases "c = CHR 0x27")
  case True
  have "enc_but query_plain (CHR 0x27) = [CHR 0x27]" by code_simp
  then show ?thesis by (simp add: query_char_def quoted_def True)
next
  case False
  have "list_all (\<lambda>d. hex_char d \<noteq> CHR 0x27) [0..<16]" by code_simp
  then have hex: "d < 16 \<Longrightarrow> CHR 0x27 \<noteq> hex_char d" for d by (auto simp: list_all_iff)
  have "CHR 0x27 \<notin> set (enc_but query_plain c)"
    using False hex [OF of_char_nibbles(1)] hex [OF of_char_nibbles(2)] by (simp add: enc_but_def encode_char_def)
  then show ?thesis using False by (simp add: query_char_def quoted_plain)
qed

lemma quoted_blocks: "quoted q (concat (map (query_char False) s)) = concat (map (query_char q) s)"
  by (induction s) (simp_all add: quoted_block)

lemma toKeyValue_coded: "forEach_keys obj = Inr obj \<Longrightarrow> toKeyValue obj = Inr (coded_query (query_char False) obj)"
proof -
  have q: "encodeUriQuery s True = concat (map (query_char False) s)" for s
    by (simp add: encodeUriQuery_chars query_char_def [abs_def])
  have "atom_part k a = coded_part (query_char False) k a" for k a
    by (cases a) (simp_all only: atom_part_def coded_part_def atom_text_def q search_atom.case option.case append_Nil append_Cons)
  then have "val_parts = coded_parts (query_char False)"
    by (intro ext) (simp add: val_parts_def coded_parts_def split: search_val.split)
  then show "forEach_keys obj = Inr obj \<Longrightarrow> toKeyValue obj = Inr (coded_query (query_char False) obj)"
    by (simp add: toKeyValue_def coded_query_def)
qed

lemma quoted_query: "quoted q (coded_query (query_char False) obj) = coded_query (query_char q) obj"
proof -
  have join: "quoted q (js_join_chars ''&'' ps) = js_join_chars ''&'' (map (quoted q) ps)" for ps
    by (induction "''&''" ps rule: js_join_chars.induct) (simp_all)
  have "quoted q (coded_part (query_char False) k a) = coded_part (query_char q) k a" for k a
    by (cases "atom_text a") (simp_all add: coded_part_def quoted_blocks)
  then have "map (quoted q) (coded_parts (query_char False) kv) = coded_parts (query_char q) kv" for kv
    by (simp add: coded_parts_def split: search_val.split)
  then show ?thesis by (simp add: coded_query_def join map_concat o_def)
qed

section \<open>Paths\<close>

lemma join_map_split:
  "js_join_chars [sep] (map (\<lambda>s. concat (map f s)) (split_on sep p)) = concat (map (\<lambda>c. if c = sep then [sep] else f c) p)"
proof (induction p)
  case (Cons x xs)
  obtain y ys where s: "split_on sep xs = y # ys" using split_on_nonempty [of sep xs] by (cases "split_on sep xs") auto
  show ?case using Cons.IH s by (cases ys) simp_all
qed simp

lemma encodePath_chars: "encodePath p = concat (map (enc_but (insert (CHR ''/'') segment_plain)) p)"
proof -
  have "(if c = CHR ''/'' then ''/'' else enc_but segment_plain c) = enc_but (insert (CHR ''/'') segment_plain) c" for c
    by (simp add: enc_but_def)
  then show ?thesis using join_map_split [of "CHR ''/''" "enc_but segment_plain" p]
    by (simp add: encodePath_def encodeUriSegment_chars [abs_def])
qed

lemma decode_path: "utf8_ok p \<Longrightarrow> decodeURIComponent (encodePath p) = Some p"
  unfolding decodeURIComponent_def encodePath_chars
  by (subst uri_decode_blocks) (simp_all add: decode_enc_but segment_plain_def)

lemma decode_segment: "utf8_ok s \<Longrightarrow> decodeURIComponent (encodeUriSegment s) = Some s"
  unfolding decodeURIComponent_def encodeUriSegment_chars
  by (subst uri_decode_blocks) (simp_all add: decode_enc_but segment_plain_def)

text \<open>What encoded text consists of.\<close>

definition url_char :: "char \<Rightarrow> bool" where
  "url_char c \<longleftrightarrow> unreserved c \<or> c = CHR ''%'' \<or> c \<in> segment_plain"

lemma enc_but_url_chars: "K \<subseteq> segment_plain \<Longrightarrow> list_all url_char (concat (map (enc_but K) s))"
  using enc_but_chars by (fastforce simp: list_all_iff url_char_def)

section \<open>What a query string says\<close>

text \<open>
  The reading of a query string, stated without the code's replacements and updates: the parts between ampersands;
  of each the text before its first \<open>=\<close> and, if there is one, the text from there to the next \<open>=\<close> or the end; a plus
  is a space.  Empty parts and parts whose key cannot be decoded say nothing.
\<close>

definition form_decode :: "string \<Rightarrow> string option" where
  "form_decode s = decodeURIComponent (map (\<lambda>c. if c = CHR ''+'' then CHR '' '' else c) s)"

definition upto_equals :: "string \<Rightarrow> string" where
  "upto_equals s = takeWhile (\<lambda>c. c \<noteq> CHR ''='') s"

definition query_part :: "string \<Rightarrow> (string \<times> search_atom) option" where
  "query_part s = (if s = [] then None else
    map_option (\<lambda>key. (key, case dropWhile (\<lambda>c. c \<noteq> CHR ''='') s of
        [] \<Rightarrow> ATrue
      | _ # v \<Rightarrow> (case form_decode (upto_equals v) of Some t \<Rightarrow> AStr t | None \<Rightarrow> AUndef)))
    (form_decode (upto_equals s)))"

definition query_pairs :: "string \<Rightarrow> (string \<times> search_atom) list" where
  "query_pairs s = List.map_filter query_part (split_on (CHR ''&'') s)"

definition key_values :: "(string \<times> search_atom) list \<Rightarrow> string \<Rightarrow> search_atom list" where
  "key_values ps k = map snd (filter (\<lambda>p. fst p = k) ps)"

text \<open>A key given once has its value, a key given more than once the array of its values.\<close>

definition gathered :: "search_atom list \<Rightarrow> search_val option" where
  "gathered as' = (case as' of [] \<Rightarrow> None | [a] \<Rightarrow> Some (One a) | _ \<Rightarrow> Some (Many as'))"

definition said_of :: "string \<Rightarrow> string \<Rightarrow> search_val option" where
  "said_of s k = (if k = ''__proto__'' then None else gathered (key_values (query_pairs s) k))"

lemma hex_val_none: "hex_val (CHR ''%'') = None" "hex_val (CHR ''+'') = None" "hex_val (CHR '' '') = None"
  by code_simp+

lemma plus_escaped_simps [simp]:
  "plus_escaped [] = []" "plus_escaped (CHR ''+'' # s) = ''%20'' @ plus_escaped s"
  "c \<noteq> CHR ''+'' \<Longrightarrow> plus_escaped (c # s) = c # plus_escaped s"
  by (simp_all add: plus_escaped_def)

lemma decode_plus: "uri_decode (plus_escaped s) = uri_decode (map (\<lambda>c. if c = CHR ''+'' then CHR '' '' else c) s)"
proof (induction s rule: uri_decode.induct)
  case (2 c cs)
  have hex: "hex_val (CHR ''2'') = Some 2" "hex_val (CHR ''0'') = Some 0" "char_of (32 :: nat) = CHR '' ''" by code_simp+
  consider "c = CHR ''+''" | "c \<noteq> CHR ''+''" "c \<noteq> CHR ''%''" | "c = CHR ''%''" by auto
  then show ?case
  proof cases
    case 3
    consider "cs = []" | a where "cs = [a]" | a b r where "cs = a # b # r" by (cases cs; cases "tl cs") auto
    then show ?thesis
    proof cases
      case (2 a)
      with 3 show ?thesis by (cases "a = CHR ''+''") (simp_all add: hex_val_none)
    next
      case c: (3 a b r)
      have IH: "hex_val a = Some x \<Longrightarrow> hex_val b = Some y \<Longrightarrow> uri_decode (plus_escaped r) =
          uri_decode (map (\<lambda>c. if c = CHR ''+'' then CHR '' '' else c) r)" for x y
        using "2.IH"(1) [OF 3 c refl refl] by simp
      show ?thesis
      proof (cases "a = CHR ''+'' \<or> b = CHR ''+''")
        case True
        then show ?thesis
          by (cases "a = CHR ''+''") (auto simp: 3 c hex_val_none split: option.splits)
      next
        case False
        then show ?thesis using IH by (auto simp: 3 c split: option.splits)
      qed
    qed (simp add: 3)
  qed (use "2.IH" in \<open>simp_all add: hex\<close>)
qed simp

lemma form_decode_code: "decodeURIComponent (plus_escaped s) = form_decode s"
  by (simp add: form_decode_def decodeURIComponent_def decode_plus)

lemma split_plus: "split_on (CHR ''='') (plus_escaped s) = map plus_escaped (split_on (CHR ''='') s)"
proof (induction s)
  case (Cons c s)
  obtain y ys where "split_on (CHR ''='') s = y # ys" using split_on_nonempty [of "CHR ''=''" s] by (cases "split_on (CHR ''='') s") auto
  with Cons show ?case by (cases "c = CHR ''+''") simp_all
qed simp

lemma split_equals:
  "split_on (CHR ''='') s = upto_equals s # (case dropWhile (\<lambda>c. c \<noteq> CHR ''='') s of [] \<Rightarrow> [] | _ # v \<Rightarrow> split_on (CHR ''='') v)"
  by (induction s) (simp_all add: upto_equals_def)

lemma parse_pair_says:
  "parse_pair s obj = (case query_part s of None \<Rightarrow> obj | Some (k, a) \<Rightarrow> put_search k a obj)"
proof (cases "dropWhile (\<lambda>c. c \<noteq> CHR ''='') s")
  case Nil
  show ?thesis
    unfolding parse_pair_def query_part_def split_plus split_equals [of s] Nil
    by (simp add: form_decode_code split: option.split)
next
  case (Cons e v)
  show ?thesis
    unfolding parse_pair_def query_part_def split_plus split_equals [of s] Cons
    by (simp add: form_decode_code split_equals [of v] split: option.split)
qed

lemma parse_query_pairs: "parseKeyValue s = fold (\<lambda>(k, a). put_search k a) (query_pairs s) []"
proof -
  have "fold parse_pair ps obj = fold (\<lambda>(k, a). put_search k a) (List.map_filter query_part ps) obj" for ps obj
    by (induction ps arbitrary: obj) (auto simp: parse_pair_says List.map_filter_simps split: option.split)
  then show ?thesis by (simp add: parseKeyValue_def query_pairs_def)
qed

lemma map_of_update: "map_of (map (\<lambda>(k, v). (k, if k = key then w else v)) obj) k =
    (if k = key then map_option (\<lambda>_. w) (map_of obj k) else map_of obj k)"
  by (induction obj) auto

lemma put_search_get:
  "js_get (put_search key a obj) k = (if k = key \<and> key \<noteq> ''__proto__'' then
      Some (case js_get obj k of None \<Rightarrow> One a | Some (One b) \<Rightarrow> Many [b, a] | Some (Many bs) \<Rightarrow> Many (bs @ [a]))
    else js_get obj k)"
  by (auto simp: put_search_def map_of_update map_add_def split: option.split search_val.split)

lemma put_search_distinct: "distinct (map fst obj) \<Longrightarrow> distinct (map fst (put_search key a obj))"
proof -
  have keys: "map fst (map (\<lambda>(k, v). (k, if k = key then w else v)) obj) = map fst obj" for w :: search_val
    by (simp add: o_def case_prod_unfold)
  assume "distinct (map fst obj)"
  then show ?thesis
    by (auto simp: put_search_def keys map_of_eq_None_iff simp del: map_map split: option.split search_val.split)
qed

lemma gathered_snoc: "gathered (as' @ [a]) =
    Some (case gathered as' of None \<Rightarrow> One a | Some (One b) \<Rightarrow> Many [b, a] | Some (Many bs) \<Rightarrow> Many (bs @ [a]))"
  by (cases as'; cases "tl as'") (auto simp: gathered_def split: list.split)

lemma put_pairs_get:
  "js_get (fold (\<lambda>(k, a). put_search k a) ps []) k = (if k = ''__proto__'' then None else gathered (key_values ps k))"
proof (induction ps rule: rev_induct)
  case (snoc p ps)
  obtain key a where p: "p = (key, a)" by (cases p)
  have "key_values (ps @ [p]) k = key_values ps k @ (if key = k then [a] else [])" by (simp add: key_values_def p)
  with snoc show ?case by (auto simp: p put_search_get gathered_snoc)
qed (simp add: key_values_def gathered_def)

text \<open>Escaping the apostrophes of a query, as browsers do, does not change what it says.\<close>

lemma decode_quoted: "uri_decode (quoted q s) = uri_decode s"
proof (induction s rule: uri_decode.induct)
  case (2 c cs)
  have hex: "hex_val (CHR ''2'') = Some 2" "hex_val (CHR ''7'') = Some 7" "char_of (39 :: nat) = CHR 0x27"
    "hex_val (CHR 0x27) = None" by code_simp+
  show ?case
  proof (cases "c = CHR ''%''")
    case c: True
    consider "cs = []" | a where "cs = [a]" | a b r where "cs = a # b # r" by (cases cs; cases "tl cs") auto
    then show ?thesis
    proof cases
      case (2 a)
      with c show ?thesis by (cases "q \<and> a = CHR 0x27") (auto simp: hex hex_val_none)
    next
      case cs: (3 a b r)
      have IH: "hex_val a = Some x \<Longrightarrow> hex_val b = Some y \<Longrightarrow> uri_decode (quoted q r) = uri_decode r" for x y
        using "2.IH"(1) [OF c cs refl refl] by simp
      show ?thesis
      proof (cases "q \<and> (a = CHR 0x27 \<or> b = CHR 0x27)")
        case True
        then show ?thesis by (cases "a = CHR 0x27") (auto simp: c cs hex hex_val_none split: option.splits)
      next
        case False
        then have "quoted q cs = a # b # quoted q r" by (auto simp: cs)
        then show ?thesis using IH by (auto simp: c cs split: option.splits)
      qed
    qed (simp add: c)
  qed (use "2.IH" in \<open>auto simp: hex\<close>)
qed simp

lemma map_quoted: "map (\<lambda>c. if c = CHR ''+'' then CHR '' '' else c) (quoted q s) = quoted q (map (\<lambda>c. if c = CHR ''+'' then CHR '' '' else c) s)"
  by (induction s) auto

lemma form_decode_quoted: "form_decode (quoted q s) = form_decode s"
  unfolding form_decode_def map_quoted decodeURIComponent_def decode_quoted ..

lemma equals_quoted:
  "upto_equals (quoted q s) = quoted q (upto_equals s)"
  "dropWhile (\<lambda>c. c \<noteq> CHR ''='') (quoted q s) = quoted q (dropWhile (\<lambda>c. c \<noteq> CHR ''='') s)"
  unfolding upto_equals_def by (induction s) auto

lemma quoted_empty: "quoted q s = [] \<longleftrightarrow> s = []"
  by (cases s) auto

lemma query_part_quoted: "query_part (quoted q s) = query_part s"
proof (cases "dropWhile (\<lambda>c. c \<noteq> CHR ''='') s")
  case Nil
  show ?thesis unfolding query_part_def equals_quoted Nil quoted_Cons form_decode_quoted quoted_empty ..
next
  case (Cons e v)
  then have "e = CHR ''=''" using hd_dropWhile [of "\<lambda>c. c \<noteq> CHR ''=''" s] by simp
  then show ?thesis unfolding query_part_def equals_quoted Cons quoted_Cons form_decode_quoted quoted_empty
    by (simp add: equals_quoted form_decode_quoted)
qed

lemma split_quoted: "split_on (CHR ''&'') (quoted q s) = map (quoted q) (split_on (CHR ''&'') s)"
proof (induction s)
  case (Cons c s)
  obtain y ys where "split_on (CHR ''&'') s = y # ys" using split_on_nonempty [of "CHR ''&''" s] by (cases "split_on (CHR ''&'') s") auto
  with Cons show ?case by (cases "q \<and> c = CHR 0x27") auto
qed simp

lemma parse_quoted: "parseKeyValue (quoted q s) = parseKeyValue s"
  by (simp add: parse_query_pairs query_pairs_def split_quoted List.map_filter_def query_part_quoted o_def filter_map)

text \<open>C37: a query string is read as it is written.  For every string, the search object has under each key what the
  parts of the string say of it, in their order: nothing if no part has the key, the value of the only one, or the
  array of the values of all; a plus is a space, a part without \<open>=\<close> is \<open>true\<close>, what cannot be decoded is undefined, a
  second \<open>=\<close> ends the value, and \<open>__proto__\<close> is never a key.\<close>

theorem parsed_search_exact:
  "(\<forall>k. js_get (parseKeyValue s) k = said_of s k) \<and> distinct (map fst (parseKeyValue s))"
proof -
  have "distinct (map fst obj) \<Longrightarrow> distinct (map fst (fold (\<lambda>(k, a). put_search k a) ps obj))" for ps obj
    by (induction ps arbitrary: obj) (auto simp: put_search_distinct)
  from this [of "[]"] show ?thesis by (simp add: parse_query_pairs put_pairs_get said_of_def)
qed

theorem parsed_search_exact_witness:
  "js_get (parseKeyValue ''q=a+b%26c=d&all&q=&x=%ff&__proto__=1'') ''q'' = Some (Many [AStr ''a b&c'', AStr []]) \<and>
   js_get (parseKeyValue ''q=a+b%26c=d&all&q=&x=%ff&__proto__=1'') ''all'' = Some (One ATrue) \<and>
   js_get (parseKeyValue ''q=a+b%26c=d&all&q=&x=%ff&__proto__=1'') ''x'' = Some (One AUndef)"
proof -
  have "said_of ''q=a+b%26c=d&all&q=&x=%ff&__proto__=1'' ''q'' = Some (Many [AStr ''a b&c'', AStr []])"
    "said_of ''q=a+b%26c=d&all&q=&x=%ff&__proto__=1'' ''all'' = Some (One ATrue)"
    "said_of ''q=a+b%26c=d&all&q=&x=%ff&__proto__=1'' ''x'' = Some (One AUndef)" by code_simp+
  then show ?thesis using parsed_search_exact [of "''q=a+b%26c=d&all&q=&x=%ff&__proto__=1''"] by simp
qed

end
