(* ===== verification/Ng_Location.thy ===== *)
theory Ng_Location
  imports Ng_Url "HOL-Library.AList"
begin

text \<open>
  The location service of AngularJS (public/bower_components/angular/angular.js): \<open>LocationHtml5Url\<close>,
  \<open>LocationHashbangUrl\<close> and \<open>LocationHashbangInHtml5Url\<close>, their parsing and composition of addresses, and the
  setters of \<open>$location\<close>.  How the browser resolves an address (the anchor element behind \<open>urlResolve\<close>) is a
  parameter.
\<close>

section \<open>Addresses\<close>

text \<open>What an anchor element tells of an address.\<close>

record anchor =
  an_pathname :: string
  an_search :: string
  an_hash :: string

definition drop_first :: "char \<Rightarrow> string \<Rightarrow> string" where
  "drop_first c s = (case s of [] \<Rightarrow> [] | x # r \<Rightarrow> if x = c then r else s)"

definition urlResolve :: "(string \<Rightarrow> anchor) \<Rightarrow> string \<Rightarrow> anchor" where
  "urlResolve A url =
    (let a = A url
     in \<lparr>an_pathname = (if take 1 (an_pathname a) = ''/'' then an_pathname a else CHR ''/'' # an_pathname a),
        an_search = drop_first (CHR ''?'') (an_search a), an_hash = drop_first (CHR ''#'') (an_hash a)\<rparr>)"

definition beginsWith :: "string \<Rightarrow> string \<Rightarrow> string option" where
  "beginsWith begin' whole = (if take (length begin') whole = begin' then Some (drop (length begin') whole) else None)"

definition stripHash :: "string \<Rightarrow> string" where
  "stripHash url = takeWhile (\<lambda>c. c \<noteq> CHR ''#'') url"

text \<open>\<open>/(#.+)|#$/\<close>: a hash sign is removed where nothing follows it.\<close>

fun trimEmptyHash :: "string \<Rightarrow> string" where
  "trimEmptyHash [] = []"
| "trimEmptyHash (c # s) =
    (if c = CHR ''#'' then
       (case s of [] \<Rightarrow> [] | d # r \<Rightarrow> if d = CHR 0x0A \<or> d = CHR 0x0D then c # trimEmptyHash s else c # s)
     else c # trimEmptyHash s)"

definition stripFile :: "string \<Rightarrow> string" where
  "stripFile url = rev (dropWhile (\<lambda>c. c \<noteq> CHR ''/'') (rev (stripHash url)))"

text \<open>\<open>/^\/[A-Z]:(\/.*)/\<close> and its group\<close>

fun windows_path :: "string \<Rightarrow> string option" where
  "windows_path (a # d # b # c # r) =
    (if a = CHR ''/'' \<and> (65 :: nat) \<le> of_char d \<and> of_char d \<le> (90 :: nat) \<and> b = CHR '':'' \<and> c = CHR ''/''
     then Some (c # takeWhile (\<lambda>x. x \<noteq> CHR 0x0A \<and> x \<noteq> CHR 0x0D) r) else None)"
| "windows_path s = None"

definition removeWindowsDriveName :: "string \<Rightarrow> string \<Rightarrow> string \<Rightarrow> string" where
  "removeWindowsDriveName path url base =
    (let url = (case beginsWith base url of Some r \<Rightarrow> r | None \<Rightarrow> url)
     in if windows_path url \<noteq> None then path else case windows_path path of Some p \<Rightarrow> p | None \<Rightarrow> path)"

section \<open>The location\<close>

datatype location_mode = Html5 | Hashbang | HashbangInHtml5

text \<open>The mode with its application base and prefix (\<open>basePrefix\<close> or \<open>hashPrefix\<close>).\<close>

record location_config =
  cf_mode :: location_mode
  cf_base :: string
  cf_prefix :: string

record ng_location =
  nl_path :: string
  nl_search :: "search_val js_obj"
  nl_hash :: string
  nl_url :: string
  nl_absUrl :: string
  nl_replace :: bool

text \<open>\<open>$$absUrl\<close> of a composed address, and \<open>$$compose\<close>\<close>

definition abs_url :: "location_config \<Rightarrow> string \<Rightarrow> string" where
  "abs_url cf url = (case cf_mode cf of
      Html5 \<Rightarrow> stripFile (cf_base cf) @ tl url
    | Hashbang \<Rightarrow> cf_base cf @ (if url \<noteq> [] then cf_prefix cf @ url else [])
    | HashbangInHtml5 \<Rightarrow> cf_base cf @ cf_prefix cf @ url)"

definition ng_compose :: "location_config \<Rightarrow> ng_location \<Rightarrow> ng_location js_res" where
  "ng_compose cf l =
    js_bind (toKeyValue (nl_search l)) (\<lambda>search.
      (let hash = (if nl_hash l \<noteq> [] then CHR ''#'' # encodeUriSegment (nl_hash l) else []);
           url = encodePath (nl_path l) @ (if search \<noteq> [] then CHR ''?'' # search else []) @ hash
       in Inr (l\<lparr>nl_url := url, nl_absUrl := abs_url cf url\<rparr>)))"

definition decode_or :: "string \<Rightarrow> string js_res" where
  "decode_or s = (case decodeURIComponent s of Some t \<Rightarrow> Inr t | None \<Rightarrow> Inl URIError)"

definition parseAppUrl :: "(string \<Rightarrow> anchor) \<Rightarrow> string \<Rightarrow> ng_location \<Rightarrow> ng_location js_res" where
  "parseAppUrl A relativeUrl l =
    (let prefixed = (take 1 relativeUrl \<noteq> ''/'');
         match = urlResolve A (if prefixed then CHR ''/'' # relativeUrl else relativeUrl);
         pathname = (if prefixed \<and> take 1 (an_pathname match) = ''/'' then tl (an_pathname match) else an_pathname match)
     in js_bind (decode_or pathname) (\<lambda>path. js_bind (decode_or (an_hash match)) (\<lambda>hash.
          Inr (l\<lparr>nl_path := (if path \<noteq> [] \<and> hd path \<noteq> CHR ''/'' then CHR ''/'' # path else path),
            nl_search := parseKeyValue (an_search match), nl_hash := hash\<rparr>))))"

definition html5_parse :: "(string \<Rightarrow> anchor) \<Rightarrow> location_config \<Rightarrow> string \<Rightarrow> ng_location \<Rightarrow> ng_location js_res" where
  "html5_parse A cf url l = (case beginsWith (stripFile (cf_base cf)) url of
      None \<Rightarrow> Inl UrlError
    | Some pathUrl \<Rightarrow> js_bind (parseAppUrl A pathUrl l) (\<lambda>l1.
        ng_compose cf (if nl_path l1 = [] then l1\<lparr>nl_path := ''/''\<rparr> else l1)))"

text \<open>An empty rest of the application base is falsy, so the base without its file is tried.\<close>

definition hashbang_parse :: "(string \<Rightarrow> anchor) \<Rightarrow> location_config \<Rightarrow> string \<Rightarrow> ng_location \<Rightarrow> ng_location js_res" where
  "hashbang_parse A cf url l =
    (case (case beginsWith (cf_base cf) url of
        Some (c # r) \<Rightarrow> Some (c # r)
      | _ \<Rightarrow> beginsWith (stripFile (cf_base cf)) url) of
      None \<Rightarrow> Inl TypeError
    | Some withoutBaseUrl \<Rightarrow>
        (case (if take 1 withoutBaseUrl = ''#'' then beginsWith (cf_prefix cf) withoutBaseUrl
               else if cf_mode cf = HashbangInHtml5 then Some withoutBaseUrl else Some []) of
          None \<Rightarrow> Inl UrlError
        | Some withoutHashUrl \<Rightarrow> js_bind (parseAppUrl A withoutHashUrl l) (\<lambda>l1.
            ng_compose cf (l1\<lparr>nl_path := removeWindowsDriveName (nl_path l1) withoutHashUrl (cf_base cf)\<rparr>))))"

definition ng_parse :: "(string \<Rightarrow> anchor) \<Rightarrow> location_config \<Rightarrow> string \<Rightarrow> ng_location \<Rightarrow> ng_location js_res" where
  "ng_parse A cf = (if cf_mode cf = Html5 then html5_parse A cf else hashbang_parse A cf)"

text \<open>\<open>$$parseLinkUrl\<close>: the address to parse for a link, if it belongs to the application.\<close>

definition rewritten_url :: "location_config \<Rightarrow> string \<Rightarrow> string option" where
  "rewritten_url cf url =
    (let base = cf_base cf; noFile = stripFile base
     in case cf_mode cf of
       Html5 \<Rightarrow>
         (case beginsWith base url of
            Some prev \<Rightarrow>
              (case beginsWith (cf_prefix cf) prev of
                 Some app \<Rightarrow> Some (noFile @ (case beginsWith ''/'' app of Some (c # r) \<Rightarrow> c # r | _ \<Rightarrow> app))
               | None \<Rightarrow> Some (base @ prev))
          | None \<Rightarrow>
              (case beginsWith noFile url of
                 Some app \<Rightarrow> Some (noFile @ app)
               | None \<Rightarrow> if noFile = url @ ''/'' then Some noFile else None))
     | Hashbang \<Rightarrow> if stripHash base = stripHash url then Some url else None
     | HashbangInHtml5 \<Rightarrow>
         if base = stripHash url then Some url
         else (case beginsWith noFile url of
                 Some (c # r) \<Rightarrow> Some (base @ cf_prefix cf @ c # r)
               | _ \<Rightarrow> if noFile = url @ ''/'' then Some noFile else None))"

text \<open>An empty address is falsy; only in hashbang mode it is parsed nevertheless.\<close>

definition parseLinkUrl :: "(string \<Rightarrow> anchor) \<Rightarrow> location_config \<Rightarrow> string \<Rightarrow> ng_location \<Rightarrow> (bool \<times> ng_location) js_res" where
  "parseLinkUrl A cf url l = (case rewritten_url cf url of
      None \<Rightarrow> Inr (False, l)
    | Some u \<Rightarrow> if u = [] \<and> cf_mode cf \<noteq> Hashbang then Inr (False, l)
        else js_bind (ng_parse A cf u l) (\<lambda>l1. Inr (True, l1)))"

section \<open>Setters\<close>

text \<open>\<open>path(p)\<close> and \<open>hash(h)\<close>: undefined reads, null (\<open>Some None\<close>) empties.\<close>

definition ng_path :: "location_config \<Rightarrow> string option option \<Rightarrow> ng_location \<Rightarrow> ng_location js_res" where
  "ng_path cf v l = (case v of
      None \<Rightarrow> Inr l
    | Some p \<Rightarrow> (let path = (case p of Some s \<Rightarrow> s | None \<Rightarrow> [])
        in ng_compose cf (l\<lparr>nl_path := (if take 1 path = ''/'' then path else CHR ''/'' # path)\<rparr>)))"

definition ng_hash :: "location_config \<Rightarrow> string option option \<Rightarrow> ng_location \<Rightarrow> ng_location js_res" where
  "ng_hash cf v l = (case v of
      None \<Rightarrow> Inr l
    | Some h \<Rightarrow> ng_compose cf (l\<lparr>nl_hash := (case h of Some s \<Rightarrow> s | None \<Rightarrow> [])\<rparr>))"

text \<open>\<open>search(key, value)\<close>: undefined and null delete the key.\<close>

definition ng_search_set :: "location_config \<Rightarrow> string \<Rightarrow> search_val option \<Rightarrow> ng_location \<Rightarrow> ng_location js_res" where
  "ng_search_set cf key v l = ng_compose cf (l\<lparr>nl_search := (case v of
      None \<Rightarrow> filter (\<lambda>(k, w). k \<noteq> key) (nl_search l)
    | Some x \<Rightarrow> if key = ''__proto__'' then nl_search l else AList.update key x (nl_search l))\<rparr>)"

text \<open>\<open>search(string)\<close> and \<open>search(object)\<close>; an undefined value of the object is dropped, by a \<open>forEach\<close> that asks
  the object for its own keys.\<close>

definition ng_search_string :: "location_config \<Rightarrow> string \<Rightarrow> ng_location \<Rightarrow> ng_location js_res" where
  "ng_search_string cf s l = ng_compose cf (l\<lparr>nl_search := parseKeyValue s\<rparr>)"

definition ng_search_object :: "location_config \<Rightarrow> (string \<times> search_val option) list \<Rightarrow> ng_location \<Rightarrow> ng_location js_res" where
  "ng_search_object cf obj l = (if ''hasOwnProperty'' \<in> fst ` set obj then Inl TypeError
     else ng_compose cf (l\<lparr>nl_search := [(k, v). (k, Some v) \<leftarrow> obj]\<rparr>))"

text \<open>\<open>PATH_MATCH\<close>: path, query if there is a question mark, hash.\<close>

definition path_match :: "string \<Rightarrow> (string \<times> string option \<times> string option) option" where
  "path_match url =
    (let path = takeWhile (\<lambda>c. c \<noteq> CHR ''?'' \<and> c \<noteq> CHR ''#'') url; rest = drop (length path) url;
         q = (case rest of c # r \<Rightarrow> if c = CHR ''?'' then Some (takeWhile (\<lambda>c. c \<noteq> CHR ''#'') r) else None | [] \<Rightarrow> None);
         rest = (case q of Some s \<Rightarrow> drop (Suc (length s)) rest | None \<Rightarrow> rest)
     in case rest of
          [] \<Rightarrow> Some (path, q, None)
        | h # t \<Rightarrow> if CHR 0x0A \<in> set t \<or> CHR 0x0D \<in> set t then None else Some (path, q, Some t))"

definition ng_set_url :: "location_config \<Rightarrow> string \<Rightarrow> ng_location \<Rightarrow> ng_location js_res" where
  "ng_set_url cf url l = (case path_match url of None \<Rightarrow> Inl TypeError | Some (path, query, hash) \<Rightarrow>
    js_bind (if path = [] then Inr l else js_bind (decode_or path) (\<lambda>p. ng_path cf (Some (Some p)) l)) (\<lambda>l1.
    js_bind (if query \<noteq> None \<or> path \<noteq> [] then ng_search_string cf (case query of Some q \<Rightarrow> q | None \<Rightarrow> []) l1 else Inr l1) (\<lambda>l2.
      ng_hash cf (Some (Some (case hash of Some h \<Rightarrow> h | None \<Rightarrow> []))) l2)))"

section \<open>What the browser promises\<close>

text \<open>
  The URL standard, for an address of the page's own server: path, query and fragment of an encoded address are
  what they were, except that the apostrophe in a query may be escaped.  A path that starts with two slashes
  names another server, and segments that decode to dots are resolved away; both are left out.
\<close>

definition url_path :: "string \<Rightarrow> bool" where
  "url_path p \<longleftrightarrow> take 1 p = ''/'' \<and> take 1 (drop 1 p) \<noteq> ''/'' \<and> list_all (\<lambda>c. url_char c \<or> c = CHR ''/'') p \<and>
    (\<forall>s \<in> set (split_on (CHR ''/'') p). uri_decode s \<noteq> Some ''.'' \<and> uri_decode s \<noteq> Some ''..'')"

definition resolves_urls :: "(string \<Rightarrow> anchor) \<Rightarrow> bool" where
  "resolves_urls A \<longleftrightarrow> (\<exists>q. \<forall>p s h. url_path p \<longrightarrow> list_all url_char s \<longrightarrow> list_all url_char h \<longrightarrow>
    A (p @ (if s \<noteq> [] then CHR ''?'' # s else []) @ (if h \<noteq> [] then CHR ''#'' # h else [])) =
      \<lparr>an_pathname = p, an_search = (if s \<noteq> [] then CHR ''?'' # quoted q s else []),
       an_hash = (if h \<noteq> [] then CHR ''#'' # h else [])\<rparr>)"

text \<open>A path of the application: it starts with one slash and has no dot segments.\<close>

definition path_ok :: "string \<Rightarrow> bool" where
  "path_ok p \<longleftrightarrow> utf8_ok p \<and> take 1 p = ''/'' \<and> take 1 (drop 1 p) \<noteq> ''/'' \<and>
    ''.'' \<notin> set (split_on (CHR ''/'') p) \<and> ''..'' \<notin> set (split_on (CHR ''/'') p)"

lemma enc_but_nonempty: "enc_but K c \<noteq> []"
  by (simp add: enc_but_def encode_char_def)

lemma url_char_not: "url_char c \<Longrightarrow> c \<noteq> CHR ''/'' \<and> c \<noteq> CHR ''?'' \<and> c \<noteq> CHR ''#''"
  by (auto simp: url_char_def unreserved_def segment_plain_def)

lemma segment_chars: "list_all url_char (encodeUriSegment s)"
  unfolding encodeUriSegment_chars by (rule enc_but_url_chars) simp

lemma path_ok_encoded:
  assumes "path_ok p"
  shows "url_path (encodePath p)"
proof -
  let ?K = "insert (CHR ''/'') segment_plain"
  from assms obtain r where p: "p = CHR ''/'' # r" by (cases p) (auto simp: path_ok_def)
  have P: "encodePath p = CHR ''/'' # concat (map (enc_but ?K) r)" by (simp add: encodePath_chars p enc_but_def)
  have no: "take 1 (drop 1 (encodePath p)) \<noteq> ''/''"
  proof (cases r)
    case (Cons c t)
    with assms p have c: "c \<noteq> CHR ''/''" by (auto simp: path_ok_def)
    obtain x xs where x: "enc_but ?K c = x # xs" using enc_but_nonempty [of ?K c] by (cases "enc_but ?K c") auto
    have "x \<in> set (enc_but segment_plain c)" using x c by (auto simp: enc_but_def split: if_splits)
    then have "url_char x" using enc_but_url_chars [of segment_plain "[c]"] by (auto simp: list_all_iff)
    with x show ?thesis using url_char_not by (simp add: P Cons)
  qed (simp add: P)
  have chars: "list_all (\<lambda>c. url_char c \<or> c = CHR ''/'') (encodePath p)"
    using enc_but_chars unfolding encodePath_chars by (fastforce simp: list_all_iff url_char_def)
  have slash: "\<forall>w \<in> set (map encodeUriSegment (split_on (CHR ''/'') p)). CHR ''/'' \<notin> set w"
    using segment_chars url_char_not by (fastforce simp: list_all_iff)
  have "split_on (CHR ''/'') (encodePath p) = map encodeUriSegment (split_on (CHR ''/'') p)"
    unfolding encodePath_def by (rule split_join [OF _ slash]) (simp add: split_on_nonempty)
  moreover have "uri_decode (encodeUriSegment s) = Some s" for s
    unfolding encodeUriSegment_chars by (rule uri_decode_blocks) (simp add: decode_enc_but segment_plain_def)
  ultimately show ?thesis using assms no chars by (auto simp: url_path_def P path_ok_def)
qed

lemma coded_query_chars: "list_all url_char (coded_query (query_char False) obj)"
proof -
  have c: "list_all url_char (concat (map (query_char False) s))" for s
    using enc_but_url_chars [of query_plain s] by (auto simp: query_char_def [abs_def] query_plain_def segment_plain_def)
  have "list_all url_char (coded_part (query_char False) k a)" for k a
    using c by (cases "atom_text a") (simp_all add: coded_part_def, simp add: url_char_def segment_plain_def)
  then have "\<forall>w \<in> set (concat (map (coded_parts (query_char False)) obj)). list_all url_char w"
    by (auto simp: coded_parts_def split: search_val.splits)
  moreover have "\<forall>w \<in> set ws. list_all url_char w \<Longrightarrow> list_all url_char (js_join_chars ''&'' ws)" for ws
    by (induction "''&''" ws rule: js_join_chars.induct) (simp_all add: url_char_def [of "CHR ''&''"] segment_plain_def)
  ultimately show ?thesis by (simp add: coded_query_def)
qed

lemma quoted_nonempty: "quoted q s = [] \<longleftrightarrow> s = []"
  by (cases s) auto

lemma toKeyValue_Inr: "toKeyValue obj = Inr s \<Longrightarrow> s = coded_query (query_char False) obj"
  using toKeyValue_coded [of obj] by (auto simp: toKeyValue_def js_bind_Inr_iff forEach_keys_def split: if_splits)

section \<open>Addresses read back\<close>

lemma parseAppUrl_slash:
  assumes "take 1 u = ''/''" "urlResolve A u = \<lparr>an_pathname = P, an_search = s, an_hash = h\<rparr>"
    "decode_or P = Inr p" "decode_or h = Inr h'" "p \<noteq> []" "hd p = CHR ''/''"
  shows "parseAppUrl A u l = Inr (l\<lparr>nl_path := p, nl_search := parseKeyValue s, nl_hash := h'\<rparr>)"
  using assms by (simp add: parseAppUrl_def)

text \<open>Parsing the address of a composed location, given without its leading slash or with it.\<close>

lemma parseAppUrl_composed:
  assumes A: "resolves_urls A" and p: "path_ok (nl_path l)" and s: "search_ok (nl_search l)" and h: "utf8_ok (nl_hash l)"
    and l: "ng_compose cf l = Inr l1" and u: "u = nl_url l1 \<or> u = tl (nl_url l1)"
  shows "\<exists>p'. parseAppUrl A u l0 = Inr (l0\<lparr>nl_path := p', nl_search := nl_search l, nl_hash := nl_hash l\<rparr>) \<and>
    (p' = nl_path l \<or> u = tl (nl_url l1) \<and> p' = [] \<and> nl_path l = ''/'')"
proof -
  let ?s = "coded_query (query_char False) (nl_search l)"
  let ?h = "encodeUriSegment (nl_hash l)"
  let ?P = "encodePath (nl_path l)"
  let ?url = "?P @ (if ?s \<noteq> [] then CHR ''?'' # ?s else []) @ (if ?h \<noteq> [] then CHR ''#'' # ?h else [])"
  have hash: "?h = [] \<longleftrightarrow> nl_hash l = []"
    by (cases "nl_hash l") (simp_all add: encodeUriSegment_chars enc_but_nonempty)
  have url: "nl_url l1 = ?url"
    using l hash by (auto simp: ng_compose_def js_bind_Inr_iff Let_def dest!: toKeyValue_Inr)
  from A obtain q where res: "A ?url = \<lparr>an_pathname = ?P, an_search = (if ?s \<noteq> [] then CHR ''?'' # quoted q ?s else []),
       an_hash = (if ?h \<noteq> [] then CHR ''#'' # ?h else [])\<rparr>"
    unfolding resolves_urls_def using path_ok_encoded [OF p] coded_query_chars segment_chars by blast
  from p obtain r where path: "nl_path l = CHR ''/'' # r" by (cases "nl_path l") (auto simp: path_ok_def)
  have P: "?P = CHR ''/'' # encodePath r" by (simp add: encodePath_chars path enc_but_def)
  have "url_path (CHR ''/'' # encodePath r)" using path_ok_encoded [OF p] by (simp only: P)
  then have r: "take 1 (encodePath r) \<noteq> ''/''" "utf8_ok r"
    using p by (simp_all add: url_path_def path path_ok_def)
  have slash: "take 1 r \<noteq> ''/''" using p by (simp add: path path_ok_def)
  have resolved: "urlResolve A ?url = \<lparr>an_pathname = ?P, an_search = quoted q ?s, an_hash = ?h\<rparr>"
    unfolding urlResolve_def res by (simp add: P drop_first_def quoted_nonempty)
  have query: "parseKeyValue (quoted q ?s) = nl_search l"
    by (simp add: quoted_query parse_coded_query [OF query_char_encoder s])
  have dec: "decode_or ?P = Inr (nl_path l)" "decode_or (encodePath r) = Inr r" "decode_or ?h = Inr (nl_hash l)"
    using p r h by (simp_all add: decode_or_def decode_path decode_segment path_ok_def)
  define U where "U = ?url"
  have U: "urlResolve A U = \<lparr>an_pathname = ?P, an_search = quoted q ?s, an_hash = ?h\<rparr>" "take 1 U = ''/''" "nl_url l1 = U"
    "take 1 (tl U) = ''/'' \<Longrightarrow> False"
    using resolved url r(1) unfolding U_def by (simp_all add: P, cases "encodePath r") (auto split: if_splits)
  show ?thesis
  proof (cases "take 1 u = ''/''")
    case True
    then have "u = U" using u U(3,4) by auto
    moreover have "parseAppUrl A U l0 = Inr (l0\<lparr>nl_path := nl_path l, nl_search := nl_search l, nl_hash := nl_hash l\<rparr>)"
      using U(2) by (simp add: parseAppUrl_def U(1) dec query) (simp add: path)
    ultimately show ?thesis by blast
  next
    case False
    with U(2,3) u have u': "u = tl U" "CHR ''/'' # u = U" by (cases U; auto)+
    have "parseAppUrl A u l0 = Inr (l0\<lparr>nl_path := (if r \<noteq> [] then nl_path l else []), nl_search := nl_search l, nl_hash := nl_hash l\<rparr>)"
    proof -
      have "parseAppUrl A u l0 = js_bind (decode_or (encodePath r)) (\<lambda>path. js_bind (decode_or ?h) (\<lambda>hash.
          Inr (l0\<lparr>nl_path := (if path \<noteq> [] \<and> hd path \<noteq> CHR ''/'' then CHR ''/'' # path else path),
            nl_search := parseKeyValue (quoted q ?s), nl_hash := hash\<rparr>)))"
        unfolding parseAppUrl_def using False by (simp add: u'(2) U(1)) (simp add: P)
      then show ?thesis unfolding dec(2,3) using slash by (simp add: query) (cases r; simp add: path)
    qed
    with u' U(3) show ?thesis by (cases r) (auto simp: path)
  qed
qed

lemma beginsWith_append [simp]: "beginsWith b (b @ s) = Some s"
  by (simp add: beginsWith_def)

lemma drive_name_kept:
  assumes "cf_base cf = b # bs" "b \<noteq> CHR ''/''" "take 1 (nl_path l) = ''/''" "u = encodePath (nl_path l) @ t"
  shows "removeWindowsDriveName (nl_path l) u (cf_base cf) = nl_path l"
proof -
  let ?K = "insert (CHR ''/'') segment_plain"
  from assms(3) obtain r where p: "nl_path l = CHR ''/'' # r" by (cases "nl_path l") auto
  have P: "u = CHR ''/'' # concat (map (enc_but ?K) r) @ t" by (simp add: assms(4) encodePath_chars p enc_but_def)
  have nb: "beginsWith (cf_base cf) u = None" using assms(1,2) by (simp add: beginsWith_def P)
  show ?thesis
  proof (cases "windows_path (nl_path l)")
    case (Some w)
    then obtain d q where r: "r = d # CHR '':'' # CHR ''/'' # q" and d: "(65 :: nat) \<le> of_char d" "of_char d \<le> (90 :: nat)"
      by (auto simp: p split: if_splits elim!: windows_path.elims)
    have "list_all (\<lambda>n. enc_but ?K (char_of n) = [char_of n]) [65..<91::nat]" by code_simp
    then have "\<forall>n \<in> {65..<91::nat}. enc_but ?K (char_of n) = [char_of n]" by (simp only: list_all_iff set_upt)
    then have "enc_but ?K (char_of (of_char d :: nat)) = [char_of (of_char d :: nat)]" using d by fastforce
    then have "enc_but ?K d = [d]" by simp
    then have "windows_path u \<noteq> None" using d by (simp add: P r enc_but_def segment_plain_def)
    then show ?thesis by (simp add: removeWindowsDriveName_def nb)
  qed (simp add: removeWindowsDriveName_def nb Let_def)
qed

definition config_ok :: "location_config \<Rightarrow> bool" where
  "config_ok cf \<longleftrightarrow> take 1 (cf_prefix cf) = ''#'' \<and> cf_base cf \<noteq> [] \<and> hd (cf_base cf) \<noteq> CHR ''/''"

text \<open>C35: an address that \<open>$location\<close> composes from a path, a search object and a hash is read back, in each of the
  three modes, to the same path, search object and hash, on every browser that resolves addresses by the
  URL standard.\<close>

theorem address_roundtrip:
  assumes "resolves_urls A" "config_ok cf" "path_ok (nl_path l)" "search_ok (nl_search l)" "utf8_ok (nl_hash l)"
    "ng_compose cf l = Inr l1"
  shows "ng_parse A cf (nl_absUrl l1) l0 = Inr (l1\<lparr>nl_replace := nl_replace l0\<rparr>)"
proof -
  let ?same = "l0\<lparr>nl_path := nl_path l, nl_search := nl_search l, nl_hash := nl_hash l\<rparr>"
  from assms(6) obtain k where k: "toKeyValue (nl_search l) = Inr k" by (auto simp: ng_compose_def js_bind_Inr_iff)
  define t where "t = (if k \<noteq> [] then CHR ''?'' # k else []) @
    (if nl_hash l \<noteq> [] then CHR ''#'' # encodeUriSegment (nl_hash l) else [])"
  have l1: "l1 = l\<lparr>nl_url := encodePath (nl_path l) @ t, nl_absUrl := abs_url cf (encodePath (nl_path l) @ t)\<rparr>"
    using assms(6) unfolding t_def by (simp add: ng_compose_def k Let_def)
  have again: "ng_compose cf ?same = Inr (l1\<lparr>nl_replace := nl_replace l0\<rparr>)"
    unfolding l1 t_def by (simp add: ng_compose_def k Let_def)
  have again': "ng_compose cf (l0\<lparr>nl_search := nl_search l, nl_hash := nl_hash l, nl_path := nl_path l\<rparr>) =
      Inr (l1\<lparr>nl_replace := nl_replace l0\<rparr>)" unfolding l1 t_def by (simp add: ng_compose_def k Let_def)
  have url_l1: "nl_url l1 = encodePath (nl_path l) @ t" "nl_absUrl l1 = abs_url cf (nl_url l1)" by (simp_all add: l1)
  from assms(2) obtain b bs where base: "cf_base cf = b # bs" "b \<noteq> CHR ''/''" by (cases "cf_base cf") (auto simp: config_ok_def)
  from assms(2) obtain ps where pre: "cf_prefix cf = CHR ''#'' # ps" by (cases "cf_prefix cf") (auto simp: config_ok_def)
  have slash: "take 1 (nl_path l) = ''/''" using assms(3) by (simp add: path_ok_def)
  have url: "nl_url l1 \<noteq> []" "take 1 (nl_url l1) = ''/''"
    using path_ok_encoded [OF assms(3)] by (simp_all add: url_l1(1) url_path_def) (cases "encodePath (nl_path l)"; simp)+
  note parse = parseAppUrl_composed [OF assms(1,3-6), where ?l0.0 = l0]
  show ?thesis
  proof (cases "cf_mode cf = Html5")
    case True
    from parse [of "tl (nl_url l1)"] obtain p' where p': "parseAppUrl A (tl (nl_url l1)) l0 =
        Inr (l0\<lparr>nl_path := p', nl_search := nl_search l, nl_hash := nl_hash l\<rparr>)" "p' = nl_path l \<or> p' = [] \<and> nl_path l = ''/''" by blast
    have "nl_path l \<noteq> []" using slash by auto
    with p' again again' True show ?thesis by (auto simp: ng_parse_def html5_parse_def url_l1(2) abs_url_def)
  next
    case False
    have "parseAppUrl A (nl_url l1) l0 = Inr ?same"
    proof -
      from parse [of "nl_url l1"] obtain p' where p': "parseAppUrl A (nl_url l1) l0 =
          Inr (l0\<lparr>nl_path := p', nl_search := nl_search l, nl_hash := nl_hash l\<rparr>)"
        "p' = nl_path l \<or> nl_url l1 = tl (nl_url l1)" by blast
      moreover have "nl_url l1 \<noteq> tl (nl_url l1)" using url(1) by (metis not_Cons_self2 list.collapse)
      ultimately show ?thesis by auto
    qed
    moreover have "removeWindowsDriveName (nl_path l) (nl_url l1) (cf_base cf) = nl_path l"
      by (rule drive_name_kept [OF base slash url_l1(1)])
    moreover have "beginsWith (CHR ''#'' # ps) (CHR ''#'' # ps @ nl_url l1) = Some (nl_url l1)"
      using beginsWith_append [of "CHR ''#'' # ps"] by simp
    ultimately show ?thesis using False again again' url pre
      by (cases "cf_mode cf") (simp_all add: ng_parse_def hashbang_parse_def url_l1(2) abs_url_def)
  qed
qed

text \<open>A browser that only cuts the address at its marks.\<close>

definition cutting_anchor :: "string \<Rightarrow> anchor" where
  "cutting_anchor url =
    (let hash = dropWhile (\<lambda>c. c \<noteq> CHR ''#'') url; front = takeWhile (\<lambda>c. c \<noteq> CHR ''#'') url
     in \<lparr>an_pathname = takeWhile (\<lambda>c. c \<noteq> CHR ''?'') front, an_search = dropWhile (\<lambda>c. c \<noteq> CHR ''?'') front, an_hash = hash\<rparr>)"

lemma cut_marks:
  assumes "list_all (\<lambda>c. c \<noteq> m) s"
  shows "takeWhile (\<lambda>c. c \<noteq> m) (s @ m # t) = s" "dropWhile (\<lambda>c. c \<noteq> m) (s @ m # t) = m # t"
    "takeWhile (\<lambda>c. c \<noteq> m) s = s" "dropWhile (\<lambda>c. c \<noteq> m) s = []"
  using assms by (induction s) auto

lemma cutting_anchor_resolves: "resolves_urls cutting_anchor"
proof -
  have q: "quoted False s = s" for s by (induction s) auto
  have "cutting_anchor (p @ (if s \<noteq> [] then CHR ''?'' # s else []) @ (if h \<noteq> [] then CHR ''#'' # h else [])) =
      \<lparr>an_pathname = p, an_search = (if s \<noteq> [] then CHR ''?'' # quoted False s else []), an_hash = (if h \<noteq> [] then CHR ''#'' # h else [])\<rparr>"
    if "url_path p" "list_all url_char s" for p s h
  proof -
    have p: "list_all (\<lambda>c. c \<noteq> CHR ''#'') p" "list_all (\<lambda>c. c \<noteq> CHR ''?'') p"
      using that(1) url_char_not by (fastforce simp: url_path_def list_all_iff)+
    have s: "list_all (\<lambda>c. c \<noteq> CHR ''#'') s" using that(2) url_char_not by (fastforce simp: list_all_iff)
    have ps: "list_all (\<lambda>c. c \<noteq> CHR ''#'') (p @ CHR ''?'' # s)" using p s by simp
    show ?thesis
      using cut_marks [OF p(1)] cut_marks [OF p(2)] cut_marks [OF ps] by (simp add: cutting_anchor_def q)
  qed
  then show ?thesis unfolding resolves_urls_def by blast
qed

definition logs_location :: ng_location where
  "logs_location = \<lparr>nl_path = ''/logs'', nl_search = [(''group'', One (AStr ''a b&c'')), (''all'', One ATrue)], nl_hash = ''top'',
     nl_url = [], nl_absUrl = [], nl_replace = False\<rparr>"

definition page_config :: "location_mode \<Rightarrow> location_config" where
  "page_config m = \<lparr>cf_mode = m, cf_base = ''http://wigo/'', cf_prefix = ''#''\<rparr>"

theorem address_roundtrip_witness:
  "\<exists>l. ng_compose (page_config Hashbang) logs_location = Inr l \<and> nl_absUrl l = ''http://wigo/#/logs?group=a%20b%26c&all#top'' \<and>
    ng_parse cutting_anchor (page_config Hashbang) (nl_absUrl l) logs_location = Inr l"
proof -
  have ok: "config_ok (page_config Hashbang)" "path_ok (nl_path logs_location)" "search_ok (nl_search logs_location)"
    "utf8_ok (nl_hash logs_location)" by code_simp+
  have "(case ng_compose (page_config Hashbang) logs_location of Inl e \<Rightarrow> False
    | Inr l \<Rightarrow> nl_absUrl l = ''http://wigo/#/logs?group=a%20b%26c&all#top'' \<and> nl_replace l = False)" by code_simp
  then obtain l where l: "ng_compose (page_config Hashbang) logs_location = Inr l"
    "nl_absUrl l = ''http://wigo/#/logs?group=a%20b%26c&all#top''" "nl_replace l = nl_replace logs_location"
    by (cases "ng_compose (page_config Hashbang) logs_location") (auto simp: logs_location_def)
  from address_roundtrip [OF cutting_anchor_resolves ok l(1)] l show ?thesis by (intro exI [of _ l]) (simp flip: l(3))
qed

section \<open>Addresses that break the location\<close>

text \<open>What \<open>forEach\<close> stumbles over: any key \<open>hasOwnProperty\<close>, or a key \<open>forEach\<close> whose value is truthy.\<close>

definition breaks_forEach :: "string \<Rightarrow> bool" where
  "breaks_forEach q \<longleftrightarrow> said_of q ''hasOwnProperty'' \<noteq> None \<or>
    said_of q ''forEach'' \<notin> {None, Some (One (AStr [])), Some (One AUndef)}"

lemma forEach_keys_query: "forEach_keys (parseKeyValue q) = (if breaks_forEach q then Inl TypeError else Inr (parseKeyValue q))"
proof -
  have get: "js_get (parseKeyValue q) k = said_of q k" for k
    by (simp add: parse_query_pairs put_pairs_get said_of_def)
  show ?thesis
    unfolding forEach_keys_def get breaks_forEach_def
    by (auto simp: truthy_val_def split: option.splits search_val.splits search_atom.splits)
qed

text \<open>The text of an address behind the prefix: a path, a query, and a hash if there is one.\<close>

definition app_text :: "string \<Rightarrow> string \<Rightarrow> string \<Rightarrow> string" where
  "app_text p q h = encodePath p @ ''?'' @ q @ (if h = [] then [] else CHR ''#'' # encodeUriSegment h)"

lemma parse_app_text:
  assumes A: "resolves_urls A" and p: "path_ok p" and q: "list_all url_char q" "q \<noteq> []" and h: "utf8_ok h"
  shows "parseAppUrl A (app_text p q h) l = Inr (l\<lparr>nl_path := p, nl_search := parseKeyValue q, nl_hash := h\<rparr>)"
proof -
  let ?h = "encodeUriSegment h"
  have hash: "?h = [] \<longleftrightarrow> h = []" by (cases h) (simp_all add: encodeUriSegment_chars enc_but_nonempty)
  have hc: "list_all url_char ?h" by (simp add: encodeUriSegment_chars enc_but_url_chars)
  from A obtain b where "\<And>p s h. url_path p \<Longrightarrow> list_all url_char s \<Longrightarrow> list_all url_char h \<Longrightarrow>
      A (p @ (if s \<noteq> [] then CHR ''?'' # s else []) @ (if h \<noteq> [] then CHR ''#'' # h else [])) =
        \<lparr>an_pathname = p, an_search = (if s \<noteq> [] then CHR ''?'' # quoted b s else []),
         an_hash = (if h \<noteq> [] then CHR ''#'' # h else [])\<rparr>"
    unfolding resolves_urls_def by blast
  from this [OF path_ok_encoded [OF p] q(1) hc] q(2) hash
  have res: "A (app_text p q h) =
      \<lparr>an_pathname = encodePath p, an_search = CHR ''?'' # quoted b q, an_hash = (if h \<noteq> [] then CHR ''#'' # ?h else [])\<rparr>"
    by (cases "h = []") (simp_all add: app_text_def)
  from path_ok_encoded [OF p] obtain r where P: "encodePath p = CHR ''/'' # r" by (cases "encodePath p") (auto simp: url_path_def)
  have r: "urlResolve A (app_text p q h) = \<lparr>an_pathname = encodePath p, an_search = quoted b q, an_hash = ?h\<rparr>"
    unfolding urlResolve_def res using hash by (cases "h = []") (simp_all add: P drop_first_def)
  have dec: "decode_or (encodePath p) = Inr p" "decode_or ?h = Inr h"
    using p h by (simp_all add: decode_or_def decode_path decode_segment path_ok_def)
  have "p \<noteq> []" "hd p = CHR ''/''" using p by (cases p; auto simp: path_ok_def)+
  from parseAppUrl_slash [OF _ r dec this] show ?thesis by (simp add: app_text_def P parse_quoted)
qed

lemma ng_compose_search:
  "ng_compose cf l = Inr l' \<Longrightarrow> nl_search l' = nl_search l \<and> nl_hash l' = nl_hash l"
  "forEach_keys (nl_search l) = Inr kvs \<Longrightarrow> \<exists>l'. ng_compose cf l = Inr l'"
  by (auto simp: ng_compose_def toKeyValue_def js_bind_Inr_iff Let_def split: sum.split)

text \<open>C36: some addresses cannot be opened.  Reading an address of the application whose query has a key
  \<open>hasOwnProperty\<close>, or a key \<open>forEach\<close> with a truthy value, raises a TypeError, since \<open>forEach\<close> asks the search object
  for members of these names; every other address of a path, a query and a hash opens with its query and its hash.\<close>

theorem reserved_key_raises:
  assumes "resolves_urls A" "config_ok cf" "cf_mode cf \<noteq> Html5" "path_ok p" "list_all url_char q" "q \<noteq> []" "utf8_ok h"
  shows "case ng_parse A cf (cf_base cf @ cf_prefix cf @ app_text p q h) l of
      Inl e \<Rightarrow> breaks_forEach q \<and> e = TypeError
    | Inr l' \<Rightarrow> \<not> breaks_forEach q \<and> nl_search l' = parseKeyValue q \<and> nl_hash l' = h"
proof -
  from assms(2) obtain ps where pre: "cf_prefix cf = CHR ''#'' # ps" by (cases "cf_prefix cf") (auto simp: config_ok_def)
  have bw: "beginsWith (CHR ''#'' # ps) (CHR ''#'' # ps @ app_text p q h) = Some (app_text p q h)"
    using beginsWith_append [of "CHR ''#'' # ps"] by simp
  obtain l1 where l1: "nl_search l1 = parseKeyValue q" "nl_hash l1 = h"
    and ng: "ng_parse A cf (cf_base cf @ cf_prefix cf @ app_text p q h) l = ng_compose cf l1"
  proof
    show "ng_parse A cf (cf_base cf @ cf_prefix cf @ app_text p q h) l = ng_compose cf (l\<lparr>nl_search := parseKeyValue q, nl_hash := h,
        nl_path := removeWindowsDriveName p (app_text p q h) (cf_base cf)\<rparr>)"
      using assms(3) bw parse_app_text [OF assms(1,4-7)] by (simp add: ng_parse_def hashbang_parse_def pre)
  qed simp_all
  show ?thesis
  proof (cases "breaks_forEach q")
    case True
    then show ?thesis by (simp add: ng ng_compose_def toKeyValue_def l1 forEach_keys_query)
  next
    case False
    then obtain l' where "ng_compose cf l1 = Inr l'"
      using ng_compose_search(2) [of l1 "parseKeyValue q" cf] by (auto simp: l1 forEach_keys_query)
    with False ng_compose_search(1) [OF this] show ?thesis by (simp add: ng l1)
  qed
qed

theorem reserved_key_raises_witness:
  "ng_parse cutting_anchor (page_config Hashbang) ''http://wigo/#/logs?group=a&forEach#top'' logs_location = Inl TypeError \<and>
   (\<exists>l'. ng_parse cutting_anchor (page_config Hashbang) ''http://wigo/#/logs?group=a&forEach='' logs_location = Inr l' \<and>
     nl_search l' = [(''group'', One (AStr ''a'')), (''forEach'', One (AStr []))])"
proof -
  have ok: "config_ok (page_config Hashbang)" "path_ok ''/logs''" "list_all url_char ''group=a&forEach''"
    "list_all url_char ''group=a&forEach=''" "utf8_ok ''top''" "utf8_ok []" by code_simp+
  have texts: "app_text ''/logs'' ''group=a&forEach'' ''top'' = ''/logs?group=a&forEach#top''"
    "app_text ''/logs'' ''group=a&forEach='' [] = ''/logs?group=a&forEach=''" by code_simp+
  have breaks: "breaks_forEach ''group=a&forEach''" "\<not> breaks_forEach ''group=a&forEach=''"
    "parseKeyValue ''group=a&forEach='' = [(''group'', One (AStr ''a'')), (''forEach'', One (AStr []))]" by code_simp+
  note opened = reserved_key_raises [OF cutting_anchor_resolves ok(1) _ ok(2), where l = logs_location]
  from opened [OF _ ok(3) _ ok(5)] opened [OF _ ok(4) _ ok(6)] show ?thesis
    by (auto simp: page_config_def texts breaks split: sum.splits)
qed

end
