(* ===== verification/Ng_Route.thy ===== *)
theory Ng_Route
  imports Ng_Location App_Services
begin

text \<open>
  The route service of AngularJS (public/bower_components/angular-route/angular-route.js): route patterns
  (\<open>pathRegExp\<close>, \<open>switchRouteMatcher\<close>), the table (\<open>when\<close>, \<open>otherwise\<close>, \<open>parseRoute\<close>) and the change of the current
  route (\<open>updateRoute\<close>, \<open>interpolate\<close>), with the routes of the web client.  A pattern with characters that
  have a meaning in regular expressions and are not escaped, and a \<open>redirectTo\<close> that is a function, are not
  modelled.
\<close>

section \<open>Patterns\<close>

datatype capture_kind = Plain_Key | Optional_Key | Star_Key

text \<open>A character, or a key with whether a slash belongs to it.\<close>

datatype route_piece = Lit char | Key bool string capture_kind

definition word_char :: "char \<Rightarrow> bool" where
  "word_char c \<longleftrightarrow> c \<in> set ''ABCDEFGHIJKLMNOPQRSTUVWXYZabcdefghijklmnopqrstuvwxyz0123456789_''"

definition unescaped_special :: "char \<Rightarrow> bool" where
  "unescaped_special c \<longleftrightarrow> c \<in> set ''[]{}+^|?'' \<or> c = CHR 0x5C"

definition key_kind_of :: "string \<Rightarrow> capture_kind \<times> string" where
  "key_kind_of s = (case s of
      c # r \<Rightarrow> if c = CHR ''?'' then (Optional_Key, r) else if c = CHR ''*'' then (Star_Key, r) else (Plain_Key, s)
    | [] \<Rightarrow> (Plain_Key, []))"

text \<open>\<open>(\/)?:(\w+)([\?\*])?\<close> at the start of the text: the piece and the rest.\<close>

definition route_key_at :: "string \<Rightarrow> (route_piece \<times> string) option" where
  "route_key_at s =
    (let slash = (take 1 s = ''/''); r = (if slash then tl s else s); name = takeWhile word_char (tl r)
     in if take 1 r = '':'' \<and> name \<noteq> []
        then (case key_kind_of (dropWhile word_char (tl r)) of (k, rest) \<Rightarrow> Some (Key slash name k, rest)) else None)"

lemma route_key_at_shorter: "route_key_at s = Some (p, rest) \<Longrightarrow> length rest < length s"
proof -
  assume a: "route_key_at s = Some (p, rest)"
  let ?r = "if take 1 s = ''/'' then tl s else s"
  from a have r: "take 1 ?r = '':''" and k: "rest = snd (key_kind_of (dropWhile word_char (tl ?r)))"
    by (auto simp: route_key_at_def Let_def split: if_splits prod.splits)
  have "length (snd (key_kind_of t)) \<le> length t" for t by (cases t) (auto simp: key_kind_of_def)
  then have "length rest \<le> length (tl ?r)" unfolding k by (meson le_trans length_dropWhile_le)
  moreover have "?r \<noteq> []" using r by auto
  ultimately show ?thesis by (cases s) (auto split: if_splits)
qed

function route_pieces :: "string \<Rightarrow> route_piece list option" where
  "route_pieces s = (case s of [] \<Rightarrow> Some [] | c # r \<Rightarrow>
    (case route_key_at s of
       Some (p, rest) \<Rightarrow> map_option (Cons p) (route_pieces rest)
     | None \<Rightarrow> if unescaped_special c then None else map_option (Cons (Lit c)) (route_pieces r)))"
  by pat_completeness auto
termination by (relation "measure length") (auto dest: route_key_at_shorter)

declare route_pieces.simps [simp del]

definition pathRegExp :: "string \<Rightarrow> route_piece list js_res" where
  "pathRegExp path = (case route_pieces path of Some ps \<Rightarrow> Inr ps | None \<Rightarrow> Inl Unsupported)"

section \<open>Matching\<close>

fun first_some :: "'a option list \<Rightarrow> 'a option" where
  "first_some [] = None"
| "first_some (None # xs) = first_some xs"
| "first_some (Some x # xs) = Some x"

definition lower_char :: "char \<Rightarrow> char" where
  "lower_char c = (if (65 :: nat) \<le> of_char c \<and> of_char c \<le> (90 :: nat) then char_of (of_char c + (32 :: nat)) else c)"

text \<open>The captures of the whole text, in the order the engine tries them: greedy for \<open>[^/]+\<close>, lazy for \<open>.+?\<close>;
  an optional key may be absent with or without its slash.\<close>

fun match_pieces :: "bool \<Rightarrow> route_piece list \<Rightarrow> string \<Rightarrow> string option list option" where
  "match_pieces ins [] s = (if s = [] then Some [] else None)"
| "match_pieces ins (Lit c # ps) s = (case s of
      x # r \<Rightarrow> if x = c \<or> ins \<and> lower_char x = lower_char c then match_pieces ins ps r else None
    | [] \<Rightarrow> None)"
| "match_pieces ins (Key slash name k # ps) s =
    (let enter = (if slash then (case s of x # r \<Rightarrow> if x = CHR ''/'' then Some r else None | [] \<Rightarrow> None) else Some s);
         seg = (\<lambda>r. rev (map Suc [0..<length (takeWhile (\<lambda>c. c \<noteq> CHR ''/'') r)]));
         line = (\<lambda>r. map Suc [0..<length (takeWhile (\<lambda>c. c \<noteq> CHR 0x0A \<and> c \<noteq> CHR 0x0D) r)]);
         cut = (\<lambda>r n. map_option (Cons (Some (take n r))) (match_pieces ins ps (drop n r)));
         absent = (\<lambda>r. map_option (Cons None) (match_pieces ins ps r))
     in case k of
          Plain_Key \<Rightarrow> (case enter of Some r \<Rightarrow> first_some (map (cut r) (seg r)) | None \<Rightarrow> None)
        | Star_Key \<Rightarrow> (case enter of Some r \<Rightarrow> first_some (map (cut r) (line r)) | None \<Rightarrow> None)
        | Optional_Key \<Rightarrow> first_some ((case enter of Some r \<Rightarrow> map (cut r) (seg r) @ [absent r] | None \<Rightarrow> []) @ [absent s]))"

section \<open>The table\<close>

text \<open>The argument of \<open>when\<close>, and a route of the table.\<close>

record 'a route_def =
  rd_redirectTo :: "string option"
  rd_reloadOnSearch :: "bool option"
  rd_caseInsensitive :: bool
  rd_target :: "'a option"

record 'a route =
  rt_regexp :: "route_piece list option"
  rt_redirectTo :: "string option"
  rt_reloadOnSearch :: bool
  rt_caseInsensitive :: bool
  rt_target :: "'a option"

type_synonym 'a route_table = "(string \<times> 'a route) list"

definition define_route :: "string option \<Rightarrow> 'a route_def \<Rightarrow> 'a route js_res" where
  "define_route path d =
    js_bind (case path of Some p \<Rightarrow> if p = [] then Inr None else js_bind (pathRegExp p) (\<lambda>ps. Inr (Some ps)) | None \<Rightarrow> Inr None) (\<lambda>re.
      Inr \<lparr>rt_regexp = re, rt_redirectTo = rd_redirectTo d,
        rt_reloadOnSearch = (case rd_reloadOnSearch d of Some b \<Rightarrow> b | None \<Rightarrow> True),
        rt_caseInsensitive = rd_caseInsensitive d, rt_target = rd_target d\<rparr>)"

definition redirect_path :: "string \<Rightarrow> string" where
  "redirect_path path = (if last path = CHR ''/'' then butlast path else path @ ''/'')"

text \<open>\<open>when(path, route)\<close>; \<^const>\<open>None\<close> is the null of \<open>otherwise\<close>, kept under the key \<open>null\<close>.  The redirection has
  no \<open>reloadOnSearch\<close>.\<close>

definition when_route :: "string option \<Rightarrow> 'a route_def \<Rightarrow> 'a route_table \<Rightarrow> 'a route_table js_res" where
  "when_route path d routes =
    js_bind (define_route path d) (\<lambda>r.
      (let key = (case path of Some p \<Rightarrow> p | None \<Rightarrow> ''null''); routes1 = AList.update key r routes
       in case path of
            Some (c # p) \<Rightarrow> js_bind (pathRegExp (redirect_path (c # p))) (\<lambda>re.
              Inr (AList.update (redirect_path (c # p))
                \<lparr>rt_regexp = Some re, rt_redirectTo = Some (c # p), rt_reloadOnSearch = False,
                 rt_caseInsensitive = rd_caseInsensitive d, rt_target = None\<rparr> routes1))
          | _ \<Rightarrow> Inr routes1))"

definition otherwise :: "'a route_def \<Rightarrow> 'a route_table \<Rightarrow> 'a route_table js_res" where
  "otherwise d routes = when_route None d routes"

fun piece_keys :: "route_piece list \<Rightarrow> string list" where
  "piece_keys [] = []"
| "piece_keys (Key sl n k # ps) = n # piece_keys ps"
| "piece_keys (Lit c # ps) = piece_keys ps"

definition switchRouteMatcher :: "string \<Rightarrow> 'a route \<Rightarrow> search_val js_obj option" where
  "switchRouteMatcher on r = (case rt_regexp r of
      None \<Rightarrow> None
    | Some ps \<Rightarrow> map_option (\<lambda>m. fold (\<lambda>(k, v) params. case v of
          Some t \<Rightarrow> if t \<noteq> [] then AList.update k (One (AStr t)) params else params
        | None \<Rightarrow> params) (zip (piece_keys ps) m) []) (match_pieces (rt_caseInsensitive r) ps on))"

text \<open>A match: the key of its route in the table, \<open>params\<close> and \<open>pathParams\<close>.\<close>

record route_match =
  rm_route :: string
  rm_params :: "search_val js_obj"
  rm_pathParams :: "search_val js_obj"

definition extend_params :: "search_val js_obj \<Rightarrow> search_val js_obj \<Rightarrow> search_val js_obj" where
  "extend_params params extra = fold (\<lambda>(k, v). AList.update k v) extra params"

fun find_route :: "string \<Rightarrow> 'a route_table \<Rightarrow> (string \<times> search_val js_obj) option" where
  "find_route on [] = None"
| "find_route on ((key, r) # routes) = (case switchRouteMatcher on r of
      Some params \<Rightarrow> Some (key, params)
    | None \<Rightarrow> find_route on routes)"

definition parseRoute :: "'a route_table \<Rightarrow> ng_location \<Rightarrow> route_match option" where
  "parseRoute routes l = (case find_route (nl_path l) routes of
      Some (key, params) \<Rightarrow> Some \<lparr>rm_route = key, rm_params = extend_params (nl_search l) params, rm_pathParams = params\<rparr>
    | None \<Rightarrow> map_option (\<lambda>r. \<lparr>rm_route = ''null'', rm_params = [], rm_pathParams = []\<rparr>) (map_of routes ''null''))"

section \<open>Redirection\<close>

text \<open>The text of a parameter in a joined array; an undefined one is empty.\<close>

definition atom_string :: "search_atom \<Rightarrow> string" where
  "atom_string a = (case a of AStr s \<Rightarrow> s | ATrue \<Rightarrow> ''true'' | AUndef \<Rightarrow> [])"

definition param_string :: "search_val option \<Rightarrow> string" where
  "param_string v = (case v of None \<Rightarrow> [] | Some (One a) \<Rightarrow> atom_string a
    | Some (Many as') \<Rightarrow> js_join_chars '','' (map (\<lambda>a. if a = AUndef then [] else atom_string a) as'))"

text \<open>One segment of \<open>interpolate\<close>: what it adds, and the parameters that are left.\<close>

definition interpolate_segment :: "string \<Rightarrow> search_val js_obj \<Rightarrow> (string \<times> search_val js_obj) js_res" where
  "interpolate_segment segment params =
    (let w = dropWhile (\<lambda>c. \<not> word_char c) segment; key = takeWhile word_char w; r = dropWhile word_char w
     in if w = [] then Inl TypeError
        else Inr (param_string (map_of params key) @
            takeWhile (\<lambda>c. c \<noteq> CHR 0x0A \<and> c \<noteq> CHR 0x0D) (if take 1 r = ''?'' \<or> take 1 r = ''*'' then tl r else r),
          filter (\<lambda>(k, v). k \<noteq> key) params))"

fun interpolate_segments :: "string list \<Rightarrow> search_val js_obj \<Rightarrow> (string \<times> search_val js_obj) js_res" where
  "interpolate_segments [] params = Inr ([], params)"
| "interpolate_segments (s # ss) params =
    js_bind (interpolate_segment s params) (\<lambda>(t, params1).
    js_bind (interpolate_segments ss params1) (\<lambda>(u, params2). Inr (t @ u, params2)))"

definition interpolate :: "string \<Rightarrow> search_val js_obj \<Rightarrow> (string \<times> search_val js_obj) js_res" where
  "interpolate s params = (case split_on (CHR '':'') s of
      [] \<Rightarrow> Inr ([], params)
    | seg # segs \<Rightarrow> js_bind (interpolate_segments segs params) (\<lambda>(t, params1). Inr (seg @ t, params1)))"

section \<open>The current route\<close>

text \<open>A change of route is numbered; \<open>rs_pending\<close> holds those whose template has not arrived yet, and
  \<open>rs_shown\<close> is the last one that succeeded.\<close>

record route_state =
  rs_current :: "(nat \<times> route_match option) option"
  rs_force :: bool
  rs_pending :: "(nat \<times> route_match option) list"
  rs_next :: nat
  rs_routeParams :: "search_val js_obj"
  rs_shown :: "nat option"
  rs_updates :: nat

definition current_match :: "route_state \<Rightarrow> route_match option" where
  "current_match st = (case rs_current st of Some (n, m) \<Rightarrow> m | None \<Rightarrow> None)"

text \<open>\<open>$location.path(...).search(params).replace()\<close>\<close>

definition redirect :: "location_config \<Rightarrow> string \<Rightarrow> search_val js_obj \<Rightarrow> ng_location \<Rightarrow> ng_location js_res" where
  "redirect cf path params l =
    js_bind (ng_path cf (Some (Some path)) l) (\<lambda>l1.
    js_bind (ng_search_object cf (map (\<lambda>(k, v). (k, Some v)) params) l1) (\<lambda>l2. Inr (l2\<lparr>nl_replace := True\<rparr>)))"

text \<open>A new current route, with its template still to come.\<close>

definition change_route :: "route_match option \<Rightarrow> route_state \<Rightarrow> route_state" where
  "change_route m st = st\<lparr>rs_force := False, rs_current := Some (rs_next st, m),
     rs_pending := rs_pending st @ [(rs_next st, m)], rs_next := Suc (rs_next st)\<rparr>"

text \<open>\<open>updateRoute\<close>; \<open>interpolate\<close> takes the parameters it uses out of \<open>next.params\<close>.\<close>

definition updateRoute :: "location_config \<Rightarrow> 'a route_table \<Rightarrow> ng_location \<times> route_state \<Rightarrow> (ng_location \<times> route_state) js_res" where
  "updateRoute cf routes s = (case s of (l, st) \<Rightarrow>
    (let next' = parseRoute routes l; last' = current_match st
     in case (next', last') of
          (None, None) \<Rightarrow> Inr (l, st)
        | _ \<Rightarrow>
          if (case (next', last') of
                (Some n, Some m) \<Rightarrow> rm_route n = rm_route m \<and> rm_pathParams n = rm_pathParams m \<and>
                  (case map_of routes (rm_route n) of Some r \<Rightarrow> \<not> rt_reloadOnSearch r | None \<Rightarrow> True) \<and> \<not> rs_force st
              | _ \<Rightarrow> False)
          then Inr (l, st\<lparr>rs_current := map_option (\<lambda>(i, m). (i, map_option (rm_params_update (\<lambda>_. rm_params (the next'))) m)) (rs_current st),
              rs_routeParams := rm_params (the next'), rs_updates := Suc (rs_updates st)\<rparr>)
          else case next' of
              None \<Rightarrow> Inr (l, change_route None st)
            | Some n \<Rightarrow> (case (case map_of routes (rm_route n) of Some r \<Rightarrow> rt_redirectTo r | None \<Rightarrow> None) of
                None \<Rightarrow> Inr (l, change_route (Some n) st)
              | Some to \<Rightarrow> if to = [] then Inr (l, change_route (Some n) st)
                  else js_bind (interpolate to (rm_params n)) (\<lambda>(path, params).
                    js_bind (redirect cf path params l) (\<lambda>l1. Inr (l1, change_route (Some (n\<lparr>rm_params := params\<rparr>)) st))))))"

text \<open>The template and the resolved values of a change arrive, or fail to.\<close>

definition route_resolved :: "bool \<Rightarrow> nat \<Rightarrow> route_state \<Rightarrow> route_state" where
  "route_resolved ok i st =
    (case map_of (rs_pending st) i of
       None \<Rightarrow> st
     | Some next' \<Rightarrow>
         (let st1 = st\<lparr>rs_pending := filter (\<lambda>(j, m). j \<noteq> i) (rs_pending st)\<rparr>
          in if map_option fst (rs_current st) = Some i \<and> ok
             then st1\<lparr>rs_shown := Some i,
                rs_routeParams := (case current_match st of Some n \<Rightarrow> rm_params n | None \<Rightarrow> rs_routeParams st)\<rparr>
             else st1))"

definition route_reload_force :: "route_state \<Rightarrow> route_state" where
  "route_reload_force st = st\<lparr>rs_force := True\<rparr>"

definition route_start :: route_state where
  "route_start = \<lparr>rs_current = None, rs_force = False, rs_pending = [], rs_next = 0, rs_routeParams = [], rs_shown = None, rs_updates = 0\<rparr>"

text \<open>The digest runs until the location stays: every change of it leads to another update.  Each round uses one
  unit of fuel.\<close>

fun settle :: "nat \<Rightarrow> location_config \<Rightarrow> 'a route_table \<Rightarrow> ng_location \<times> route_state \<Rightarrow> (ng_location \<times> route_state) js_res" where
  "settle 0 cf routes s = Inl OutOfFuel"
| "settle (Suc n) cf routes s =
    js_bind (updateRoute cf routes s) (\<lambda>t. if nl_absUrl (fst t) = nl_absUrl (fst s) then Inr t else settle n cf routes t)"

section \<open>The routes of the web client\<close>

definition client_route :: "controller \<times> string \<Rightarrow> (controller \<times> string) route_def" where
  "client_route t = \<lparr>rd_redirectTo = None, rd_reloadOnSearch = Some False, rd_caseInsensitive = False, rd_target = Some t\<rparr>"

definition client_routes :: "(controller \<times> string) route_table js_res" where
  "client_routes =
    js_bind (js_foldM (\<lambda>(p, t). when_route (Some p) (client_route t)) app_routes [])
      (otherwise \<lparr>rd_redirectTo = Some ''/'', rd_reloadOnSearch = None, rd_caseInsensitive = False, rd_target = None\<rparr>)"

section \<open>Routes without keys\<close>

lemma match_lits: "match_pieces False (map Lit p) s = (if s = p then Some [] else None)"
  by (induction p arbitrary: s) (auto split: list.splits)

text \<open>The table of the client, written out: each path, its redirection, and the route of \<open>otherwise\<close>.\<close>

definition target_route :: "string \<Rightarrow> controller \<times> string \<Rightarrow> (controller \<times> string) route" where
  "target_route p t = \<lparr>rt_regexp = Some (map Lit p), rt_redirectTo = None, rt_reloadOnSearch = False, rt_caseInsensitive = False, rt_target = Some t\<rparr>"

definition redirect_route :: "string \<Rightarrow> string \<Rightarrow> (controller \<times> string) route" where
  "redirect_route p q = \<lparr>rt_regexp = Some (map Lit p), rt_redirectTo = Some q, rt_reloadOnSearch = False, rt_caseInsensitive = False, rt_target = None\<rparr>"

definition otherwise_route :: "(controller \<times> string) route" where
  "otherwise_route = \<lparr>rt_regexp = None, rt_redirectTo = Some ''/'', rt_reloadOnSearch = True, rt_caseInsensitive = False, rt_target = None\<rparr>"

definition client_table :: "(controller \<times> string) route_table" where
  "client_table = concat (map (\<lambda>(p, t). [(p, target_route p t), (redirect_path p, redirect_route (redirect_path p) p)]) app_routes)
     @ [(''null'', otherwise_route)]"

lemma route_pieces_lits: "CHR '':'' \<notin> set p \<Longrightarrow> \<forall>c \<in> set p. \<not> unescaped_special c \<Longrightarrow> route_pieces p = Some (map Lit p)"
proof (induction p)
  case (Cons c p)
  have "route_key_at (c # p) = None" using Cons.prems(1) by (cases p) (auto simp: route_key_at_def Let_def)
  with Cons show ?case by (subst route_pieces.simps) simp
qed (subst route_pieces.simps, simp)

text \<open>A path the pattern of which is its text.\<close>

definition plain_route :: "string \<Rightarrow> bool" where
  "plain_route p \<longleftrightarrow> p \<noteq> [] \<and> CHR '':'' \<notin> set p \<and> list_all (\<lambda>c. \<not> unescaped_special c) p"

lemma when_client_route:
  assumes "plain_route p"
  shows "when_route (Some p) (client_route t) routes =
    Inr (AList.update (redirect_path p) (redirect_route (redirect_path p) p) (AList.update p (target_route p t) routes))"
proof -
  have "route_pieces p = Some (map Lit p)"
    using assms by (intro route_pieces_lits) (auto simp: plain_route_def list_all_iff)
  then have re: "pathRegExp p = Inr (map Lit p)" by (simp add: pathRegExp_def)
  have "set (redirect_path p) \<subseteq> insert (CHR ''/'') (set p)" by (auto simp: redirect_path_def dest: in_set_butlastD)
  then have "route_pieces (redirect_path p) = Some (map Lit (redirect_path p))"
    using assms by (intro route_pieces_lits) (auto simp: plain_route_def list_all_iff unescaped_special_def)
  then have "pathRegExp (redirect_path p) = Inr (map Lit (redirect_path p))" by (simp add: pathRegExp_def)
  with re assms show ?thesis
    by (cases p) (simp_all add: when_route_def define_route_def client_route_def target_route_def redirect_route_def plain_route_def)
qed

lemma client_routes_table: "client_routes = Inr client_table"
proof -
  have plain: "list_all plain_route [''/'', ''/group'', ''/host'', ''/logs'', ''/authority'']" by code_simp
  show ?thesis
    using plain
    by (simp add: client_routes_def client_table_def app_routes_def when_client_route redirect_path_def)
      (simp add: otherwise_def when_route_def define_route_def otherwise_route_def)
qed

lemma find_client_route:
  "find_route p client_table =
    (if p \<in> fst ` set app_routes \<or> p \<in> redirect_path ` fst ` set app_routes then Some (p, []) else None)"
proof -
  have m: "switchRouteMatcher on (target_route q t) = (if on = q then Some [] else None)"
    "switchRouteMatcher on (redirect_route q q') = (if on = q then Some [] else None)"
    "switchRouteMatcher on otherwise_route = None" for on q t q'
    by (simp_all add: switchRouteMatcher_def target_route_def redirect_route_def otherwise_route_def match_lits)
  have "find_route p (concat (map (\<lambda>(p, t). [(p, target_route p t), (redirect_path p, redirect_route (redirect_path p) p)]) rs)
      @ [(''null'', otherwise_route)]) =
    (if p \<in> fst ` set rs \<or> p \<in> redirect_path ` fst ` set rs then Some (p, []) else None)" for rs
  proof (induction rs)
    case (Cons pt rs)
    obtain q t where pt: "pt = (q, t)" by (cases pt)
    show ?case using Cons.IH by (cases "p = q"; cases "p = redirect_path q"; simp add: pt m)
  qed (simp add: m)
  then show ?thesis by (simp only: client_table_def)
qed

section \<open>Settling\<close>

lemma encodePath_marks: "list_all (\<lambda>c. c \<noteq> CHR ''?'' \<and> c \<noteq> CHR ''#'') (encodePath p)"
proof -
  have "c \<noteq> CHR ''?'' \<and> c \<noteq> CHR ''#''" if "c \<in> set (enc_but (insert (CHR ''/'') segment_plain) x)" for c x
    using enc_but_chars [OF that] by (auto simp: unreserved_def segment_plain_def)
  then show ?thesis by (auto simp: encodePath_chars list_all_iff)
qed

lemma encodePath_inj:
  assumes "encodePath p @ t = encodePath q @ u" "t = [] \<or> hd t \<in> {CHR ''?'', CHR ''#''}" "u = [] \<or> hd u \<in> {CHR ''?'', CHR ''#''}"
  shows "p = q"
proof -
  let ?plain = "\<lambda>c. c \<noteq> CHR ''?'' \<and> c \<noteq> CHR ''#''"
  have cut: "takeWhile ?plain (encodePath r @ v) = encodePath r" if "v = [] \<or> hd v \<in> {CHR ''?'', CHR ''#''}" for r v
  proof -
    have "takeWhile ?plain (encodePath r @ v) = encodePath r @ takeWhile ?plain v"
      using encodePath_marks [of r] by (intro takeWhile_append2) (simp add: list_all_iff)
    moreover have "takeWhile ?plain v = []" using that by (cases v) auto
    ultimately show ?thesis by simp
  qed
  have dec: "uri_decode (encodePath r) = Some r" for r
    unfolding encodePath_chars by (rule uri_decode_blocks) (simp add: decode_enc_but segment_plain_def)
  from cut [OF assms(2), of p] cut [OF assms(3), of q] assms(1) have "encodePath p = encodePath q" by metis
  with dec [of p] dec [of q] show ?thesis by (metis option.inject)
qed

definition prefixed_mode :: "location_config \<Rightarrow> bool" where
  "prefixed_mode cf \<longleftrightarrow> cf_mode cf \<noteq> Html5 \<and> cf_prefix cf \<noteq> []"

lemma composed_url:
  assumes "ng_compose cf l = Inr l1"
  shows "\<exists>t. (t = [] \<or> hd t \<in> {CHR ''?'', CHR ''#''}) \<and> nl_absUrl l1 = abs_url cf (encodePath (nl_path l) @ t)"
proof -
  from assms obtain k where k: "toKeyValue (nl_search l) = Inr k" by (auto simp: ng_compose_def js_bind_Inr_iff)
  define t where "t = (if k \<noteq> [] then CHR ''?'' # k else []) @
    (if nl_hash l \<noteq> [] then CHR ''#'' # encodeUriSegment (nl_hash l) else [])"
  have "nl_absUrl l1 = abs_url cf (encodePath (nl_path l) @ t)"
    using assms unfolding t_def by (auto simp: ng_compose_def k Let_def)
  moreover have "t = [] \<or> hd t \<in> {CHR ''?'', CHR ''#''}" by (simp add: t_def)
  ultimately show ?thesis by blast
qed

lemma abs_url_path:
  assumes "prefixed_mode cf" "ng_compose cf l = Inr l1" "ng_compose cf m = Inr m1" "nl_absUrl l1 = nl_absUrl m1"
  shows "nl_path l = nl_path m"
proof -
  from composed_url [OF assms(2)] obtain t where t: "t = [] \<or> hd t \<in> {CHR ''?'', CHR ''#''}" "nl_absUrl l1 = abs_url cf (encodePath (nl_path l) @ t)" by blast
  from composed_url [OF assms(3)] obtain u where u: "u = [] \<or> hd u \<in> {CHR ''?'', CHR ''#''}" "nl_absUrl m1 = abs_url cf (encodePath (nl_path m) @ u)" by blast
  have "abs_url cf a = abs_url cf b \<Longrightarrow> a = b" for a b
    using assms(1) by (auto simp: prefixed_mode_def abs_url_def split: location_mode.splits if_splits)
  with assms(4) t(2) u(2) have "encodePath (nl_path l) @ t = encodePath (nl_path m) @ u" by simp
  from encodePath_inj [OF this t(1) u(1)] show ?thesis .
qed

lemma ng_compose_fields: "ng_compose cf l = Inr l1 \<Longrightarrow> nl_path l1 = nl_path l \<and> nl_search l1 = nl_search l \<and> nl_hash l1 = nl_hash l"
  by (auto simp: ng_compose_def js_bind_Inr_iff Let_def)

lemma ng_compose_keys: "(\<exists>l1. ng_compose cf l = Inr l1) \<longleftrightarrow> forEach_keys (nl_search l) = Inr (nl_search l)"
  by (auto simp: ng_compose_def js_bind_Inr_iff Let_def toKeyValue_def forEach_keys_def)

text \<open>A redirection to another path changes the address.\<close>

lemma redirect_moves:
  assumes "prefixed_mode cf" "ng_compose cf l = Inr l" "forEach_keys params = Inr params" "take 1 path = ''/''" "path \<noteq> nl_path l"
  shows "\<exists>l1. redirect cf path params l = Inr l1 \<and> nl_path l1 = path \<and> nl_search l1 = params \<and> nl_absUrl l1 \<noteq> nl_absUrl l"
proof -
  have "forEach_keys (nl_search l) = Inr (nl_search l)" using assms(2) ng_compose_keys by blast
  then obtain l1 where l1: "ng_compose cf (l\<lparr>nl_path := path\<rparr>) = Inr l1"
    using ng_compose_keys [of cf "l\<lparr>nl_path := path\<rparr>"] by auto
  obtain l2 where l2: "ng_compose cf (l1\<lparr>nl_search := params\<rparr>) = Inr l2"
    using ng_compose_keys [of cf "l1\<lparr>nl_search := params\<rparr>"] assms(3) by auto
  note f = ng_compose_fields [OF l1] ng_compose_fields [OF l2]
  have "nl_absUrl l2 \<noteq> nl_absUrl l"
    using abs_url_path [OF assms(1) l2 assms(2)] f assms(5) by auto
  moreover have "''hasOwnProperty'' \<notin> fst ` set params"
    using assms(3) by (auto simp: forEach_keys_def map_of_eq_None_iff split: if_splits)
  moreover have "[(k, v). (k, Some v) \<leftarrow> map (\<lambda>(k, v). (k, Some v)) params] = params" by (induction params) auto
  ultimately show ?thesis
    using l1 l2 f assms(4) by (auto simp: redirect_def ng_path_def ng_search_object_def image_image case_prod_unfold)
qed

text \<open>The five paths of the client, and the paths that redirect to them.\<close>

definition client_path :: "string \<Rightarrow> bool" where
  "client_path p \<longleftrightarrow> p \<in> fst ` set app_routes"

definition alias_of :: "string \<Rightarrow> string \<Rightarrow> bool" where
  "alias_of q p \<longleftrightarrow> client_path p \<and> q = redirect_path p"

lemma client_facts:
  assumes "client_path p"
  shows "map_of client_table p = Some (target_route p (app_route p))"
    "map_of client_table (redirect_path p) = Some (redirect_route (redirect_path p) p)"
    "app_route (redirect_path p) = app_route p" "\<not> client_path (redirect_path p)" "split_on (CHR '':'') p = [p]"
    "take 1 p = ''/''" "p \<noteq> ''null''"
proof -
  have "list_all (\<lambda>p. map_of client_table p = Some (target_route p (app_route p)) \<and>
      map_of client_table (redirect_path p) = Some (redirect_route (redirect_path p) p) \<and>
      app_route (redirect_path p) = app_route p \<and> redirect_path p \<notin> fst ` set app_routes \<and> split_on (CHR '':'') p = [p] \<and>
      take 1 p = ''/'' \<and> p \<noteq> ''null'') (map fst app_routes)" by code_simp
  with assms show "map_of client_table p = Some (target_route p (app_route p))"
    "map_of client_table (redirect_path p) = Some (redirect_route (redirect_path p) p)"
    "app_route (redirect_path p) = app_route p" "\<not> client_path (redirect_path p)" "split_on (CHR '':'') p = [p]"
    "take 1 p = ''/''" "p \<noteq> ''null''"
    unfolding client_path_def list_all_iff set_map by blast+
qed

lemma parse_client: "nl_path l = p \<Longrightarrow> client_path p \<or> (\<exists>q. alias_of p q) \<Longrightarrow>
    parseRoute client_table l = Some \<lparr>rm_route = p, rm_params = nl_search l, rm_pathParams = []\<rparr>"
  by (auto simp: parseRoute_def find_client_route client_path_def alias_of_def extend_params_def)

lemma interpolate_client: "client_path p \<Longrightarrow> interpolate p params = Inr (p, params)"
  by (simp add: interpolate_def client_facts(5))

text \<open>A location on a client path stays; the current route is that path's.\<close>

lemma update_client:
  assumes "client_path (nl_path l)"
  shows "\<exists>st'. updateRoute cf client_table (l, st) = Inr (l, st') \<and> map_option rm_route (current_match st') = Some (nl_path l)"
proof -
  have r: "map_of client_table (nl_path l) = Some (target_route (nl_path l) (app_route (nl_path l)))" using client_facts(1) assms .
  have n: "parseRoute client_table l = Some \<lparr>rm_route = nl_path l, rm_params = nl_search l, rm_pathParams = []\<rparr>"
    using parse_client assms by blast
  show ?thesis
    by (auto simp: updateRoute_def n r target_route_def change_route_def current_match_def Let_def split: option.splits)
qed

text \<open>A location elsewhere is redirected, unless the current route is the redirection itself.\<close>

lemma update_redirect:
  assumes "prefixed_mode cf" "ng_compose cf l = Inr l" "\<not> client_path (nl_path l)"
    "map_option rm_route (current_match st) \<noteq> Some (nl_path l)"
  shows "\<exists>l1 st1. updateRoute cf client_table (l, st) = Inr (l1, st1) \<and> client_path (nl_path l1) \<and>
    app_route (nl_path l1) = app_route (nl_path l) \<and> nl_absUrl l1 \<noteq> nl_absUrl l \<and>
    nl_search l1 = (if \<exists>p. alias_of (nl_path l) p then nl_search l else [])"
proof -
  have keys: "forEach_keys (nl_search l) = Inr (nl_search l)" using assms(2) ng_compose_keys by blast
  show ?thesis
  proof (cases "\<exists>p. alias_of (nl_path l) p")
    case True
    then obtain p where p: "client_path p" "nl_path l = redirect_path p" by (auto simp: alias_of_def)
    have n: "parseRoute client_table l = Some \<lparr>rm_route = nl_path l, rm_params = nl_search l, rm_pathParams = []\<rparr>"
      using parse_client True by blast
    have r: "map_of client_table (nl_path l) = Some (redirect_route (nl_path l) p)" using client_facts(2) [OF p(1)] p(2) by simp
    from redirect_moves [OF assms(1,2) keys client_facts(6) [OF p(1)]] p(1) assms(3) obtain l1 where
      l1: "redirect cf p (nl_search l) l = Inr l1" "nl_path l1 = p" "nl_search l1 = nl_search l" "nl_absUrl l1 \<noteq> nl_absUrl l" by auto
    have "p \<noteq> []" using client_facts(6) [OF p(1)] by auto
    then have "\<exists>st1. updateRoute cf client_table (l, st) = Inr (l1, st1)"
      using assms(4) by (auto simp: updateRoute_def n r redirect_route_def interpolate_client [OF p(1)] l1(1) split: option.splits)
    with l1 p True client_facts(3) [OF p(1)] show ?thesis by auto
  next
    case False
    have no: "map_of (app_routes @ map (\<lambda>(p, r). (redirect_path p, r)) app_routes) (nl_path l) = None"
      using assms(3) False by (force simp: client_path_def alias_of_def map_of_eq_None_iff image_iff)
    have other: "app_route (nl_path l) = (HostsCtrl, ''partials/hosts.html'')"
      using no by (simp only: app_route_def redirect_path_def option.case)
    have root: "client_path ''/''" "app_route ''/'' = (HostsCtrl, ''partials/hosts.html'')" "forEach_keys [] = Inr []" by code_simp+
    have null: "map_of client_table ''null'' = Some otherwise_route" "interpolate ''/'' [] = Inr (''/'', [])" by code_simp+
    have "find_route (nl_path l) client_table = None"
      using assms(3) False by (auto simp: find_client_route client_path_def alias_of_def)
    then have n: "parseRoute client_table l = Some \<lparr>rm_route = ''null'', rm_params = [], rm_pathParams = []\<rparr>"
      by (simp add: parseRoute_def null)
    have "''/'' \<noteq> nl_path l" using assms(3) root(1) by metis
    with redirect_moves [OF assms(1,2) root(3), of "''/''"] obtain l1 where
      l1: "redirect cf ''/'' [] l = Inr l1" "nl_path l1 = ''/''" "nl_search l1 = []" "nl_absUrl l1 \<noteq> nl_absUrl l" by auto
    have "\<exists>st1. updateRoute cf client_table (l, st) = Inr (l1, st1)"
      by (auto simp: updateRoute_def n null otherwise_route_def l1(1) split: option.splits)
    with l1 False other root show ?thesis by auto
  qed
qed

text \<open>C38: from every location and every current route that is not itself a redirection, the routing of the client
  comes to rest after at most three updates: on one of its five paths, with the controller and template of the
  requested path; a redirected trailing slash keeps the query, an unknown path drops it.\<close>

theorem client_routing_settles:
  assumes "client_routes = Inr routes" "prefixed_mode cf" "ng_compose cf l = Inr l"
    "current_match st = None \<or> client_path (rm_route (the (current_match st)))"
  shows "\<exists>l' st' m r. settle 3 cf routes (l, st) = Inr (l', st') \<and> current_match st' = Some m \<and>
    rm_route m = nl_path l' \<and> map_of routes (nl_path l') = Some r \<and> rt_target r = Some (app_route (nl_path l)) \<and>
    nl_search l' = (if client_path (nl_path l) \<or> (\<exists>p. alias_of (nl_path l) p) then nl_search l else [])"
proof -
  have routes: "routes = client_table" using assms(1) unfolding client_routes_table by simp
  have target: "map_of client_table p = Some r \<longrightarrow> rt_target r = Some (app_route p)" if "client_path p" for p r
    using client_facts(1) [OF that] by (auto simp: target_route_def)
  have three: "3 = Suc (Suc (Suc 0))" by simp
  show ?thesis
  proof (cases "client_path (nl_path l)")
    case True
    from update_client [OF True] obtain st' where "updateRoute cf client_table (l, st) = Inr (l, st')"
      "map_option rm_route (current_match st') = Some (nl_path l)" by blast
    with True client_facts(1) [OF True] show ?thesis
      unfolding three routes by (auto simp: target_route_def)
  next
    case False
    with assms(4) have "map_option rm_route (current_match st) \<noteq> Some (nl_path l)" by auto
    from update_redirect [OF assms(2,3) False this] obtain l1 st1 where
      1: "updateRoute cf client_table (l, st) = Inr (l1, st1)" "client_path (nl_path l1)" "app_route (nl_path l1) = app_route (nl_path l)"
        "nl_absUrl l1 \<noteq> nl_absUrl l" "nl_search l1 = (if \<exists>p. alias_of (nl_path l) p then nl_search l else [])" by blast
    from update_client [OF 1(2)] obtain st2 where 2: "updateRoute cf client_table (l1, st1) = Inr (l1, st2)"
      "map_option rm_route (current_match st2) = Some (nl_path l1)" by blast
    have "settle 3 cf client_table (l, st) = Inr (l1, st2)"
      unfolding three using 1(1,4) 2(1) by simp
    with 1 2 False client_facts(1) [OF 1(2)] show ?thesis unfolding routes by (auto simp: target_route_def)
  qed
qed

definition start_location :: ng_location where
  "start_location = \<lparr>nl_path = ''/logs/'', nl_search = [(''group'', One (AStr ''g''))], nl_hash = [], nl_url = ''/logs/?group=g'',
     nl_absUrl = ''http://wigo/#/logs/?group=g'', nl_replace = False\<rparr>"

theorem client_routing_settles_witness:
  "\<exists>l' st' m r. settle 3 (page_config Hashbang) client_table (start_location, route_start) = Inr (l', st') \<and>
    current_match st' = Some m \<and> rm_route m = nl_path l' \<and> map_of client_table (nl_path l') = Some r \<and>
    rt_target r = Some (LogsCtrl, ''partials/logs.html'') \<and> nl_search l' = [(''group'', One (AStr ''g''))]"
proof -
  have "prefixed_mode (page_config Hashbang)" "ng_compose (page_config Hashbang) start_location = Inr start_location"
    "current_match route_start = None" "app_route (nl_path start_location) = (LogsCtrl, ''partials/logs.html'')"
    "alias_of (nl_path start_location) ''/logs''" by code_simp+
  with client_routing_settles [OF client_routes_table, of "page_config Hashbang" start_location route_start]
  show ?thesis by (auto simp: start_location_def)
qed

section \<open>Templates that arrive late\<close>

definition route_ok :: "route_state \<Rightarrow> bool" where
  "route_ok st \<longleftrightarrow> distinct (map fst (rs_pending st)) \<and> (\<forall>i \<in> fst ` set (rs_pending st). i < rs_next st) \<and>
    (case rs_current st of None \<Rightarrow> rs_pending st = []
     | Some (i, m) \<Rightarrow> i < rs_next st \<and> (i \<in> fst ` set (rs_pending st) \<or> rs_shown st = Some i))"

inductive route_step :: "location_config \<Rightarrow> 'a route_table \<Rightarrow> route_state \<Rightarrow> route_state \<Rightarrow> bool" for cf routes where
  update: "updateRoute cf routes (l, st) = Inr (l', st') \<Longrightarrow> route_step cf routes st st'"
| arrived: "route_step cf routes st (route_resolved True i st)"
| reload: "route_step cf routes st (route_reload_force st)"

lemma change_route_ok: "route_ok st \<Longrightarrow> route_ok (change_route m st)"
  by (auto simp: route_ok_def change_route_def less_Suc_eq split: option.splits)

lemma updateRoute_ok:
  assumes "updateRoute cf routes (l, st) = Inr (l', st')" "route_ok st"
  shows "route_ok st'"
proof -
  have "st' = st \<or> (\<exists>m. st' = change_route m st) \<or>
      (\<exists>f ps. rs_current st \<noteq> None \<and> st' = st\<lparr>rs_current := map_option (\<lambda>(i, m). (i, f m)) (rs_current st), rs_routeParams := ps,
        rs_updates := Suc (rs_updates st)\<rparr>)"
    using assms(1) unfolding updateRoute_def Let_def
    by (auto simp: js_bind_Inr_iff current_match_def split: option.splits if_splits prod.splits)
  with assms(2) show ?thesis
    by (auto simp: change_route_ok) (auto simp: route_ok_def split: option.splits prod.splits)
qed

lemma route_resolved_ok: "route_ok st \<Longrightarrow> route_ok (route_resolved True i st)"
  by (auto simp: route_ok_def route_resolved_def Let_def distinct_map_filter map_of_eq_None_iff split: option.splits)

lemma route_step_ok: "route_step cf routes st st' \<Longrightarrow> route_ok st \<Longrightarrow> route_ok st'"
proof (induction rule: route_step.induct)
  case (update l st l' st')
  then show ?case by (rule updateRoute_ok)
next
  case (arrived st i)
  then show ?case by (rule route_resolved_ok)
qed (auto simp: route_ok_def route_reload_force_def split: option.splits)

lemma route_reachable_ok: "(route_step cf routes)\<^sup>*\<^sup>* route_start st \<Longrightarrow> route_ok st"
proof (induction rule: rtranclp_induct)
  case base
  show ?case by (simp add: route_ok_def route_start_def)
next
  case (step st st')
  then show ?case by (blast intro: route_step_ok)
qed

lemma resolve_all:
  "route_ok st \<Longrightarrow> fst ` set (rs_pending st) \<subseteq> set is \<Longrightarrow>
    rs_pending (fold (route_resolved True) is st) = [] \<and> route_ok (fold (route_resolved True) is st) \<and>
    rs_current (fold (route_resolved True) is st) = rs_current st"
proof (induction "is" arbitrary: st)
  case (Cons i is')
  have "rs_current (route_resolved True i st) = rs_current st"
    by (auto simp: route_resolved_def Let_def split: option.splits)
  moreover have "fst ` set (rs_pending (route_resolved True i st)) \<subseteq> fst ` set (rs_pending st) - {i}"
  proof (cases "map_of (rs_pending st) i")
    case None
    then have "i \<notin> fst ` set (rs_pending st)" by (simp add: map_of_eq_None_iff)
    with None show ?thesis by (auto simp: route_resolved_def)
  qed (auto simp: route_resolved_def Let_def)
  then have "fst ` set (rs_pending (route_resolved True i st)) \<subseteq> set is'" using Cons.prems(2) by auto
  ultimately show ?case using Cons.IH [OF route_resolved_ok [OF Cons.prems(1)]] by simp
qed simp

text \<open>C40: in whatever order the templates of the outstanding changes arrive, once they all have the page shown is
  that of the current route: a template that arrives late never replaces the page of a newer route.\<close>

theorem latest_route_shown:
  assumes "(route_step cf routes)\<^sup>*\<^sup>* route_start st" "rs_current st = Some (i, m)" "fst ` set (rs_pending st) \<subseteq> set is"
  shows "rs_pending (fold (route_resolved True) is st) = [] \<and> rs_shown (fold (route_resolved True) is st) = Some i"
proof -
  from resolve_all [OF route_reachable_ok [OF assms(1)] assms(3)] assms(2) show ?thesis
    by (auto simp: route_ok_def)
qed

text \<open>Two navigations before the first template arrives; the templates arrive in the other order.\<close>

definition two_changes :: route_state where
  "two_changes = change_route (Some \<lparr>rm_route = ''/host'', rm_params = [], rm_pathParams = []\<rparr>)
     (change_route (Some \<lparr>rm_route = ''/logs'', rm_params = [], rm_pathParams = []\<rparr>) route_start)"

theorem latest_route_shown_witness:
  "rs_shown (fold (route_resolved True) [1, 0] two_changes) = Some 1"
proof -
  let ?l = "\<lambda>p. start_location\<lparr>nl_path := p, nl_search := []\<rparr>" and ?cf = "page_config Hashbang"
  let ?m = "\<lambda>p. \<lparr>rm_route = p, rm_params = [], rm_pathParams = []\<rparr>"
  have "updateRoute ?cf client_table (?l ''/logs'', route_start) = Inr (?l ''/logs'', change_route (Some (?m ''/logs'')) route_start)"
    "updateRoute ?cf client_table (?l ''/host'', change_route (Some (?m ''/logs'')) route_start) = Inr (?l ''/host'', two_changes)"
    by code_simp+
  then have "(route_step ?cf client_table)\<^sup>*\<^sup>* route_start two_changes"
    by (meson route_step.update rtranclp.rtrancl_into_rtrancl rtranclp.rtrancl_refl)
  moreover have "rs_current two_changes = Some (1, Some (?m ''/host''))" "fst ` set (rs_pending two_changes) = {0, 1}" by code_simp+
  ultimately show ?thesis using latest_route_shown [of ?cf client_table two_changes 1 _ "[1, 0]"] by auto
qed

section \<open>Navigation of the client\<close>

text \<open>\<open>$goto\<close> of the client (public/js/app.js) on the location of AngularJS.\<close>

definition ng_goto :: "location_config \<Rightarrow> string option \<Rightarrow> string \<Rightarrow> string option option \<Rightarrow> ng_location \<Rightarrow> ng_location js_res" where
  "ng_goto cf name page anchor l =
    js_bind (ng_search_set cf ''name'' (map_option (\<lambda>n. One (AStr n)) name) l) (\<lambda>l1.
    js_bind (ng_path cf (Some (Some page)) l1) (\<lambda>l2. ng_hash cf anchor l2))"

definition ng_goto_group :: "location_config \<Rightarrow> string option \<Rightarrow> ng_location \<Rightarrow> ng_location js_res" where
  "ng_goto_group cf g = ng_goto cf g ''group'' (Some None)"

definition ng_goto_host :: "location_config \<Rightarrow> string option \<Rightarrow> ng_location \<Rightarrow> ng_location js_res" where
  "ng_goto_host cf h = ng_goto cf h ''host'' (Some None)"

definition ng_goto_probe :: "location_config \<Rightarrow> string option \<Rightarrow> string option \<Rightarrow> ng_location \<Rightarrow> ng_location js_res" where
  "ng_goto_probe cf h p = ng_goto cf h ''host'' (map_option Some p)"

text \<open>The location seen by the client's own model (App_Services): path, hash and the text of the query.\<close>

definition shows_location :: "ng_location \<Rightarrow> location \<Rightarrow> bool" where
  "shows_location l a \<longleftrightarrow> nl_path l = lo_path a \<and> nl_hash l = lo_hash a \<and>
    (\<forall>k. map_of (nl_search l) k = map_option (\<lambda>s. One (AStr s)) (map_of (lo_search a) k))"

lemma ng_search_set_Inr:
  assumes "forEach_keys (nl_search l) = Inr (nl_search l)"
  shows "\<exists>l1. ng_search_set cf ''name'' v l = Inr l1 \<and> nl_path l1 = nl_path l \<and> nl_hash l1 = nl_hash l \<and>
    map_of (nl_search l1) = (map_of (nl_search l))(''name'' := v) \<and> forEach_keys (nl_search l1) = Inr (nl_search l1)"
proof -
  define s where "s = (case v of None \<Rightarrow> filter (\<lambda>(k, w). k \<noteq> ''name'') (nl_search l) | Some x \<Rightarrow> AList.update ''name'' x (nl_search l))"
  have get: "map_of s = (map_of (nl_search l))(''name'' := v)"
  proof (cases v)
    case None
    have "map_of (filter (\<lambda>(k, w). k \<noteq> ''name'') xs) = (map_of xs)(''name'' := None)" for xs :: "search_val js_obj"
      by (induction xs) auto
    with None show ?thesis by (simp add: s_def)
  qed (simp add: s_def update_conv')
  then have keys: "forEach_keys s = Inr s" using assms by (auto simp: forEach_keys_def split: if_splits)
  then obtain l1 where l1: "ng_compose cf (l\<lparr>nl_search := s\<rparr>) = Inr l1" using ng_compose_keys [of cf "l\<lparr>nl_search := s\<rparr>"] by auto
  have "ng_search_set cf ''name'' v l = Inr l1" using l1 by (simp add: ng_search_set_def s_def split: option.splits)
  with ng_compose_fields [OF l1] get keys show ?thesis by auto
qed

lemma ng_compose_idem:
  assumes "ng_compose cf m = Inr m1" shows "ng_compose cf m1 = Inr m1"
proof -
  from assms obtain k where k: "toKeyValue (nl_search m) = Inr k" by (auto simp: ng_compose_def js_bind_Inr_iff)
  define U where "U = encodePath (nl_path m) @ (if k \<noteq> [] then CHR ''?'' # k else []) @
    (if nl_hash m \<noteq> [] then CHR ''#'' # encodeUriSegment (nl_hash m) else [])"
  have m1: "m1 = m\<lparr>nl_url := U, nl_absUrl := abs_url cf U\<rparr>" using assms by (simp add: ng_compose_def k Let_def U_def)
  show ?thesis unfolding m1 by (simp add: ng_compose_def k Let_def U_def)
qed

lemma ng_goto_Inr:
  assumes "forEach_keys (nl_search l) = Inr (nl_search l)" "take 1 page \<noteq> ''/''"
  shows "\<exists>l1. ng_goto cf name page anchor l = Inr l1 \<and> nl_path l1 = CHR ''/'' # page \<and>
    nl_hash l1 = (case anchor of None \<Rightarrow> nl_hash l | Some a \<Rightarrow> case a of None \<Rightarrow> [] | Some h \<Rightarrow> h) \<and>
    map_of (nl_search l1) = (map_of (nl_search l))(''name'' := map_option (\<lambda>n. One (AStr n)) name) \<and> ng_compose cf l1 = Inr l1"
proof -
  from ng_search_set_Inr [OF assms(1)] obtain l1 where 1: "ng_search_set cf ''name'' (map_option (\<lambda>n. One (AStr n)) name) l = Inr l1"
    "nl_hash l1 = nl_hash l" "map_of (nl_search l1) = (map_of (nl_search l))(''name'' := map_option (\<lambda>n. One (AStr n)) name)"
    "forEach_keys (nl_search l1) = Inr (nl_search l1)" by blast
  obtain l2 where l2: "ng_compose cf (l1\<lparr>nl_path := CHR ''/'' # page\<rparr>) = Inr l2"
    using ng_compose_keys [of cf "l1\<lparr>nl_path := CHR ''/'' # page\<rparr>"] 1(4) by auto
  note f2 = ng_compose_fields [OF l2]
  have p: "ng_path cf (Some (Some page)) l1 = Inr l2" using l2 assms(2) by (simp add: ng_path_def)
  show ?thesis
  proof (cases anchor)
    case None
    then show ?thesis using 1 p f2 ng_compose_idem [OF l2] by (auto simp: ng_goto_def ng_hash_def)
  next
    case (Some a)
    let ?h = "case a of None \<Rightarrow> [] | Some h \<Rightarrow> h"
    obtain l3 where l3: "ng_compose cf (l2\<lparr>nl_hash := ?h\<rparr>) = Inr l3"
      using ng_compose_keys [of cf "l2\<lparr>nl_hash := ?h\<rparr>"] 1(4) f2 by auto
    then show ?thesis using 1 p f2 Some ng_compose_fields [OF l3] ng_compose_idem [OF l3] by (auto simp: ng_goto_def ng_hash_def)
  qed
qed

text \<open>The navigation of App_Services is what these calls do to the location.\<close>

theorem goto_refines:
  assumes "shows_location l a" "forEach_keys (nl_search l) = Inr (nl_search l)"
  shows "\<exists>l1 l2 l3. ng_goto_group cf g l = Inr l1 \<and> shows_location l1 (goto_group g a) \<and>
    ng_goto_host cf h l = Inr l2 \<and> shows_location l2 (goto_host h a) \<and>
    ng_goto_probe cf h p l = Inr l3 \<and> shows_location l3 (goto_probe h p a)"
proof -
  have t: "take 1 ''group'' \<noteq> ''/''" "take 1 ''host'' \<noteq> ''/''" by simp_all
  have "shows_location l1 b"
    if l1: "nl_path l1 = lo_path b" "nl_hash l1 = lo_hash b" "map_of (nl_search l1) = (map_of (nl_search l))(''name'' := map_option (\<lambda>n. One (AStr n)) name)"
      and b: "\<And>k. map_of (lo_search b) k = (if k = ''name'' then name else map_of (lo_search a) k)" for l1 b name
    using assms(1) l1 by (auto simp: shows_location_def b)
  note sim = this
  obtain l1 where l1: "ng_goto_group cf g l = Inr l1" "nl_path l1 = ''/group''" "nl_hash l1 = []"
    "map_of (nl_search l1) = (map_of (nl_search l))(''name'' := map_option (\<lambda>n. One (AStr n)) g)"
    using ng_goto_Inr [OF assms(2) t(1), of cf g "Some None"] by (auto simp: ng_goto_group_def)
  have s1: "shows_location l1 (goto_group g a)"
    by (rule sim [OF _ _ l1(4)]) (auto simp: l1 goto_defs js_get_filter_key split: option.splits)
  obtain l2 where l2: "ng_goto_host cf h l = Inr l2" "nl_path l2 = ''/host''" "nl_hash l2 = []"
    "map_of (nl_search l2) = (map_of (nl_search l))(''name'' := map_option (\<lambda>n. One (AStr n)) h)"
    using ng_goto_Inr [OF assms(2) t(2), of cf h "Some None"] by (auto simp: ng_goto_host_def)
  have s2: "shows_location l2 (goto_host h a)"
    by (rule sim [OF _ _ l2(4)]) (auto simp: l2 goto_defs js_get_filter_key split: option.splits)
  obtain l3 where l3: "ng_goto_probe cf h p l = Inr l3" "nl_path l3 = ''/host''"
    "nl_hash l3 = (case p of None \<Rightarrow> nl_hash l | Some x \<Rightarrow> x)"
    "map_of (nl_search l3) = (map_of (nl_search l))(''name'' := map_option (\<lambda>n. One (AStr n)) h)"
    using ng_goto_Inr [OF assms(2) t(2), of cf h "map_option Some p"] by (cases p) (auto simp: ng_goto_probe_def)
  have "nl_hash l = lo_hash a" using assms(1) by (simp add: shows_location_def)
  then have s3: "shows_location l3 (goto_probe h p a)"
    by (intro sim [OF _ _ l3(4)]) (auto simp: l3 goto_defs js_get_filter_key split: option.splits)
  from l1 s1 l2 s2 l3 s3 show ?thesis by blast
qed

text \<open>C39: from any page, \<open>$goto\<close> to a group or a host leads, with the route reloaded, to the page of that kind: the
  routing rests there with its controller and template, and the address names the group or host without an
  anchor.\<close>

theorem navigation_opens_page:
  assumes "client_routes = Inr routes" "ng_compose cf l = Inr l"
    "(goto, page, target) \<in> {(ng_goto_group, ''/group'', (GroupCtrl, ''partials/group.html'')),
       (ng_goto_host, ''/host'', (HostCtrl, ''partials/host.html''))}"
  shows "\<exists>l1 st' m r. goto cf (Some name) l = Inr l1 \<and> settle 3 cf routes (l1, route_reload_force st) = Inr (l1, st') \<and>
    current_match st' = Some m \<and> rm_route m = page \<and> map_of routes page = Some r \<and> rt_target r = Some target \<and>
    map_of (nl_search l1) ''name'' = Some (One (AStr name)) \<and> nl_hash l1 = []"
proof -
  have routes: "routes = client_table" using assms(1) unfolding client_routes_table by simp
  have keys: "forEach_keys (nl_search l) = Inr (nl_search l)" using assms(2) ng_compose_keys by blast
  have t: "take 1 ''group'' \<noteq> ''/''" "take 1 ''host'' \<noteq> ''/''" by simp_all
  have "\<exists>l1. goto cf (Some name) l = Inr l1 \<and> nl_path l1 = page \<and> map_of (nl_search l1) ''name'' = Some (One (AStr name)) \<and> nl_hash l1 = []"
    using assms(3) ng_goto_Inr [OF keys t(1), of cf "Some name" "Some None"] ng_goto_Inr [OF keys t(2), of cf "Some name" "Some None"]
    by (auto simp: ng_goto_group_def ng_goto_host_def)
  then obtain l1 where l1: "goto cf (Some name) l = Inr l1" "nl_path l1 = page"
    "map_of (nl_search l1) ''name'' = Some (One (AStr name))" "nl_hash l1 = []" by blast
  have app: "client_path ''/group''" "client_path ''/host''" "app_route ''/group'' = (GroupCtrl, ''partials/group.html'')"
    "app_route ''/host'' = (HostCtrl, ''partials/host.html'')" by code_simp+
  then have page: "client_path page" "app_route page = target" using assms(3) by auto
  from page(1) l1(2) have "client_path (nl_path l1)" by simp
  from update_client [OF this, of cf "route_reload_force st"] l1(2) obtain st' where
    st': "updateRoute cf client_table (l1, route_reload_force st) = Inr (l1, st')" "map_option rm_route (current_match st') = Some page" by auto
  have three: "3 = Suc (Suc (Suc 0))" by simp
  have "settle 3 cf client_table (l1, route_reload_force st) = Inr (l1, st')" unfolding three using st'(1) by simp
  with l1 st'(2) client_facts(1) [OF page(1)] page(2) show ?thesis unfolding routes by (auto simp: target_route_def)
qed

theorem navigation_opens_page_witness:
  "\<exists>l1 st' m. ng_goto_host (page_config Hashbang) (Some ''web 1'') start_location = Inr l1 \<and>
    settle 3 (page_config Hashbang) client_table (l1, route_reload_force route_start) = Inr (l1, st') \<and>
    current_match st' = Some m \<and> rm_route m = ''/host''"
proof -
  have "ng_compose (page_config Hashbang) start_location = Inr start_location" by code_simp
  from navigation_opens_page [OF client_routes_table this, of ng_goto_host "''/host''" "(HostCtrl, ''partials/host.html'')" "''web 1''" route_start]
  show ?thesis by blast
qed

end
