(* ===== verification/Ng_Scope.thy ===== *)
theory Ng_Scope
  imports Wigo_Prelude
begin

text \<open>
  The tree of AngularJS scopes (public/bower_components/angular/angular.js, \<open>$rootScope\<close>): every scope is a record
  of links to its parent, its siblings and its first and last child.  \<open>$new\<close> and \<open>$destroy\<close> change the links,
  and \<open>$digest\<close> walks along them.  The links are refined to an abstract tree here; the digest itself is in
  Ng_Digest.
\<close>

section \<open>Links\<close>

record scope_links =
  sl_parent :: "nat option"
  sl_next :: "nat option"
  sl_prev :: "nat option"
  sl_head :: "nat option"
  sl_tail :: "nat option"
  sl_destroyed :: bool

type_synonym scope_heap = "nat \<Rightarrow> scope_links"

definition fresh_scope :: scope_links where
  "fresh_scope = \<lparr>sl_parent = None, sl_next = None, sl_prev = None, sl_head = None, sl_tail = None, sl_destroyed = False\<rparr>"

text \<open>\<open>$new\<close> of the scope \<open>p\<close>; \<open>i\<close> is the new \<open>$id\<close>.\<close>

definition scope_new :: "nat \<Rightarrow> nat \<Rightarrow> scope_heap \<Rightarrow> scope_heap" where
  "scope_new p i h =
    (let h1 = h(i := fresh_scope\<lparr>sl_parent := Some p, sl_prev := sl_tail (h p)\<rparr>)
     in (case (sl_head (h p), sl_tail (h p)) of
           (Some _, Some q) \<Rightarrow> (let h2 = h1(q := (h1 q)\<lparr>sl_next := Some i\<rparr>) in h2(p := (h2 p)\<lparr>sl_tail := Some i\<rparr>))
         | _ \<Rightarrow> h1(p := (h1 p)\<lparr>sl_head := Some i, sl_tail := Some i\<rparr>)))"

text \<open>\<open>$destroy\<close>, apart from the event it broadcasts.  A scope without parent is the root.\<close>

definition set_next :: "nat option \<Rightarrow> nat option \<Rightarrow> scope_heap \<Rightarrow> scope_heap" where
  "set_next q n h = (case q of None \<Rightarrow> h | Some j \<Rightarrow> h(j := (h j)\<lparr>sl_next := n\<rparr>))"

definition set_prev :: "nat option \<Rightarrow> nat option \<Rightarrow> scope_heap \<Rightarrow> scope_heap" where
  "set_prev q n h = (case q of None \<Rightarrow> h | Some j \<Rightarrow> h(j := (h j)\<lparr>sl_prev := n\<rparr>))"

definition scope_destroy :: "nat \<Rightarrow> scope_heap \<Rightarrow> scope_heap" where
  "scope_destroy i h =
    (if sl_destroyed (h i) then h
     else let l = h i; h0 = h(i := l\<lparr>sl_destroyed := True\<rparr>) in
       (case sl_parent l of
          None \<Rightarrow> h0
        | Some p \<Rightarrow>
           (let h1 = h0(p := (h0 p)\<lparr>sl_head := (if sl_head (h0 p) = Some i then sl_next l else sl_head (h0 p)),
                  sl_tail := (if sl_tail (h0 p) = Some i then sl_prev l else sl_tail (h0 p))\<rparr>);
                h2 = set_prev (sl_next l) (sl_prev l) (set_next (sl_prev l) (sl_next l) h1)
            in h2(i := fresh_scope\<lparr>sl_destroyed := True\<rparr>))))"

text \<open>The next scope of the walk: the first child, or the next sibling of the scope or of the nearest ancestor below the
  target that has one.  Climbing past a scope without parent raises.\<close>

fun scope_climb :: "nat \<Rightarrow> scope_heap \<Rightarrow> nat \<Rightarrow> nat \<Rightarrow> nat option js_res" where
  "scope_climb 0 h target cur = Inl OutOfFuel"
| "scope_climb (Suc n) h target cur =
    (if cur = target then Inr None
     else case sl_next (h cur) of
         Some s \<Rightarrow> Inr (Some s)
       | None \<Rightarrow> (case sl_parent (h cur) of None \<Rightarrow> Inl TypeError | Some p \<Rightarrow> scope_climb n h target p))"

definition next_scope :: "nat \<Rightarrow> scope_heap \<Rightarrow> nat \<Rightarrow> nat \<Rightarrow> nat option js_res" where
  "next_scope fuel h target cur =
    (case sl_head (h cur) of Some c \<Rightarrow> Inr (Some c) | None \<Rightarrow> scope_climb fuel h target cur)"

text \<open>The scopes a digest of the target visits; \<open>m\<close> bounds each climb, \<open>n\<close> the number of scopes.\<close>

fun scope_walk :: "nat \<Rightarrow> nat \<Rightarrow> scope_heap \<Rightarrow> nat \<Rightarrow> nat \<Rightarrow> nat list js_res" where
  "scope_walk m 0 h target cur = Inl OutOfFuel"
| "scope_walk m (Suc n) h target cur =
    js_bind (next_scope m h target cur) (\<lambda>nx. case nx of
        None \<Rightarrow> Inr [cur]
      | Some s \<Rightarrow> js_bind (scope_walk m n h target s) (\<lambda>r. Inr (cur # r)))"

section \<open>Trees\<close>

datatype stree = SNode (tree_root: nat) "stree list"

fun preorder :: "stree \<Rightarrow> nat list" where
  "preorder (SNode i ts) = i # concat (map preorder ts)"

definition first_root :: "stree list \<Rightarrow> nat option \<Rightarrow> nat option" where
  "first_root ts n = (case ts of [] \<Rightarrow> n | t # _ \<Rightarrow> Some (tree_root t))"

definition last_root :: "nat option \<Rightarrow> stree list \<Rightarrow> nat option" where
  "last_root p ts = (if ts = [] then p else Some (tree_root (last ts)))"

text \<open>The links represent a tree whose root has the given parent and siblings, and a row of siblings between two others.\<close>

fun tree_ok :: "scope_heap \<Rightarrow> nat option \<Rightarrow> nat option \<Rightarrow> nat option \<Rightarrow> stree \<Rightarrow> bool"
and forest_ok :: "scope_heap \<Rightarrow> nat option \<Rightarrow> nat option \<Rightarrow> nat option \<Rightarrow> stree list \<Rightarrow> bool" where
  "tree_ok h par prv nxt (SNode i ts) \<longleftrightarrow>
     h i = \<lparr>sl_parent = par, sl_next = nxt, sl_prev = prv, sl_head = first_root ts None,
       sl_tail = last_root None ts, sl_destroyed = False\<rparr> \<and> forest_ok h (Some i) None None ts"
| "forest_ok h par prv nxt [] \<longleftrightarrow> True"
| "forest_ok h par prv nxt (t # ts) \<longleftrightarrow>
     tree_ok h par prv (first_root ts nxt) t \<and> forest_ok h par (Some (tree_root t)) nxt ts"

definition forest_nodes :: "stree list \<Rightarrow> nat list" where
  "forest_nodes ts = concat (map preorder ts)"

lemma forest_nodes_simps [simp]:
  "forest_nodes [] = []" "forest_nodes (t # ts) = preorder t @ forest_nodes ts"
  "forest_nodes (ts @ us) = forest_nodes ts @ forest_nodes us"
  by (simp_all add: forest_nodes_def)

lemma preorder_node: "preorder (SNode i ts) = i # forest_nodes ts"
  by (simp add: forest_nodes_def)

declare preorder.simps [simp del]
declare preorder_node [simp]

lemma tree_root_in [simp]: "tree_root t \<in> set (preorder t)"
  by (cases t) simp

lemma first_root_simps [simp]:
  "first_root [] n = n" "first_root (t # ts) n = Some (tree_root t)"
  "first_root (ts @ us) n = first_root ts (first_root us n)"
  by (simp_all add: first_root_def split: list.split)

lemma last_root_simps [simp]:
  "last_root p [] = p" "last_root p (ts @ [t]) = Some (tree_root t)" "last_root p (t # ts) = last_root (Some (tree_root t)) ts"
  by (simp_all add: last_root_def)

lemma last_root_append [simp]: "last_root p (ts @ us) = last_root (last_root p ts) us"
  by (induction ts arbitrary: p) simp_all

lemma ok_cong:
  "(\<And>x. x \<in> set (preorder t) \<Longrightarrow> h x = h' x) \<Longrightarrow> tree_ok h par prv nxt t = tree_ok h' par prv nxt t"
  "(\<And>x. x \<in> set (forest_nodes ts) \<Longrightarrow> h x = h' x) \<Longrightarrow> forest_ok h par prv nxt ts = forest_ok h' par prv nxt ts"
proof (induction h par prv nxt t and h par prv nxt ts rule: tree_ok_forest_ok.induct)
  case (1 h par prv nxt i ts)
  then show ?case by simp
next
  case (3 h par prv nxt t ts)
  then show ?case by simp
qed simp

lemma forest_append:
  "forest_ok h par prv nxt (ts @ us) \<longleftrightarrow>
    forest_ok h par prv (first_root us nxt) ts \<and> forest_ok h par (last_root prv ts) nxt us"
  by (induction ts arbitrary: prv) auto

section \<open>The walk is the preorder\<close>

text \<open>Each scope of a list leads to the next one, and the last one to \<open>r\<close>.\<close>

fun goes :: "nat \<Rightarrow> scope_heap \<Rightarrow> nat \<Rightarrow> nat list \<Rightarrow> nat option \<Rightarrow> bool" where
  "goes m h target [] r \<longleftrightarrow> False"
| "goes m h target [x] r \<longleftrightarrow> next_scope m h target x = Inr r"
| "goes m h target (x # y # xs) r \<longleftrightarrow> next_scope m h target x = Inr (Some y) \<and> goes m h target (y # xs) r"

lemma goes_Cons: "xs \<noteq> [] \<Longrightarrow> goes m h target (x # xs) r \<longleftrightarrow> next_scope m h target x = Inr (Some (hd xs)) \<and> goes m h target xs r"
  by (cases xs) simp_all

lemma goes_append: "goes m h target xs (Some (hd ys)) \<Longrightarrow> goes m h target ys r \<Longrightarrow> goes m h target (xs @ ys) r"
proof (induction xs rule: induct_list012)
  case (2 x)
  then show ?case by (cases ys) simp_all
qed simp_all

lemma goes_walk: "goes m h target xs None \<Longrightarrow> length xs \<le> n \<Longrightarrow> scope_walk m n h target (hd xs) = Inr xs"
proof (induction xs arbitrary: n rule: induct_list012)
  case (2 x)
  then show ?case by (cases n) simp_all
next
  case (3 x y xs)
  then show ?case by (cases n) simp_all
qed simp

lemma climb_mono: "scope_climb k h target cur = Inr r \<Longrightarrow> k \<le> m \<Longrightarrow> scope_climb m h target cur = Inr r"
proof (induction k arbitrary: m cur)
  case (Suc k)
  then obtain m' where "m = Suc m'" by (cases m) auto
  show ?case
  proof (cases "cur = target")
    case False
    show ?thesis
    proof (cases "sl_next (h cur)")
      case None
      with False Suc \<open>m = Suc m'\<close> show ?thesis by (cases "sl_parent (h cur)") simp_all
    next
      case (Some s)
      with False Suc.prems have "r = Some s" by simp
      with False Some \<open>m = Suc m'\<close> show ?thesis by simp
    qed
  qed (use Suc.prems \<open>m = Suc m'\<close> in simp)
qed simp

lemma forest_hd: "ts \<noteq> [] \<Longrightarrow> hd (forest_nodes ts) = tree_root (hd ts)" "ts \<noteq> [] \<Longrightarrow> forest_nodes ts \<noteq> []"
proof -
  have "hd (preorder t) = tree_root t \<and> preorder t \<noteq> []" for t by (cases t) simp
  then show "ts \<noteq> [] \<Longrightarrow> hd (forest_nodes ts) = tree_root (hd ts)" "ts \<noteq> [] \<Longrightarrow> forest_nodes ts \<noteq> []"
    by (cases ts; simp)+
qed

lemma preorder_hd: "hd (preorder t) = tree_root t" "preorder t \<noteq> []"
  by (cases t; simp)+

lemma tree_links: "tree_ok h par prv nxt t \<Longrightarrow> sl_next (h (tree_root t)) = nxt \<and> sl_parent (h (tree_root t)) = par"
  by (cases t) simp

lemma tree_goes:
  "tree_ok h par prv nxt t \<Longrightarrow> target \<notin> set (preorder t) \<Longrightarrow> scope_climb k h target (tree_root t) = Inr r \<Longrightarrow>
    k + length (preorder t) \<le> m \<Longrightarrow> goes m h target (preorder t) r"
  "forest_ok h par prv nxt ts \<Longrightarrow> ts \<noteq> [] \<Longrightarrow> target \<notin> set (forest_nodes ts) \<Longrightarrow>
    scope_climb k h target (tree_root (last ts)) = Inr r \<Longrightarrow> k + length (forest_nodes ts) \<le> m \<Longrightarrow> goes m h target (forest_nodes ts) r"
proof (induction h par prv nxt t and h par prv nxt ts arbitrary: k r and k r rule: tree_ok_forest_ok.induct)
  case (1 h par prv nxt i ts)
  have i: "h i = \<lparr>sl_parent = par, sl_next = nxt, sl_prev = prv, sl_head = first_root ts None,
       sl_tail = last_root None ts, sl_destroyed = False\<rparr>" and f: "forest_ok h (Some i) None None ts"
    using 1 by simp_all
  show ?case
  proof (cases ts rule: rev_cases)
    case Nil
    have "scope_climb k h target i = Inr r" "k \<le> m" using "1.prems" by simp_all
    then have "scope_climb m h target i = Inr r" by (rule climb_mono)
    with Nil i show ?thesis by (simp add: next_scope_def)
  next
    case (snoc us u)
    then have ne: "ts \<noteq> []" and last: "last ts = u" by simp_all
    from f snoc have "tree_ok h (Some i) (last_root None us) None u" by (simp add: forest_append)
    from tree_links [OF this] have "scope_climb (Suc k) h target (tree_root (last ts)) = Inr r"
      using 1 snoc by auto
    from "1.IH" [OF f ne _ this] 1 have "goes m h target (forest_nodes ts) r" by simp
    moreover have "sl_head (h i) = Some (hd (forest_nodes ts))"
      using i ne forest_hd(1) [OF ne] by (cases ts) simp_all
    ultimately show ?thesis using forest_hd(2) [OF ne] by (simp add: goes_Cons next_scope_def)
  qed
next
  case (3 h par prv nxt t ts)
  show ?case
  proof (cases "ts = []")
    case True
    with 3 show ?thesis by simp
  next
    case False
    have tr: "tree_ok h par prv (first_root ts nxt) t" using 3 by simp
    have "tree_root t \<noteq> target" using 3 tree_root_in [of t] by auto
    with tree_links [OF tr] False have "scope_climb 1 h target (tree_root t) = Inr (Some (tree_root (hd ts)))"
      by (cases ts) simp_all
    moreover have "1 + length (preorder t) \<le> m"
      using "3.prems"(5) forest_hd(2) [OF False] by (cases "forest_nodes ts") simp_all
    ultimately have "goes m h target (preorder t) (Some (tree_root (hd ts)))"
      using "3.IH"(1) [OF tr, of 1] "3.prems"(3) by simp
    then have "goes m h target (preorder t) (Some (hd (forest_nodes ts)))"
      using False by (simp add: forest_hd)
    with "3.IH"(2) [of k r] 3 False show ?thesis by (simp add: goes_append)
  qed
qed simp

theorem walk_preorder:
  assumes "tree_ok h par prv nxt t" "distinct (preorder t)"
    and "length (preorder t) + 2 \<le> m" "length (preorder t) \<le> n"
  shows "scope_walk m n h (tree_root t) (tree_root t) = Inr (preorder t)"
proof -
  obtain i ts where t: "t = SNode i ts" by (cases t)
  then have i: "sl_head (h i) = first_root ts None" and f: "forest_ok h (Some i) None None ts" using assms(1) by simp_all
  have "goes m h i (preorder t) None"
  proof (cases ts rule: rev_cases)
    case Nil
    with t i assms(3) show ?thesis by (cases m) (simp_all add: next_scope_def)
  next
    case (snoc us u)
    then have ne: "ts \<noteq> []" by simp
    from f snoc have "tree_ok h (Some i) (last_root None us) None u" by (simp add: forest_append)
    from tree_links [OF this] have "scope_climb 2 h i (tree_root (last ts)) = Inr None"
      using snoc by (auto simp: numeral_2_eq_2)
    from tree_goes(2) [OF f ne _ this, of m] t assms have "goes m h i (forest_nodes ts) None" by simp
    moreover have "sl_head (h i) = Some (hd (forest_nodes ts))"
      using i ne forest_hd(1) [OF ne] by (cases ts) simp_all
    ultimately show ?thesis using t forest_hd(2) [OF ne] by (simp add: goes_Cons next_scope_def)
  qed
  from goes_walk [OF this] t assms(4) show ?thesis by simp
qed

section \<open>\<open>$new\<close> adds a last child\<close>

fun add_child :: "nat \<Rightarrow> nat \<Rightarrow> stree \<Rightarrow> stree" where
  "add_child p i (SNode j ts) = SNode j (map (add_child p i) ts @ (if j = p then [SNode i []] else []))"

lemma add_child_root [simp]: "tree_root (add_child p i t) = tree_root t"
  by (cases t) simp

lemma add_child_other: "p \<notin> set (preorder t) \<Longrightarrow> add_child p i t = t"
proof (induction t)
  case (SNode j ts)
  then have "map (add_child p i) ts = ts" by (intro map_idI) (auto simp: forest_nodes_def)
  with SNode.prems show ?case by auto
qed

lemma first_root_map [simp]: "(\<And>t. tree_root (f t) = tree_root t) \<Longrightarrow> first_root (map f ts) n = first_root ts n"
  by (simp add: first_root_def split: list.split)

lemma last_root_map [simp]: "(\<And>t. tree_root (f t) = tree_root t) \<Longrightarrow> last_root n (map f ts) = last_root n ts"
  by (simp add: last_root_def last_map)

lemma last_root_in: "last_root None ts = Some q \<Longrightarrow> q \<in> set (forest_nodes ts)"
  by (cases ts rule: rev_cases) auto

lemma tail_inside:
  "tree_ok h par prv nxt t \<Longrightarrow> p \<in> set (preorder t) \<Longrightarrow> sl_tail (h p) = Some q \<Longrightarrow> q \<in> set (preorder t)"
  "forest_ok h par prv nxt ts \<Longrightarrow> p \<in> set (forest_nodes ts) \<Longrightarrow> sl_tail (h p) = Some q \<Longrightarrow> q \<in> set (forest_nodes ts)"
proof (induction h par prv nxt t and h par prv nxt ts rule: tree_ok_forest_ok.induct)
  case (1 h par prv nxt i ts)
  then show ?case by (auto dest: last_root_in)
qed auto

lemma retarget_next:
  assumes "tree_ok h par prv nxt t" "distinct (preorder t)"
    and "\<And>x. x \<in> set (preorder t) \<Longrightarrow> x \<noteq> tree_root t \<Longrightarrow> h' x = h x" "h' (tree_root t) = (h (tree_root t))\<lparr>sl_next := n\<rparr>"
  shows "tree_ok h' par prv n t"
proof (cases t)
  case (SNode i ts)
  have "forest_ok h' (Some i) None None ts = forest_ok h (Some i) None None ts"
    by (rule ok_cong(2)) (use assms(2,3) SNode in auto)
  with assms SNode show ?thesis by simp
qed

lemma retarget_prev:
  assumes "tree_ok h par prv nxt t" "distinct (preorder t)"
    and "\<And>x. x \<in> set (preorder t) \<Longrightarrow> x \<noteq> tree_root t \<Longrightarrow> h' x = h x" "h' (tree_root t) = (h (tree_root t))\<lparr>sl_prev := n\<rparr>"
  shows "tree_ok h' par n nxt t"
proof (cases t)
  case (SNode i ts)
  have "forest_ok h' (Some i) None None ts = forest_ok h (Some i) None None ts"
    by (rule ok_cong(2)) (use assms(2,3) SNode in auto)
  with assms SNode show ?thesis by simp
qed

lemma scope_new_frame: "x \<noteq> i \<Longrightarrow> x \<noteq> p \<Longrightarrow> sl_tail (h p) \<noteq> Some x \<Longrightarrow> scope_new p i h x = h x"
  by (simp add: scope_new_def Let_def split: option.split)

lemma new_child:
  assumes "tree_ok h par prv nxt (SNode p ts)" "distinct (preorder (SNode p ts))" "i \<notin> set (preorder (SNode p ts))"
  shows "tree_ok (scope_new p i h) par prv nxt (SNode p (ts @ [SNode i []]))"
proof (cases ts rule: rev_cases)
  case Nil
  with assms show ?thesis by (simp add: scope_new_def fresh_scope_def Let_def)
next
  case (snoc us u)
  have p: "h p = \<lparr>sl_parent = par, sl_next = nxt, sl_prev = prv, sl_head = first_root us (Some (tree_root u)),
       sl_tail = Some (tree_root u), sl_destroyed = False\<rparr>"
    and f: "forest_ok h (Some p) None (Some (tree_root u)) us" "tree_ok h (Some p) (last_root None us) None u"
    using assms(1) snoc by (simp_all add: forest_append)
  from p obtain a where head: "sl_head (h p) = Some a" by (cases us) auto
  have ne: "tree_root u \<noteq> p" "tree_root u \<noteq> i" "i \<noteq> p" "tree_root u \<notin> set (forest_nodes us)"
    using assms(2,3) snoc tree_root_in [of u] by auto
  have new: "scope_new p i h = h(i := fresh_scope\<lparr>sl_parent := Some p, sl_prev := Some (tree_root u)\<rparr>,
      tree_root u := (h (tree_root u))\<lparr>sl_next := Some i\<rparr>, p := (h p)\<lparr>sl_tail := Some i\<rparr>)"
    using ne head p by (simp add: scope_new_def Let_def fun_upd_twist)
  have "tree_ok (scope_new p i h) (Some p) (last_root None us) (Some i) u"
    by (rule retarget_next [OF f(2)]) (use assms(2,3) snoc ne in \<open>auto simp: new\<close>)
  moreover have "forest_ok (scope_new p i h) (Some p) None (Some (tree_root u)) us"
    using f(1) by (subst ok_cong(2) [of us "scope_new p i h" h]) (use assms(2,3) snoc ne in \<open>auto simp: new\<close>)
  ultimately show ?thesis
    using p snoc ne by (simp add: forest_append new fresh_scope_def)
qed

lemma new_refines_tree:
  "tree_ok h par prv nxt t \<Longrightarrow> distinct (preorder t) \<Longrightarrow> p \<in> set (preorder t) \<Longrightarrow> i \<notin> set (preorder t) \<Longrightarrow>
    tree_ok (scope_new p i h) par prv nxt (add_child p i t)"
  "forest_ok h par prv nxt ts \<Longrightarrow> distinct (forest_nodes ts) \<Longrightarrow> p \<in> set (forest_nodes ts) \<Longrightarrow> i \<notin> set (forest_nodes ts) \<Longrightarrow>
    forest_ok (scope_new p i h) par prv nxt (map (add_child p i) ts)"
proof (induction h par prv nxt t and h par prv nxt ts rule: tree_ok_forest_ok.induct)
  case (1 h par prv nxt j ts)
  show ?case
  proof (cases "j = p")
    case True
    with "1.prems" have "map (add_child p i) ts = ts"
      by (intro map_idI add_child_other) (auto simp: forest_nodes_def)
    with new_child [of h par prv nxt p ts i] "1.prems" True show ?thesis by simp
  next
    case False
    with 1 have f: "forest_ok (scope_new p i h) (Some j) None None (map (add_child p i) ts)" by simp
    have "sl_tail (h p) \<noteq> Some j" using tail_inside(2) [of h "Some j" None None ts p j] "1.prems" False by auto
    then have "scope_new p i h j = h j" using "1.prems" False by (intro scope_new_frame) auto
    with f "1.prems" False show ?thesis by simp
  qed
next
  case (3 h par prv nxt t ts)
  have tr: "tree_ok h par prv (first_root ts nxt) t" and fo: "forest_ok h par (Some (tree_root t)) nxt ts" using "3.prems" by simp_all
  show ?case
  proof (cases "p \<in> set (preorder t)")
    case True
    have "forest_ok (scope_new p i h) par (Some (tree_root t)) nxt ts"
      using fo by (subst ok_cong(2) [of ts "scope_new p i h" h])
        (use "3.prems" True tail_inside(1) [OF tr True] in \<open>auto intro!: scope_new_frame\<close>)
    moreover have "map (add_child p i) ts = ts"
      using "3.prems" True by (intro map_idI add_child_other) (auto simp: forest_nodes_def)
    ultimately show ?thesis using "3.IH"(1) "3.prems" True by simp
  next
    case False
    then have p: "p \<in> set (forest_nodes ts)" using "3.prems" by simp
    have "tree_ok (scope_new p i h) par prv (first_root ts nxt) t"
      using tr by (subst ok_cong(1) [of t "scope_new p i h" h])
        (use "3.prems" False p tail_inside(2) [OF fo p] in \<open>auto intro!: scope_new_frame\<close>)
    with "3.IH"(2) "3.prems" p False show ?thesis by (simp add: add_child_other)
  qed
qed simp

section \<open>\<open>$destroy\<close> takes a subtree out\<close>

fun prune :: "nat \<Rightarrow> stree \<Rightarrow> stree" where
  "prune i (SNode j ts) = SNode j (map (prune i) (filter (\<lambda>t. tree_root t \<noteq> i) ts))"

lemma prune_root [simp]: "tree_root (prune i t) = tree_root t"
  by (cases t) simp

lemma prune_other: "i \<notin> set (preorder t) \<Longrightarrow> prune i t = t"
proof (induction t)
  case (SNode j ts)
  have "tree_root t \<noteq> i" if "t \<in> set ts" for t
    using that SNode.prems tree_root_in [of t] by (auto simp: forest_nodes_def)
  then have "filter (\<lambda>t. tree_root t \<noteq> i) ts = ts" by (rule filter_True [OF ballI])
  moreover have "map (prune i) ts = ts" using SNode by (intro map_idI) (auto simp: forest_nodes_def)
  ultimately show ?case by simp
qed

lemma prune_forest: "i \<notin> set (forest_nodes ts) \<Longrightarrow> map (prune i) ts = ts"
  by (intro map_idI prune_other) (auto simp: forest_nodes_def)

lemma forest_roots: "t \<in> set ts \<Longrightarrow> tree_root t \<in> set (forest_nodes ts)"
  by (auto simp: forest_nodes_def intro!: bexI [of _ t])

text \<open>The neighbours of a scope lie in its tree or are those of the tree itself.\<close>

lemma links_inside:
  "tree_ok h par prv nxt t \<Longrightarrow> i \<in> set (preorder t) \<Longrightarrow> x \<in> {sl_parent (h i), sl_prev (h i), sl_next (h i)} \<Longrightarrow>
    x \<in> Some ` set (preorder t) \<union> {par, prv, nxt, None}"
  "forest_ok h par prv nxt ts \<Longrightarrow> i \<in> set (forest_nodes ts) \<Longrightarrow> x \<in> {sl_parent (h i), sl_prev (h i), sl_next (h i)} \<Longrightarrow>
    x \<in> Some ` set (forest_nodes ts) \<union> {par, prv, nxt, None}"
proof (induction h par prv nxt t and h par prv nxt ts rule: tree_ok_forest_ok.induct)
  case (3 h par prv nxt t ts)
  have first: "first_root ts nxt \<in> Some ` set (forest_nodes ts) \<union> {nxt}"
    by (cases ts) simp_all
  have root: "Some (tree_root t) \<in> Some ` set (preorder t)" by simp
  show ?case
  proof (cases "i \<in> set (preorder t)")
    case True
    have "x \<in> Some ` set (preorder t) \<union> {par, prv, first_root ts nxt, None}"
      by (rule "3.IH"(1)) (use "3.prems" True in simp_all)
    with first show ?thesis unfolding forest_nodes_simps set_append by blast
  next
    case False
    have "x \<in> Some ` set (forest_nodes ts) \<union> {par, Some (tree_root t), nxt, None}"
      by (rule "3.IH"(2)) (use "3.prems" False in simp_all)
    with root show ?thesis unfolding forest_nodes_simps set_append by blast
  qed
next
  case (1 h par prv nxt j ts)
  show ?case
  proof (cases "i = j")
    case False
    have "x \<in> Some ` set (forest_nodes ts) \<union> {Some j, None, None, None}"
      by (rule "1.IH") (use "1.prems" False in simp_all)
    then show ?thesis unfolding preorder_node list.set by blast
  qed (use "1.prems" in auto)
qed simp

lemma scope_destroy_frame:
  "x \<noteq> i \<Longrightarrow> sl_parent (h i) \<noteq> Some x \<Longrightarrow> sl_prev (h i) \<noteq> Some x \<Longrightarrow> sl_next (h i) \<noteq> Some x \<Longrightarrow> scope_destroy i h x = h x"
  by (cases "sl_parent (h i)"; cases "sl_prev (h i)"; cases "sl_next (h i)")
    (auto simp: scope_destroy_def Let_def set_next_def set_prev_def)

lemma destroy_child:
  assumes "tree_ok h par prv nxt (SNode p (us @ t # vs))" "distinct (preorder (SNode p (us @ t # vs)))"
  shows "tree_ok (scope_destroy (tree_root t) h) par prv nxt (SNode p (us @ vs))"
proof -
  let ?i = "tree_root t" and ?prv = "last_root None us" and ?nxt = "first_root vs None"
  let ?h = "scope_destroy ?i h"
  have p: "h p = \<lparr>sl_parent = par, sl_next = nxt, sl_prev = prv, sl_head = first_root us (Some ?i),
       sl_tail = last_root (Some ?i) vs, sl_destroyed = False\<rparr>"
    and us: "forest_ok h (Some p) None (Some ?i) us" and vs: "forest_ok h (Some p) (Some ?i) None vs"
    and t: "tree_ok h (Some p) ?prv ?nxt t"
    using assms(1) by (simp_all add: forest_append)
  from t have i: "sl_parent (h ?i) = Some p" "sl_prev (h ?i) = ?prv" "sl_next (h ?i) = ?nxt" "\<not> sl_destroyed (h ?i)"
    by (cases t; simp)+
  have d: "distinct (forest_nodes us)" "distinct (forest_nodes vs)" "p \<notin> set (forest_nodes us)" "p \<notin> set (forest_nodes vs)"
    "?i \<notin> set (forest_nodes us)" "?i \<notin> set (forest_nodes vs)" "?i \<noteq> p" "set (forest_nodes us) \<inter> set (forest_nodes vs) = {}"
    using assms(2) tree_root_in [of t] by (auto simp: disjoint_iff)
  have prv: "x \<in> set (forest_nodes us)" if "?prv = Some x" for x using that by (rule last_root_in)
  have nxt: "x \<in> set (forest_nodes vs)" if "?nxt = Some x" for x using that by (cases vs) auto
  have eq: "?h = (set_prev ?nxt ?prv (set_next ?prv ?nxt (h(?i := (h ?i)\<lparr>sl_destroyed := True\<rparr>,
      p := (h p)\<lparr>sl_head := (if sl_head (h p) = Some ?i then ?nxt else sl_head (h p)),
        sl_tail := (if sl_tail (h p) = Some ?i then ?prv else sl_tail (h p))\<rparr>))))(?i := fresh_scope\<lparr>sl_destroyed := True\<rparr>)"
    using i d by (simp add: scope_destroy_def Let_def)
  have hp: "?h p = \<lparr>sl_parent = par, sl_next = nxt, sl_prev = prv, sl_head = first_root (us @ vs) None,
       sl_tail = last_root None (us @ vs), sl_destroyed = False\<rparr>"
  proof -
    have "first_root us (Some ?i) = Some ?i \<longleftrightarrow> us = []"
      using d(5) by (cases us) (auto, metis tree_root_in)
    moreover have "last_root (Some ?i) vs = Some ?i \<longleftrightarrow> vs = []"
      using d(6) by (cases vs rule: rev_cases) (auto, metis tree_root_in)
    moreover have "?h p = (h p)\<lparr>sl_head := (if sl_head (h p) = Some ?i then ?nxt else sl_head (h p)),
        sl_tail := (if sl_tail (h p) = Some ?i then ?prv else sl_tail (h p))\<rparr>"
      using d prv nxt by (auto simp: eq set_next_def set_prev_def split: option.split)
    ultimately show ?thesis using p by (cases us; cases vs rule: rev_cases) (simp_all add: first_root_def)
  qed
  have same: "?h x = h x" if "x \<noteq> ?i" "x \<noteq> p" "?prv \<noteq> Some x" "?nxt \<noteq> Some x" for x
    using that i by (intro scope_destroy_frame) auto
  have "forest_ok ?h (Some p) None ?nxt us"
  proof (cases us rule: rev_cases)
    case (snoc ws w)
    have "tree_root w \<in> set (forest_nodes us)" using snoc by simp
    then have ne: "tree_root w \<noteq> ?i" "tree_root w \<noteq> p" "?nxt \<noteq> Some (tree_root w)"
      using d(3,5,8) nxt [of "tree_root w"] by (auto simp: disjoint_iff)
    have "?prv = Some (tree_root w)" using snoc by simp
    with ne have w: "?h (tree_root w) = (h (tree_root w))\<lparr>sl_next := ?nxt\<rparr>"
      by (cases ?nxt) (simp_all add: eq set_next_def set_prev_def)
    have other: "?h x = h x" if "x \<in> set (forest_nodes us)" "x \<noteq> tree_root w" for x
      using that d nxt snoc by (intro same) auto
    have "tree_ok ?h (Some p) (last_root None ws) ?nxt w"
      by (rule retarget_next [of h _ _ "Some ?i"]) (use us d snoc other w in \<open>auto simp: forest_append\<close>)
    moreover have "?h x = h x" if "x \<in> set (forest_nodes ws)" for x
      using that d(1) snoc tree_root_in [of w] by (intro other) (auto simp: disjoint_iff)
    then have "forest_ok ?h (Some p) None (Some (tree_root w)) ws"
      using us snoc ok_cong(2) [of ws ?h h] by (simp add: forest_append)
    ultimately show ?thesis using snoc by (simp add: forest_append)
  qed simp
  moreover have "forest_ok ?h (Some p) ?prv None vs"
  proof (cases vs)
    case (Cons w ws)
    have "tree_root w \<in> set (forest_nodes vs)" using Cons by simp
    then have ne: "tree_root w \<noteq> ?i" "tree_root w \<noteq> p" "?prv \<noteq> Some (tree_root w)"
      using d(4,6,8) prv [of "tree_root w"] by (auto simp: disjoint_iff)
    have "?nxt = Some (tree_root w)" using Cons by simp
    with ne have w: "?h (tree_root w) = (h (tree_root w))\<lparr>sl_prev := ?prv\<rparr>"
      by (cases ?prv) (simp_all add: eq set_next_def set_prev_def)
    have other: "?h x = h x" if "x \<in> set (forest_nodes vs)" "x \<noteq> tree_root w" for x
      using that d prv Cons by (intro same) auto
    have "tree_ok ?h (Some p) ?prv (first_root ws None) w"
      by (rule retarget_prev [of h _ "Some ?i"]) (use vs d Cons other w in auto)
    moreover have "?h x = h x" if "x \<in> set (forest_nodes ws)" for x
      using that d(2) Cons tree_root_in [of w] by (intro other) (auto simp: disjoint_iff)
    then have "forest_ok ?h (Some p) (Some (tree_root w)) None ws"
      using vs Cons ok_cong(2) [of ws ?h h] by simp
    ultimately show ?thesis using Cons by simp
  qed simp
  ultimately show ?thesis using hp by (simp add: forest_append)
qed

lemma inner_links:
  "tree_ok h par prv nxt t \<Longrightarrow> i \<in> set (preorder t) \<Longrightarrow> i \<noteq> tree_root t \<Longrightarrow>
    x \<in> {sl_parent (h i), sl_prev (h i), sl_next (h i)} \<Longrightarrow> x \<in> Some ` set (preorder t) \<union> {None}"
  "forest_ok h par prv nxt ts \<Longrightarrow> i \<in> set (forest_nodes ts) \<Longrightarrow> i \<notin> tree_root ` set ts \<Longrightarrow>
    x \<in> {sl_parent (h i), sl_prev (h i), sl_next (h i)} \<Longrightarrow> x \<in> Some ` set (forest_nodes ts) \<union> {None}"
proof -
  have tree: "tree_ok h par prv nxt t \<Longrightarrow> i \<in> set (preorder t) \<Longrightarrow> i \<noteq> tree_root t \<Longrightarrow>
    x \<in> {sl_parent (h i), sl_prev (h i), sl_next (h i)} \<Longrightarrow> x \<in> Some ` set (preorder t) \<union> {None}" for par prv nxt t
    using links_inside(2) [of h _ None None _ i x] by (cases t) fastforce
  then show "tree_ok h par prv nxt t \<Longrightarrow> i \<in> set (preorder t) \<Longrightarrow> i \<noteq> tree_root t \<Longrightarrow>
    x \<in> {sl_parent (h i), sl_prev (h i), sl_next (h i)} \<Longrightarrow> x \<in> Some ` set (preorder t) \<union> {None}" .
  show "forest_ok h par prv nxt ts \<Longrightarrow> i \<in> set (forest_nodes ts) \<Longrightarrow> i \<notin> tree_root ` set ts \<Longrightarrow>
    x \<in> {sl_parent (h i), sl_prev (h i), sl_next (h i)} \<Longrightarrow> x \<in> Some ` set (forest_nodes ts) \<union> {None}"
  proof (induction ts arbitrary: prv)
    case (Cons t ts)
    show ?case
    proof (cases "i \<in> set (preorder t)")
      case True
      have "x \<in> Some ` set (preorder t) \<union> {None}"
        by (rule tree [of par prv "first_root ts nxt"]) (use Cons.prems True in simp_all)
      then show ?thesis unfolding forest_nodes_simps set_append by blast
    next
      case False
      have "x \<in> Some ` set (forest_nodes ts) \<union> {None}"
        by (rule Cons.IH [of "Some (tree_root t)"]) (use Cons.prems False in simp_all)
      then show ?thesis unfolding forest_nodes_simps set_append by blast
    qed
  qed simp
qed

text \<open>So destroying a scope changes no link outside the tree it lies in.\<close>

lemma destroy_outside:
  assumes "\<And>x. x \<in> {sl_parent (h i), sl_prev (h i), sl_next (h i)} \<Longrightarrow> x \<in> Some ` A \<union> {None}" "i \<in> A" "y \<notin> A"
  shows "scope_destroy i h y = h y"
proof (rule scope_destroy_frame)
  show "y \<noteq> i" using assms(2,3) by blast
  have "Some y \<notin> Some ` A \<union> {None}" using assms(3) by blast
  with assms(1) show "sl_parent (h i) \<noteq> Some y" "sl_prev (h i) \<noteq> Some y" "sl_next (h i) \<noteq> Some y"
    by (metis insertI1 insertI2)+
qed

lemma destroy_refines_tree:
  "tree_ok h par prv nxt t \<Longrightarrow> distinct (preorder t) \<Longrightarrow> i \<in> set (preorder t) \<Longrightarrow> i \<noteq> tree_root t \<Longrightarrow>
    tree_ok (scope_destroy i h) par prv nxt (prune i t)"
  "forest_ok h par prv nxt ts \<Longrightarrow> distinct (forest_nodes ts) \<Longrightarrow> i \<in> set (forest_nodes ts) \<Longrightarrow> i \<notin> tree_root ` set ts \<Longrightarrow>
    forest_ok (scope_destroy i h) par prv nxt (map (prune i) ts)"
proof (induction h par prv nxt t and h par prv nxt ts rule: tree_ok_forest_ok.induct)
  case (1 h par prv nxt j ts)
  have i: "i \<noteq> j" "i \<in> set (forest_nodes ts)" using "1.prems" by simp_all
  show ?case
  proof (cases "i \<in> tree_root ` set ts")
    case True
    then obtain us t vs where ts: "ts = us @ t # vs" and r: "tree_root t = i"
      by (metis imageE split_list)
    have no: "i \<notin> set (forest_nodes us)" "i \<notin> set (forest_nodes vs)"
      using "1.prems"(2) ts r tree_root_in [of t] by (auto simp: disjoint_iff)
    then have "tree_root x \<noteq> i" if "x \<in> set us \<union> set vs" for x using that forest_roots by blast
    then have "filter (\<lambda>x. tree_root x \<noteq> i) (us @ t # vs) = us @ vs" using r by (simp add: filter_id_conv)
    moreover have "tree_ok (scope_destroy i h) par prv nxt (SNode j (us @ vs))"
      using destroy_child "1.prems" ts r by blast
    ultimately show ?thesis using ts no by (simp add: prune_forest)
  next
    case False
    have f: "forest_ok h (Some j) None None ts" and d: "distinct (forest_nodes ts)" using "1.prems" by simp_all
    from "1.IH" [OF f d i(2) False] have "forest_ok (scope_destroy i h) (Some j) None None (map (prune i) ts)" .
    moreover have "scope_destroy i h j = h j"
      by (rule destroy_outside [of h i "set (forest_nodes ts)"])
        (use inner_links(2) [OF f i(2) False] "1.prems" i in auto)
    moreover have "filter (\<lambda>x. tree_root x \<noteq> i) ts = ts" using False by (intro filter_True) auto
    ultimately show ?thesis using "1.prems" by simp
  qed
next
  case (3 h par prv nxt t ts)
  have tr: "tree_ok h par prv (first_root ts nxt) t" and fo: "forest_ok h par (Some (tree_root t)) nxt ts"
    and ne: "i \<noteq> tree_root t" "i \<notin> tree_root ` set ts" using "3.prems" by auto
  show ?case
  proof (cases "i \<in> set (preorder t)")
    case True
    have "scope_destroy i h x = h x" if "x \<in> set (forest_nodes ts)" for x
      by (rule destroy_outside [of h i "set (preorder t)"])
        (use inner_links(1) [OF tr True ne(1)] "3.prems" True that in auto)
    then have "forest_ok (scope_destroy i h) par (Some (tree_root t)) nxt ts"
      using fo ok_cong(2) [of ts "scope_destroy i h" h] by simp
    moreover have "map (prune i) ts = ts" using "3.prems" True by (intro prune_forest) auto
    ultimately show ?thesis using "3.IH"(1) "3.prems" True by simp
  next
    case False
    then have i: "i \<in> set (forest_nodes ts)" using "3.prems" by simp
    have "scope_destroy i h x = h x" if "x \<in> set (preorder t)" for x
      by (rule destroy_outside [of h i "set (forest_nodes ts)"])
        (use inner_links(2) [OF fo i ne(2)] "3.prems" i that in auto)
    then have "tree_ok (scope_destroy i h) par prv (first_root ts nxt) t"
      using tr ok_cong(1) [of t "scope_destroy i h" h] by simp
    with "3.IH"(2) "3.prems" i ne False show ?thesis by (simp add: prune_other)
  qed
qed simp

section \<open>The tree of an application\<close>

text \<open>From the root scope 0: \<open>$new\<close> of a scope in the tree with an unused \<open>$id\<close>, and \<open>$destroy\<close> of any other scope of it.\<close>

record scope_state =
  ss_links :: scope_heap
  ss_tree :: stree           \<comment> \<open>the tree meant by the operations\<close>

definition scope_grown :: "nat \<Rightarrow> nat \<Rightarrow> scope_state \<Rightarrow> scope_state" where
  "scope_grown p i s = s\<lparr>ss_links := scope_new p i (ss_links s), ss_tree := add_child p i (ss_tree s)\<rparr>"

definition scope_pruned :: "nat \<Rightarrow> scope_state \<Rightarrow> scope_state" where
  "scope_pruned i s = s\<lparr>ss_links := scope_destroy i (ss_links s), ss_tree := prune i (ss_tree s)\<rparr>"

inductive scope_step :: "scope_state \<Rightarrow> scope_state \<Rightarrow> bool" where
  new: "p \<in> set (preorder (ss_tree s)) \<Longrightarrow> i \<notin> set (preorder (ss_tree s)) \<Longrightarrow>
    scope_step s (scope_grown p i s)"
| destroy: "i \<in> set (preorder (ss_tree s)) \<Longrightarrow> i \<noteq> 0 \<Longrightarrow>
    scope_step s (scope_pruned i s)"

definition scope_init :: scope_state where
  "scope_init = \<lparr>ss_links = (\<lambda>i. fresh_scope), ss_tree = SNode 0 []\<rparr>"

lemma add_child_nodes:
  "p \<in> set (preorder t) \<Longrightarrow> distinct (preorder t) \<Longrightarrow> i \<notin> set (preorder t) \<Longrightarrow>
    set (preorder (add_child p i t)) = insert i (set (preorder t)) \<and> distinct (preorder (add_child p i t))"
proof (induction t)
  case (SNode j ts)
  have forest: "set us \<subseteq> set ts \<Longrightarrow> p \<in> set (forest_nodes us) \<Longrightarrow> distinct (forest_nodes us) \<Longrightarrow> i \<notin> set (forest_nodes us) \<Longrightarrow>
    set (forest_nodes (map (add_child p i) us)) = insert i (set (forest_nodes us)) \<and> distinct (forest_nodes (map (add_child p i) us))" for us
  proof (induction us)
    case (Cons u us)
    have other: "map (add_child p i) vs = vs" if "p \<notin> set (forest_nodes vs)" for vs
      using that by (intro map_idI add_child_other) (auto simp: forest_nodes_def)
    show ?case
    proof (cases "p \<in> set (preorder u)")
      case True
      then have "p \<notin> set (forest_nodes us)" using Cons.prems by auto
      with SNode.IH [of u] Cons.prems True show ?thesis by (auto simp: other)
    next
      case False
      with Cons show ?thesis by (auto simp: add_child_other)
    qed
  qed simp
  show ?case
  proof (cases "j = p")
    case True
    with SNode.prems have "map (add_child p i) ts = ts"
      by (intro map_idI add_child_other) (auto simp: forest_nodes_def)
    with SNode.prems True show ?thesis by auto
  next
    case False
    with forest [of ts] SNode.prems show ?thesis by auto
  qed
qed

lemma prune_nodes:
  "distinct (preorder t) \<Longrightarrow> set (preorder (prune i t)) \<subseteq> set (preorder t) \<and> distinct (preorder (prune i t)) \<and>
    (i \<noteq> tree_root t \<longrightarrow> i \<notin> set (preorder (prune i t)))"
proof (induction t)
  case (SNode j ts)
  have forest: "set us \<subseteq> set ts \<Longrightarrow> distinct (forest_nodes us) \<Longrightarrow>
    set (forest_nodes (map (prune i) (filter (\<lambda>t. tree_root t \<noteq> i) us))) \<subseteq> set (forest_nodes us) - {i} \<and>
    distinct (forest_nodes (map (prune i) (filter (\<lambda>t. tree_root t \<noteq> i) us)))" for us
  proof (induction us)
    case (Cons u us)
    with SNode.IH [of u] show ?case by auto
  qed simp
  from forest [of ts] SNode.prems show ?case by auto
qed

definition scope_inv :: "scope_state \<Rightarrow> bool" where
  "scope_inv s \<longleftrightarrow> tree_ok (ss_links s) None None None (ss_tree s) \<and> distinct (preorder (ss_tree s)) \<and> tree_root (ss_tree s) = 0"

lemma scope_step_inv: "scope_step s t \<Longrightarrow> scope_inv s \<Longrightarrow> scope_inv t"
proof (induction rule: scope_step.induct)
  case (new p s i)
  then show ?case by (simp add: scope_inv_def scope_grown_def new_refines_tree(1) add_child_nodes)
next
  case (destroy i s)
  then show ?case by (simp add: scope_inv_def scope_pruned_def destroy_refines_tree(1) prune_nodes)
qed

lemma scope_reachable_inv: "scope_step\<^sup>*\<^sup>* scope_init s \<Longrightarrow> scope_inv s"
proof (induction rule: rtranclp_induct)
  case base
  show ?case by (simp add: scope_inv_def scope_init_def fresh_scope_def)
qed (rule scope_step_inv)

text \<open>C16: however scopes are created and destroyed, the links of the scopes are those of the tree that has the created
  ones as last children and the destroyed ones taken out with all below them; and a digest of the root scope walks
  through that tree in preorder, each scope once.\<close>

theorem scopes_walked_once:
  assumes "scope_step\<^sup>*\<^sup>* scope_init s" and "length (preorder (ss_tree s)) + 2 \<le> m" "length (preorder (ss_tree s)) \<le> n"
  shows "scope_walk m n (ss_links s) 0 0 = Inr (preorder (ss_tree s)) \<and> distinct (preorder (ss_tree s))"
proof -
  have inv: "tree_ok (ss_links s) None None None (ss_tree s)" "distinct (preorder (ss_tree s))" "tree_root (ss_tree s) = 0"
    using scope_reachable_inv [OF assms(1)] by (simp_all add: scope_inv_def)
  from walk_preorder [OF inv(1,2) assms(2,3)] inv(2,3) show ?thesis by simp
qed

text \<open>Two children of the root, the second with a child of its own, and then the first taken out.\<close>

definition four_scopes :: scope_state where
  "four_scopes = scope_grown 2 3 (scope_grown 0 2 (scope_grown 0 1 scope_init))"

lemma four_scopes_tree: "ss_tree four_scopes = SNode 0 [SNode 1 [], SNode 2 [SNode 3 []]]"
  by (simp add: four_scopes_def scope_init_def scope_grown_def)

lemma four_scopes_reachable: "scope_step\<^sup>*\<^sup>* scope_init four_scopes"
proof -
  have "scope_step scope_init (scope_grown 0 1 scope_init)"
    by (rule scope_step.new) (simp_all add: scope_init_def)
  moreover have "scope_step (scope_grown 0 1 scope_init) (scope_grown 0 2 (scope_grown 0 1 scope_init))"
    by (rule scope_step.new) (simp_all add: scope_init_def scope_grown_def)
  moreover have "scope_step (scope_grown 0 2 (scope_grown 0 1 scope_init)) four_scopes"
    unfolding four_scopes_def by (rule scope_step.new) (simp_all add: scope_init_def scope_grown_def)
  ultimately show ?thesis by (meson converse_rtranclp_into_rtranclp rtranclp.rtrancl_refl)
qed

theorem scopes_walked_once_witness: "scope_walk 6 4 (ss_links four_scopes) 0 0 = Inr [0, 1, 2, 3]"
  using scopes_walked_once [OF four_scopes_reachable, of 6 4] by (simp add: four_scopes_tree)

text \<open>A watch that destroys its own scope stops the digest: the walk goes on from the destroyed scope, which has lost its
  parent.  The exception leaves \<open>$digest\<close> with the phase set, so that every later digest raises too.\<close>

theorem destroying_current_scope_raises:
  "next_scope 6 (scope_destroy 3 (ss_links four_scopes)) 0 3 = Inl TypeError"
  by (simp add: four_scopes_def scope_grown_def scope_init_def fresh_scope_def Let_def scope_new_def scope_destroy_def
      set_next_def set_prev_def next_scope_def eval_nat_numeral)

end
