(* ===== verification/Ng_Digest.thy ===== *)
theory Ng_Digest
  imports Ng_Scope DT_Values "HOL-Library.Multiset_Order"
begin

text \<open>
  The digest of AngularJS (public/bower_components/angular/angular.js): \<open>angular.equals\<close> and \<open>angular.copy\<close> on the
  values of DT_Values, \<open>$watch\<close>, \<open>$evalAsync\<close> and \<open>$digest\<close> with its short circuit at the last dirty watch.
  Functions of the page are numbered; what they do is given by a table of their code: a watch expression reads
  the model or raises, a listener or task gives the sequence of changes it makes - to the model, to the watches and
  to the queues - computed from the model it is called in.  The scopes are those of a walk (Ng_Scope) that does
  not change during the digest: listeners that create or destroy scopes are not modelled.  The log of the last
  iterations is left out.
\<close>

section \<open>\<open>angular.equals\<close> and \<open>angular.copy\<close>\<close>

text \<open>Objects whose keys are names of \<open>Object.prototype\<close> are not represented: such a key is also found in objects
  that do not have it.\<close>

definition dollar_key :: "string \<Rightarrow> bool" where
  "dollar_key k \<longleftrightarrow> (case k of c # _ \<Rightarrow> c = CHR ''$'' | [] \<Rightarrow> False)"

definition obj_get :: "(string \<times> jsval) list \<Rightarrow> string \<Rightarrow> jsval" where
  "obj_get kvs k = (case map_of kvs k of Some v \<Rightarrow> v | None \<Rightarrow> JUndef)"

function (sequential) ng_equals :: "jsval \<Rightarrow> jsval \<Rightarrow> bool" where
  "ng_equals (JArr xs) (JArr ys) \<longleftrightarrow> length xs = length ys \<and> list_all (\<lambda>(a, b). ng_equals a b) (zip xs ys)"
| "ng_equals (JObj kvs) (JObj kvs') \<longleftrightarrow>
      list_all (\<lambda>(k, v). dollar_key k \<or> ng_equals v (obj_get kvs' k)) kvs \<and>
      list_all (\<lambda>(k, v). k \<in> fst ` set (filter (\<lambda>(k, v). \<not> dollar_key k) kvs) \<or> dollar_key k \<or> v = JUndef) kvs'"
| "ng_equals x y \<longleftrightarrow> x = y"
  by pat_completeness auto
termination
proof (relation "measure (\<lambda>(x, y). size x)")
  fix xs ys :: "jsval list" and p a b
  assume "p \<in> set (zip xs ys)" "(a, b) = p"
  then have "a \<in> set xs" by (auto dest: set_zip_leftD)
  then show "((a, b), JArr xs, JArr ys) \<in> measure (\<lambda>(x, y). size x)"
    by (simp add: less_Suc_eq_le size_list_estimation')
next
  fix kvs kvs' :: "(string \<times> jsval) list" and p k v
  assume "p \<in> set kvs" "(k, v) = p"
  then have "size v < Suc (size_list (size_prod (\<lambda>x. 0) size) kvs)"
    by (induction kvs) auto
  then show "((v, obj_get kvs' k), JObj kvs, JObj kvs') \<in> measure (\<lambda>(x, y). size x)" by simp
qed simp

text \<open>\<open>copy\<close>: a new object with the same content, without the \<open>$$hashKey\<close>s of \<open>ng-repeat\<close>.\<close>

definition hash_key :: string where
  "hash_key = ''$$hashKey''"

fun ng_copy :: "jsval \<Rightarrow> jsval" where
  "ng_copy (JArr xs) = JArr (map ng_copy xs)"
| "ng_copy (JObj kvs) = JObj (filter (\<lambda>(k, v). k \<noteq> hash_key) (map (\<lambda>(k, v). (k, ng_copy v)) kvs))"
| "ng_copy v = v"

text \<open>Values whose objects have no key twice.\<close>

fun proper :: "jsval \<Rightarrow> bool" where
  "proper (JArr xs) \<longleftrightarrow> list_all proper xs"
| "proper (JObj kvs) \<longleftrightarrow> distinct (map fst kvs) \<and> list_all (\<lambda>(k, v). proper v) kvs"
| "proper v \<longleftrightarrow> True"

lemma obj_get_in: "distinct (map fst kvs) \<Longrightarrow> (k, v) \<in> set kvs \<Longrightarrow> obj_get kvs k = v"
  by (simp add: obj_get_def)

lemma obj_get_out: "k \<notin> fst ` set kvs \<Longrightarrow> obj_get kvs k = JUndef"
  by (simp add: obj_get_def map_of_eq_None_iff [THEN iffD2])

lemma obj_get_proper: "proper (JObj kvs) \<Longrightarrow> proper (obj_get kvs k)"
  by (cases "map_of kvs k") (auto simp: obj_get_def list_all_iff dest: map_of_SomeD)

lemma equals_undef [simp]: "ng_equals JUndef v \<longleftrightarrow> v = JUndef" "ng_equals v JUndef \<longleftrightarrow> v = JUndef"
  by (auto elim: ng_equals.elims)

text \<open>Objects are equal if their properties are, a missing one being undefined, whatever the order of the keys.\<close>

lemma equals_obj:
  assumes "distinct (map fst kvs)" "distinct (map fst kvs')"
  shows "ng_equals (JObj kvs) (JObj kvs') \<longleftrightarrow> (\<forall>k. dollar_key k \<or> ng_equals (obj_get kvs k) (obj_get kvs' k))"
proof
  assume eq: "ng_equals (JObj kvs) (JObj kvs')"
  show "\<forall>k. dollar_key k \<or> ng_equals (obj_get kvs k) (obj_get kvs' k)"
  proof
    fix k
    show "dollar_key k \<or> ng_equals (obj_get kvs k) (obj_get kvs' k)"
    proof (cases "k \<in> fst ` set kvs")
      case True
      then obtain v where v: "(k, v) \<in> set kvs" by auto
      with eq have "dollar_key k \<or> ng_equals v (obj_get kvs' k)" by (auto simp: list_all_iff)
      with obj_get_in [OF assms(1) v] show ?thesis by simp
    next
      case False
      have "dollar_key k \<or> obj_get kvs' k = JUndef"
      proof (cases "k \<in> fst ` set kvs'")
        case True
        then obtain v where v: "(k, v) \<in> set kvs'" by auto
        with eq False have "dollar_key k \<or> v = JUndef" by (force simp: list_all_iff)
        with obj_get_in [OF assms(2) v] show ?thesis by simp
      qed (simp add: obj_get_out)
      with False show ?thesis by (auto simp: obj_get_out)
    qed
  qed
next
  assume eq: "\<forall>k. dollar_key k \<or> ng_equals (obj_get kvs k) (obj_get kvs' k)"
  have "dollar_key k \<or> ng_equals v (obj_get kvs' k)" if "(k, v) \<in> set kvs" for k v
    using eq obj_get_in [OF assms(1) that] by metis
  moreover have "k \<in> fst ` set kvs \<or> dollar_key k \<or> v = JUndef" if "(k, v) \<in> set kvs'" for k v
    using eq [rule_format, of k] obj_get_in [OF assms(2) that] by (auto simp: obj_get_out)
  ultimately show "ng_equals (JObj kvs) (JObj kvs')" by (force simp: list_all_iff)
qed

lemma equals_refl: "proper v \<Longrightarrow> ng_equals v v"
proof (induction v)
  case (JArr xs)
  then show ?case by (auto simp: list_all_iff zip_same_conv_map)
next
  case (JObj kvs)
  have "dollar_key k \<or> ng_equals v (obj_get kvs k)" if "(k, v) \<in> set kvs" for k v
    using JObj that by (force simp: list_all_iff obj_get_in)
  then show ?case by (force simp: list_all_iff)
qed simp_all

declare ng_equals.simps(2) [simp del]

lemma obj_get_copy: "k \<noteq> hash_key \<Longrightarrow>
  obj_get (filter (\<lambda>(k, v). k \<noteq> hash_key) (map (\<lambda>(k, v). (k, ng_copy v)) kvs)) k = ng_copy (obj_get kvs k)"
  by (induction kvs) (auto simp: obj_get_def)

lemma hash_key_dollar: "dollar_key hash_key"
  by (simp add: dollar_key_def hash_key_def)

lemma copy_keys: "map fst (filter (\<lambda>(k, v). k \<noteq> hash_key) (map (\<lambda>(k, v). (k, ng_copy v)) kvs)) = filter (\<lambda>k. k \<noteq> hash_key) (map fst kvs)"
  by (induction kvs) auto

lemma equals_copy: "proper v \<Longrightarrow> ng_equals v (ng_copy v)"
proof (induction v)
  case (JArr xs)
  then show ?case by (auto simp: list_all_iff zip_map2 zip_same_conv_map)
next
  case (JObj kvs)
  have d: "distinct (map fst kvs)" using JObj.prems by simp
  have "dollar_key k \<or> ng_equals (obj_get kvs k) (ng_copy (obj_get kvs k))" for k
  proof (cases "map_of kvs k")
    case (Some v)
    then have "(k, v) \<in> set kvs" by (rule map_of_SomeD)
    with JObj have "ng_equals v (ng_copy v)" by (force simp: list_all_iff)
    with Some show ?thesis by (simp add: obj_get_def)
  qed (simp add: obj_get_def)
  moreover have "distinct (map fst (filter (\<lambda>(k, v). k \<noteq> hash_key) (map (\<lambda>(k, v). (k, ng_copy v)) kvs)))"
    using d by (simp add: copy_keys)
  ultimately show ?case
    using d hash_key_dollar equals_obj obj_get_copy by (metis ng_copy.simps(2))
qed simp_all

lemma equals_sym: "proper x \<Longrightarrow> proper y \<Longrightarrow> ng_equals x y \<Longrightarrow> ng_equals y x"
proof (induction x y rule: ng_equals.induct)
  case (1 xs ys)
  have "ng_equals (ys ! i) (xs ! i)" if "i < length ys" for i
  proof -
    have "(xs ! i, ys ! i) \<in> set (zip xs ys)" using that 1 by (auto simp: in_set_zip)
    from "1.IH" [OF this refl] 1 that show ?thesis by (auto simp: list_all_length)
  qed
  with 1 show ?case by (auto simp: list_all_length)
next
  case (2 kvs kvs')
  have d: "distinct (map fst kvs)" "distinct (map fst kvs')" using 2 by simp_all
  have "dollar_key k \<or> ng_equals (obj_get kvs' k) (obj_get kvs k)" for k
  proof (cases "map_of kvs k")
    case (Some v)
    then have kv: "(k, v) \<in> set kvs" by (rule map_of_SomeD)
    have "dollar_key k \<or> ng_equals (obj_get kvs k) (obj_get kvs' k)" using 2 by (simp add: equals_obj)
    with "2.IH" [OF kv refl] kv 2 Some show ?thesis
      using obj_get_proper [of kvs' k] by (force simp: list_all_iff obj_get_def)
  next
    case None
    have "dollar_key k \<or> ng_equals (obj_get kvs k) (obj_get kvs' k)" using 2 by (simp add: equals_obj)
    with None show ?thesis by (auto simp: obj_get_def)
  qed
  with d show ?case by (simp add: equals_obj)
qed auto

lemma equals_trans: "proper x \<Longrightarrow> proper y \<Longrightarrow> proper z \<Longrightarrow> ng_equals x y \<Longrightarrow> ng_equals y z \<Longrightarrow> ng_equals x z"
proof (induction x y arbitrary: z rule: ng_equals.induct)
  case (1 xs ys)
  then obtain zs where z: "z = JArr zs" by (cases z) auto
  show ?case
  proof -
    have len: "length xs = length ys" "length ys = length zs" using 1 z by simp_all
    have "ng_equals (xs ! i) (zs ! i)" if "i < length xs" for i
    proof -
      have "(xs ! i, ys ! i) \<in> set (zip xs ys)" using that len by (auto simp: in_set_zip)
      from "1.IH" [OF this refl, of "zs ! i"] 1 z that len show ?thesis by (auto simp: list_all_length)
    qed
    with len z show ?thesis by (simp add: list_all_length)
  qed
next
  case (2 kvs kvs')
  then obtain kvs'' where z: "z = JObj kvs''" by (cases z) auto
  have d: "distinct (map fst kvs)" "distinct (map fst kvs')" "distinct (map fst kvs'')" using 2 z by simp_all
  have "dollar_key k \<or> ng_equals (obj_get kvs k) (obj_get kvs'' k)" for k
  proof (cases "map_of kvs k")
    case (Some v)
    then have kv: "(k, v) \<in> set kvs" by (rule map_of_SomeD)
    have a: "dollar_key k \<or> ng_equals (obj_get kvs k) (obj_get kvs' k)" "dollar_key k \<or> ng_equals (obj_get kvs' k) (obj_get kvs'' k)"
      using 2 z d by (simp_all add: equals_obj)
    have p: "proper (obj_get kvs' k)" "proper (obj_get kvs'' k)" "proper v"
      using 2 z kv obj_get_proper by (auto simp: list_all_iff)
    from Some have "obj_get kvs k = v" by (simp add: obj_get_def)
    with "2.IH" [OF kv refl, of "obj_get kvs'' k"] a p show ?thesis by auto
  next
    case None
    then have "obj_get kvs k = JUndef" by (simp add: obj_get_def)
    moreover have "dollar_key k \<or> ng_equals (obj_get kvs k) (obj_get kvs' k)" "dollar_key k \<or> ng_equals (obj_get kvs' k) (obj_get kvs'' k)"
      using 2 z d by (simp_all add: equals_obj)
    ultimately show ?thesis by auto
  qed
  with d z show ?case by (simp add: equals_obj)
qed auto

section \<open>Watches and queues\<close>

text \<open>What a watch sees: a primitive value, an object shared with the page, or the private copy a watch for equality keeps.\<close>

datatype watched = Prim jsval | Shared nat jsval | Private jsval

fun content :: "watched \<Rightarrow> jsval" where
  "content (Prim v) = v" | "content (Shared i v) = v" | "content (Private v) = v"

text \<open>\<open>===\<close>\<close>

fun same_watched :: "watched \<Rightarrow> watched \<Rightarrow> bool" where
  "same_watched (Prim a) (Prim b) \<longleftrightarrow> a = b \<and> a \<noteq> JNum DNaN"
| "same_watched (Shared i a) (Shared j b) \<longleftrightarrow> i = j"
| "same_watched x y \<longleftrightarrow> False"

fun copy_watched :: "watched \<Rightarrow> watched" where
  "copy_watched (Prim v) = Prim v"
| "copy_watched x = Private (ng_copy (content x))"

record watcher =
  wa_id :: nat
  wa_get :: nat
  wa_fn :: nat
  wa_last :: "watched option"      \<comment> \<open>\<^const>\<open>None\<close> for \<open>initWatchVal\<close>\<close>
  wa_eq :: bool
  wa_constant :: bool              \<comment> \<open>a constant expression: the watch removes itself\<close>

datatype 'm change =
    Set_Model "'m \<Rightarrow> 'm"
  | Add_Watch nat nat nat bool bool     \<comment> \<open>scope, expression, listener, equality, constant\<close>
  | Remove_Watch nat nat                \<comment> \<open>scope and watch\<close>
  | Eval_Async nat
  | Post_Digest nat
  | Raise

text \<open>The code of the page: expressions, listeners (with the new and the old value) and tasks.\<close>

record 'm code =
  cd_get :: "nat \<Rightarrow> 'm \<Rightarrow> watched option"
  cd_listen :: "nat \<Rightarrow> 'm \<Rightarrow> watched \<Rightarrow> watched \<Rightarrow> 'm change list"
  cd_task :: "nat \<Rightarrow> 'm \<Rightarrow> 'm change list"

record 'm digest_state =
  dg_model :: 'm
  dg_watchers :: "nat \<Rightarrow> watcher list"
  dg_async :: "nat list"
  dg_post :: "nat list"
  dg_last :: "nat option"          \<comment> \<open>\<open>lastDirtyWatch\<close>\<close>
  dg_phase :: bool
  dg_next :: nat

fun array_remove :: "nat \<Rightarrow> watcher list \<Rightarrow> watcher list" where
  "array_remove i [] = []"
| "array_remove i (w # ws) = (if wa_id w = i then ws else w # array_remove i ws)"

text \<open>\<open>$watch\<close> puts the new watch in front; \<open>deregisterWatch\<close> takes one out.\<close>

definition add_watch :: "nat \<Rightarrow> nat \<Rightarrow> nat \<Rightarrow> bool \<Rightarrow> bool \<Rightarrow> 'm digest_state \<Rightarrow> 'm digest_state" where
  "add_watch sc g f eq const s = s\<lparr>dg_last := None, dg_next := Suc (dg_next s),
     dg_watchers := (dg_watchers s)(sc := \<lparr>wa_id = dg_next s, wa_get = g, wa_fn = f, wa_last = None, wa_eq = eq,
       wa_constant = const\<rparr> # dg_watchers s sc)\<rparr>"

definition remove_watch :: "nat \<Rightarrow> nat \<Rightarrow> 'm digest_state \<Rightarrow> 'm digest_state" where
  "remove_watch sc i s = s\<lparr>dg_watchers := (dg_watchers s)(sc := array_remove i (dg_watchers s sc)), dg_last := None\<rparr>"

text \<open>The changes one after the other, until one raises.\<close>

fun make_changes :: "'m change list \<Rightarrow> 'm digest_state \<Rightarrow> bool \<times> 'm digest_state" where
  "make_changes [] s = (False, s)"
| "make_changes (Raise # cs) s = (True, s)"
| "make_changes (Set_Model f # cs) s = make_changes cs (s\<lparr>dg_model := f (dg_model s)\<rparr>)"
| "make_changes (Add_Watch sc g f eq const # cs) s = make_changes cs (add_watch sc g f eq const s)"
| "make_changes (Remove_Watch sc i # cs) s = make_changes cs (remove_watch sc i s)"
| "make_changes (Eval_Async t # cs) s = make_changes cs (s\<lparr>dg_async := dg_async s @ [t]\<rparr>)"
| "make_changes (Post_Digest t # cs) s = make_changes cs (s\<lparr>dg_post := dg_post s @ [t]\<rparr>)"

text \<open>A handled exception clears the phase.\<close>

definition handled :: "bool \<times> 'm digest_state \<Rightarrow> 'm digest_state" where
  "handled r = (if fst r then (snd r)\<lparr>dg_phase := False\<rparr> else snd r)"

section \<open>\<open>$digest\<close>\<close>

partial_function (option) drain_async :: "'m code \<Rightarrow> 'm digest_state \<Rightarrow> 'm digest_state option" where
  "drain_async cd s = (case dg_async s of
      [] \<Rightarrow> Some s
    | t # r \<Rightarrow> drain_async cd ((handled (make_changes (cd_task cd t (dg_model s)) (s\<lparr>dg_async := r\<rparr>)))\<lparr>dg_last := None\<rparr>))"

partial_function (option) drain_post :: "'m code \<Rightarrow> 'm digest_state \<Rightarrow> 'm digest_state option" where
  "drain_post cd s = (case dg_post s of
      [] \<Rightarrow> Some s
    | t # r \<Rightarrow> drain_post cd (snd (make_changes (cd_task cd t (dg_model s)) (s\<lparr>dg_post := r\<rparr>))))"

definition watch_dirty :: "watcher \<Rightarrow> watched \<Rightarrow> bool" where
  "watch_dirty w v = (case wa_last w of
      None \<Rightarrow> True
    | Some l \<Rightarrow> \<not> same_watched v l \<and>
        \<not> (if wa_eq w then ng_equals (content v) (content l) else content v = JNum DNaN \<and> content l = JNum DNaN))"

text \<open>A dirty watch: the value is kept, the watch noted, the listener called; a constant watch then goes, unless its
  listener raised.\<close>

definition fire_watch :: "'m code \<Rightarrow> nat \<Rightarrow> watcher \<Rightarrow> watched \<Rightarrow> 'm digest_state \<Rightarrow> 'm digest_state" where
  "fire_watch cd sc w v s =
    (let w' = w\<lparr>wa_last := Some (if wa_eq w then copy_watched v else v)\<rparr>;
         s1 = s\<lparr>dg_last := Some (wa_id w),
           dg_watchers := (dg_watchers s)(sc := map (\<lambda>x. if wa_id x = wa_id w then w' else x) (dg_watchers s sc))\<rparr>;
         r = make_changes (cd_listen cd (wa_fn w) (dg_model s1) v (case wa_last w of None \<Rightarrow> v | Some l \<Rightarrow> l)) s1;
         s2 = handled r
     in if wa_constant w \<and> \<not> fst r
        then s2\<lparr>dg_watchers := (dg_watchers s2)(sc := array_remove (wa_id w) (dg_watchers s2 sc))\<rparr>
        else s2)"

text \<open>The watches of a scope from the given length down; the result says whether the short circuit was taken.\<close>

fun watch_loop :: "'m code \<Rightarrow> nat \<Rightarrow> nat \<Rightarrow> bool \<times> 'm digest_state \<Rightarrow> bool \<times> bool \<times> 'm digest_state" where
  "watch_loop cd sc 0 (dirty, s) = (False, dirty, s)"
| "watch_loop cd sc (Suc n) (dirty, s) =
    (if length (dg_watchers s sc) \<le> n then watch_loop cd sc n (dirty, s)
     else let w = dg_watchers s sc ! n in
       (case cd_get cd (wa_get w) (dg_model s) of
          None \<Rightarrow> watch_loop cd sc n (dirty, s\<lparr>dg_phase := False\<rparr>)
        | Some v \<Rightarrow>
            if watch_dirty w v then watch_loop cd sc n (True, fire_watch cd sc w v s)
            else if dg_last s = Some (wa_id w) then (True, False, s)
            else watch_loop cd sc n (dirty, s)))"

fun scopes_loop :: "'m code \<Rightarrow> nat list \<Rightarrow> bool \<times> 'm digest_state \<Rightarrow> bool \<times> bool \<times> 'm digest_state" where
  "scopes_loop cd [] (dirty, s) = (False, dirty, s)"
| "scopes_loop cd (sc # scs) (dirty, s) =
    (case watch_loop cd sc (length (dg_watchers s sc)) (dirty, s) of
       (stopped, dirty', s') \<Rightarrow> if stopped then (True, dirty', s') else scopes_loop cd scs (dirty', s'))"

text \<open>One round of the loop \<open>while dirty\<close>: whether another one is needed, and the state.\<close>

definition digest_round :: "'m code \<Rightarrow> nat list \<Rightarrow> 'm digest_state \<Rightarrow> (bool \<times> 'm digest_state) option" where
  "digest_round cd order s = (case drain_async cd s of
      None \<Rightarrow> None
    | Some s1 \<Rightarrow> (case scopes_loop cd order (False, s1) of (stopped, dirty, s2) \<Rightarrow> Some (dirty \<or> dg_async s2 \<noteq> [], s2)))"

datatype digest_error = In_Progress | Infinite_Digest

fun digest_rounds :: "'m code \<Rightarrow> nat list \<Rightarrow> nat \<Rightarrow> 'm digest_state \<Rightarrow> (digest_error + 'm digest_state) option" where
  "digest_rounds cd order 0 s = (case digest_round cd order s of
      None \<Rightarrow> None
    | Some (again, t) \<Rightarrow> Some (if again then Inl Infinite_Digest else Inr t))"
| "digest_rounds cd order (Suc ttl) s = (case digest_round cd order s of
      None \<Rightarrow> None
    | Some (again, t) \<Rightarrow> if again then digest_rounds cd order ttl t else Some (Inr t))"

definition digest_ttl :: nat where
  "digest_ttl = 10"

text \<open>The digest of the scopes of a walk: \<^const>\<open>None\<close> if one of its two loops over a queue never ends.\<close>

definition ng_digest :: "'m code \<Rightarrow> nat list \<Rightarrow> 'm digest_state \<Rightarrow> (digest_error + 'm digest_state) option" where
  "ng_digest cd order s =
    (if dg_phase s then Some (Inl In_Progress)
     else case digest_rounds cd order digest_ttl (s\<lparr>dg_phase := True, dg_last := None\<rparr>) of
         Some (Inr t) \<Rightarrow> map_option Inr (drain_post cd (t\<lparr>dg_phase := False\<rparr>))
       | r \<Rightarrow> r)"

section \<open>The short circuit is sound\<close>

definition watch_clean :: "'m code \<Rightarrow> 'm \<Rightarrow> watcher \<Rightarrow> bool" where
  "watch_clean cd m w = (case cd_get cd (wa_get w) m of None \<Rightarrow> True | Some v \<Rightarrow> \<not> watch_dirty w v)"

definition all_clean :: "'m code \<Rightarrow> nat list \<Rightarrow> 'm digest_state \<Rightarrow> bool" where
  "all_clean cd order s \<longleftrightarrow> list_all (\<lambda>sc. list_all (watch_clean cd (dg_model s)) (dg_watchers s sc)) order"

text \<open>The watches in the order of the loops.\<close>

definition watch_seq :: "nat list \<Rightarrow> 'm digest_state \<Rightarrow> watcher list" where
  "watch_seq order s = concat (map (\<lambda>sc. rev (dg_watchers s sc)) order)"

lemma watch_seq_simps [simp]:
  "watch_seq [] s = []" "watch_seq (sc # scs) s = rev (dg_watchers s sc) @ watch_seq scs s"
  "watch_seq (scs @ scs') s = watch_seq scs s @ watch_seq scs' s"
  by (simp_all add: watch_seq_def)

lemma watch_seq_cong: "(\<And>sc. sc \<in> set order \<Longrightarrow> dg_watchers t sc = dg_watchers s sc) \<Longrightarrow> watch_seq order t = watch_seq order s"
  by (induction order) simp_all

lemma all_clean_seq: "all_clean cd order s \<longleftrightarrow> list_all (watch_clean cd (dg_model s)) (watch_seq order s)"
  by (induction order) (simp_all add: all_clean_def)

text \<open>Each watch of the scopes has its own identity.\<close>

definition watch_ids :: "'m digest_state \<Rightarrow> nat \<Rightarrow> nat set" where
  "watch_ids s sc = wa_id ` set (dg_watchers s sc)"

definition watches_ok :: "nat list \<Rightarrow> 'm digest_state \<Rightarrow> bool" where
  "watches_ok order s \<longleftrightarrow> distinct order \<and>
     (\<forall>sc \<in> set order. distinct (map wa_id (dg_watchers s sc)) \<and> (\<forall>i \<in> watch_ids s sc. i < dg_next s)) \<and>
     (\<forall>sc \<in> set order. \<forall>sc' \<in> set order. sc \<noteq> sc' \<longrightarrow> watch_ids s sc \<inter> watch_ids s sc' = {})"

lemma watches_ok_distinct: "watches_ok order s \<Longrightarrow> distinct (map wa_id (watch_seq order s))"
proof (induction order)
  case (Cons sc scs)
  have "watches_ok scs s" using Cons.prems by (auto simp: watches_ok_def)
  moreover have "wa_id ` set (watch_seq scs s) = (\<Union>sc' \<in> set scs. watch_ids s sc')"
    by (induction scs) (simp_all add: watch_ids_def image_Un)
  moreover have "watch_ids s sc \<inter> (\<Union>sc' \<in> set scs. watch_ids s sc') = {}"
    using Cons.prems by (auto simp: watches_ok_def)
  ultimately show ?case using Cons by (simp add: rev_map [symmetric] watch_ids_def watches_ok_def)
qed simp

text \<open>Fewer watches, or the same with other last values, are still in order.\<close>

lemma watches_ok_fewer:
  assumes "watches_ok order s" "dg_next s \<le> dg_next t"
    and "\<And>sc. distinct (map wa_id (dg_watchers s sc)) \<Longrightarrow> distinct (map wa_id (dg_watchers t sc))"
    and "\<And>sc. watch_ids t sc \<subseteq> watch_ids s sc"
  shows "watches_ok order t"
proof -
  have "i < dg_next t" if "sc \<in> set order" "i \<in> watch_ids t sc" for sc i
    using assms(1,2,4) that unfolding watches_ok_def by (meson less_le_trans subsetD)
  moreover have "watch_ids t sc \<inter> watch_ids t sc' = {}" if "sc \<in> set order" "sc' \<in> set order" "sc \<noteq> sc'" for sc sc'
  proof -
    have "watch_ids s sc \<inter> watch_ids s sc' = {}" using assms(1) that by (simp add: watches_ok_def)
    with assms(4) [of sc] assms(4) [of sc'] show ?thesis by blast
  qed
  ultimately show ?thesis using assms(1,3) by (simp add: watches_ok_def)
qed

lemma watches_ok_same:
  "watches_ok order s \<Longrightarrow> dg_watchers t = dg_watchers s \<Longrightarrow> dg_next t = dg_next s \<Longrightarrow> watches_ok order t"
  by (erule watches_ok_fewer) (simp_all add: watch_ids_def)

lemma array_remove_set: "set (array_remove i ws) \<subseteq> set ws"
  by (induction ws) auto

lemma array_remove_distinct:
  "distinct (map wa_id ws) \<Longrightarrow> distinct (map wa_id (array_remove i ws)) \<and> i \<notin> wa_id ` set (array_remove i ws)"
proof (induction ws)
  case (Cons w ws)
  have "wa_id ` set (array_remove i ws) \<subseteq> wa_id ` set ws" by (intro image_mono array_remove_set)
  with Cons show ?case by auto
qed simp

lemma watches_ok_remove: "watches_ok order s \<Longrightarrow>
    watches_ok order (s\<lparr>dg_watchers := (dg_watchers s)(sc := array_remove i (dg_watchers s sc))\<rparr>)"
  using array_remove_set [of i "dg_watchers s sc"] array_remove_distinct [of "dg_watchers s sc" i]
  by (erule_tac watches_ok_fewer) (auto simp: watch_ids_def)

lemma watches_ok_add: "watches_ok order s \<Longrightarrow> watches_ok order (add_watch sc g f eq const s)"
proof -
  assume ok: "watches_ok order s"
  let ?t = "add_watch sc g f eq const s"
  have ids: "watch_ids ?t sc' = (if sc' = sc then insert (dg_next s) (watch_ids s sc) else watch_ids s sc')" for sc'
    by (simp add: add_watch_def watch_ids_def)
  have new: "dg_next s \<notin> watch_ids s sc'" if "sc' \<in> set order" for sc'
    using ok that by (auto simp: watches_ok_def)
  have "distinct (map wa_id (dg_watchers ?t sc')) \<and> (\<forall>i \<in> watch_ids ?t sc'. i < dg_next ?t)" if "sc' \<in> set order" for sc'
    using ok that new [OF that] unfolding ids
    by (auto simp: watches_ok_def add_watch_def watch_ids_def less_Suc_eq)
  with ok new show ?thesis unfolding watches_ok_def ids by (auto simp: add_watch_def)
qed

lemma make_changes_ok:
  "watches_ok order s \<Longrightarrow> watches_ok order (snd (make_changes cs s))"
proof (induction cs s rule: make_changes.induct)
  case (3 f cs s)
  then show ?case by (simp add: watches_ok_same)
next
  case (4 sc g f eq const cs s)
  then show ?case by (simp add: watches_ok_add)
next
  case (5 sc i cs s)
  have "watches_ok order (remove_watch sc i s)"
    using watches_ok_remove [OF 5(2), of sc i] by (rule watches_ok_same) (simp_all add: remove_watch_def)
  with 5 show ?case by simp
qed (simp_all add: watches_ok_same)

lemma handled_fields [simp]:
  "dg_watchers (handled r) = dg_watchers (snd r)" "dg_last (handled r) = dg_last (snd r)" "dg_next (handled r) = dg_next (snd r)"
  "dg_model (handled r) = dg_model (snd r)" "dg_async (handled r) = dg_async (snd r)" "dg_post (handled r) = dg_post (snd r)"
  by (simp_all add: handled_def)

text \<open>Whatever touches the watches forgets the last dirty one.\<close>

lemma make_changes_last:
  "dg_last (snd (make_changes cs s)) = None \<or>
   dg_last (snd (make_changes cs s)) = dg_last s \<and> dg_watchers (snd (make_changes cs s)) = dg_watchers s"
  by (induction cs s rule: make_changes.induct) (auto simp: add_watch_def remove_watch_def)

text \<open>
  The invariant of the walk at a position with the watches \<open>V\<close> visited in this round and \<open>L\<close> left: if the last dirty
  watch was visited in this round, those visited after it are clean; if it is left from the last round, those
  behind it and all visited ones are clean.
\<close>

definition short_ok :: "'m code \<Rightarrow> 'm \<Rightarrow> nat option \<Rightarrow> watcher list \<Rightarrow> watcher list \<Rightarrow> bool" where
  "short_ok cd m ld V L \<longleftrightarrow> (\<forall>pre x post. ld = Some (wa_id x) \<longrightarrow>
     (V = pre @ x # post \<longrightarrow> list_all (watch_clean cd m) post) \<and>
     (L = pre @ x # post \<longrightarrow> list_all (watch_clean cd m) post \<and> list_all (watch_clean cd m) V))"

lemma short_ok_None [simp]: "short_ok cd m None V L"
  by (simp add: short_ok_def)

lemma short_ok_absent: "ld = Some i \<Longrightarrow> i \<notin> wa_id ` set (V @ L) \<Longrightarrow> short_ok cd m ld V L"
  by (auto simp: short_ok_def)

lemma short_ok_hit:
  "short_ok cd m (Some (wa_id x)) V (x # L) \<Longrightarrow> watch_clean cd m x \<Longrightarrow> list_all (watch_clean cd m) (V @ x # L)"
  unfolding short_ok_def by (drule spec [of _ "[]"]) auto

lemma short_ok_pass:
  assumes "short_ok cd m ld V (x # L)" "watch_clean cd m x"
  shows "short_ok cd m ld (V @ [x]) L"
  unfolding short_ok_def
proof (intro allI impI conjI)
  fix pre post and y :: watcher
  assume y: "ld = Some (wa_id y)"
  {
    assume "V @ [x] = pre @ y # post"
    then consider "post = []" | p where "post = p @ [x]" "V = pre @ y # p"
      by (cases post rule: rev_cases) auto
    then show "list_all (watch_clean cd m) post"
      using assms y unfolding short_ok_def by cases auto
  next
    assume "L = pre @ y # post"
    then have "x # L = (x # pre) @ y # post" by simp
    moreover have "\<forall>pre x' post. ld = Some (wa_id x') \<longrightarrow> x # L = pre @ x' # post \<longrightarrow>
        list_all (watch_clean cd m) post \<and> list_all (watch_clean cd m) V"
      using assms(1) unfolding short_ok_def by blast
    ultimately have "list_all (watch_clean cd m) post \<and> list_all (watch_clean cd m) V" using y by blast
    with assms(2) show "list_all (watch_clean cd m) post" "list_all (watch_clean cd m) (V @ [x])" by simp_all
  }
qed

lemma short_ok_fired:
  assumes "distinct (map wa_id (V @ x # L))"
  shows "short_ok cd m (Some (wa_id x)) (V @ [x]) L"
  unfolding short_ok_def
proof (intro allI impI conjI)
  fix pre post and y :: watcher
  assume y: "Some (wa_id x) = Some (wa_id y)"
  {
    assume *: "V @ [x] = pre @ y # post"
    show "list_all (watch_clean cd m) post"
    proof (cases post rule: rev_cases)
      case (snoc p z)
      with * have "V = pre @ y # p" by simp
      with assms y show ?thesis by auto
    qed simp
  next
    assume "L = pre @ y # post"
    with assms y show "list_all (watch_clean cd m) post" "list_all (watch_clean cd m) (V @ [x])" by auto
  }
qed

lemma short_ok_wrap: "short_ok cd m ld V [] \<Longrightarrow> short_ok cd m ld [] V"
  unfolding short_ok_def by auto

lemma short_ok_clean: "list_all (watch_clean cd m) L \<Longrightarrow> short_ok cd m ld [] L"
  by (auto simp: short_ok_def)

section \<open>One scope\<close>

lemma fire_watch_ok:
  assumes "watches_ok order s"
  shows "watches_ok order (fire_watch cd sc w v s)"
proof -
  define w' where "w' = w\<lparr>wa_last := Some (if wa_eq w then copy_watched v else v)\<rparr>"
  define s1 where "s1 = s\<lparr>dg_last := Some (wa_id w),
      dg_watchers := (dg_watchers s)(sc := map (\<lambda>x. if wa_id x = wa_id w then w' else x) (dg_watchers s sc))\<rparr>"
  have ids: "map wa_id (dg_watchers s1 sc') = map wa_id (dg_watchers s sc')" for sc'
    by (auto simp: s1_def w'_def)
  then have "watch_ids s1 sc' = watch_ids s sc'" for sc'
    unfolding watch_ids_def by (metis list.set_map)
  then have "watches_ok order s1" using assms ids by (intro watches_ok_fewer [of order s s1]) (simp_all add: s1_def)
  then have "watches_ok order (handled (make_changes cs s1))" for cs
    using make_changes_ok watches_ok_same handled_fields(1,3) by metis
  moreover from this have "watches_ok order ((handled (make_changes cs s1))\<lparr>dg_watchers := (dg_watchers (handled (make_changes cs s1)))
      (sc := array_remove (wa_id w) (dg_watchers (handled (make_changes cs s1)) sc))\<rparr>)" for cs
    by (rule watches_ok_remove)
  ultimately show ?thesis
    unfolding fire_watch_def Let_def w'_def [symmetric] s1_def [symmetric] by presburger
qed

text \<open>After a listener the last dirty watch is forgotten, or it is the one that fired and the watches are the same,
  except that it may be gone.\<close>

lemma fire_watch_last:
  fixes s and cd and sc w v
  defines "t \<equiv> fire_watch cd sc w v s"
  shows "dg_last t = None \<or> (dg_last t = Some (wa_id w) \<and>
    (\<exists>w'. wa_id w' = wa_id w \<and> (dg_watchers t = (dg_watchers s)(sc := map (\<lambda>x. if wa_id x = wa_id w then w' else x) (dg_watchers s sc)) \<or>
      dg_watchers t = (dg_watchers s)(sc := array_remove (wa_id w) (map (\<lambda>x. if wa_id x = wa_id w then w' else x) (dg_watchers s sc))))))"
proof -
  define w' where "w' = w\<lparr>wa_last := Some (if wa_eq w then copy_watched v else v)\<rparr>"
  define s1 where "s1 = s\<lparr>dg_last := Some (wa_id w),
      dg_watchers := (dg_watchers s)(sc := map (\<lambda>x. if wa_id x = wa_id w then w' else x) (dg_watchers s sc))\<rparr>"
  define r where "r = make_changes (cd_listen cd (wa_fn w) (dg_model s1) v (case wa_last w of None \<Rightarrow> v | Some l \<Rightarrow> l)) s1"
  have t: "t = (if wa_constant w \<and> \<not> fst r
      then (handled r)\<lparr>dg_watchers := (dg_watchers (handled r))(sc := array_remove (wa_id w) (dg_watchers (handled r) sc))\<rparr>
      else handled r)"
    unfolding t_def fire_watch_def Let_def w'_def [symmetric] s1_def [symmetric] r_def [symmetric] by (rule refl)
  have last: "dg_last t = dg_last (snd r)" by (simp add: t)
  have dg1: "dg_last s1 = Some (wa_id w)" by (simp add: s1_def)
  show ?thesis
  proof (cases "dg_last (snd r) = None")
    case False
    then have same: "dg_last (snd r) = Some (wa_id w)" "dg_watchers (snd r) = dg_watchers s1"
      using make_changes_last [of "cd_listen cd (wa_fn w) (dg_model s1) v (case wa_last w of None \<Rightarrow> v | Some l \<Rightarrow> l)" s1, folded r_def]
        dg1 False by metis+
    have "wa_id w' = wa_id w" by (simp add: w'_def)
    with same show ?thesis
      by (cases "wa_constant w \<and> \<not> fst r") (rule disjI2, rule conjI, simp add: t, rule exI [of _ w'], simp add: t s1_def)+
  qed (simp add: last)
qed

lemma fire_short:
  fixes s and cd and v :: watched
  assumes "watches_ok order s" "order = pre @ sc # post" "n < length (dg_watchers s sc)" "w = dg_watchers s sc ! n"
  defines "t \<equiv> fire_watch cd sc w v s"
  shows "short_ok cd m (dg_last t) (watch_seq pre t @ rev (drop n (dg_watchers t sc)))
    (rev (take n (dg_watchers t sc)) @ watch_seq post t)"
proof (cases "dg_last t = None")
  case False
  let ?ws = "dg_watchers s sc"
  from fire_watch_last [where s = s and cd = cd and sc = sc and w = w and v = v] False obtain w' where
    last: "dg_last t = Some (wa_id w)" and w': "wa_id w' = wa_id w" and
    cases: "dg_watchers t = (dg_watchers s)(sc := map (\<lambda>x. if wa_id x = wa_id w then w' else x) ?ws) \<or>
      dg_watchers t = (dg_watchers s)(sc := array_remove (wa_id w) (map (\<lambda>x. if wa_id x = wa_id w then w' else x) ?ws))"
    unfolding t_def by auto
  have outside: "watch_seq pre t = watch_seq pre s" "watch_seq post t = watch_seq post s"
    using assms(1,2) cases by (auto intro!: watch_seq_cong simp: watches_ok_def)
  have ws: "?ws = take n ?ws @ w # drop (Suc n) ?ws" using assms(3,4) by (simp add: id_take_nth_drop)
  have dist: "distinct (map wa_id ?ws)" using assms(1,2) by (simp add: watches_ok_def)
  define A B where "A = take n ?ws" and "B = drop (Suc n) ?ws"
  have AB: "?ws = A @ w # B" "length A = n" using ws assms(3) by (simp_all add: A_def B_def)
  have same: "map (\<lambda>x. if wa_id x = wa_id w then w' else x) ?ws = A @ w' # B"
  proof -
    have "map (\<lambda>x. if wa_id x = wa_id w then w' else x) X = X" if "wa_id w \<notin> wa_id ` set X" for X
      using that by (intro map_idI) (metis image_eqI)
    moreover have "wa_id w \<notin> wa_id ` set A" "wa_id w \<notin> wa_id ` set B" using dist AB(1) by auto
    ultimately show ?thesis by (simp add: AB(1))
  qed
  have ids: "distinct (map wa_id ((watch_seq pre s @ rev B) @ w' # (rev A @ watch_seq post s)))"
    using watches_ok_distinct [OF assms(1)] assms(2) AB(1) w' by (simp add: rev_map [symmetric])
  from cases consider "dg_watchers t sc = A @ w' # B" | "dg_watchers t sc = array_remove (wa_id w) (A @ w' # B)"
    unfolding same by auto
  then show ?thesis
  proof cases
    case 1
    from short_ok_fired [OF ids] 1 AB(2) outside last w' show ?thesis by simp
  next
    case 2
    have "distinct (map wa_id (A @ w' # B))" using dist AB(1) w' by simp
    from array_remove_distinct [OF this, of "wa_id w"] have no: "wa_id w \<notin> wa_id ` set (dg_watchers t sc)" by (simp add: 2)
    have "wa_id w \<notin> wa_id ` set (watch_seq pre s) \<union> wa_id ` set (watch_seq post s)"
      using ids w' by auto
    with no have "wa_id w \<notin> wa_id ` set ((watch_seq pre s @ rev (drop n (dg_watchers t sc))) @ rev (take n (dg_watchers t sc)) @ watch_seq post s)"
      by (auto dest: in_set_takeD in_set_dropD)
    then show ?thesis using last outside by (intro short_ok_absent) simp_all
  qed
qed simp

lemma watch_loop_short:
  assumes "watches_ok order s" "order = pre @ sc # post" "n \<le> N"
    and "short_ok cd (dg_model s) (dg_last s) (watch_seq pre s @ rev (drop n (dg_watchers s sc)))
      (rev (take n (dg_watchers s sc)) @ watch_seq post s)"
    and "watch_loop cd sc n (d, s) = (stopped, d', t)"
  shows "watches_ok order t \<and> (if stopped then \<not> d' \<and> all_clean cd order t
    else short_ok cd (dg_model t) (dg_last t) (watch_seq (pre @ [sc]) t) (watch_seq post t))"
  using assms
proof (induction n arbitrary: d s)
  case 0
  then show ?case by simp
next
  case (Suc n)
  let ?ws = "dg_watchers s sc"
  show ?case
  proof (cases "length ?ws \<le> n")
    case True
    with Suc.prems show ?thesis by (intro Suc.IH) auto
  next
    case False
    define w where "w = ?ws ! n"
    define V where "V = watch_seq pre s @ rev (drop (Suc n) ?ws)"
    define L where "L = rev (take n ?ws) @ watch_seq post s"
    have drop: "rev (drop n ?ws) = rev (drop (Suc n) ?ws) @ [w]" and take: "rev (take (Suc n) ?ws) = w # rev (take n ?ws)"
      and ws: "?ws = take n ?ws @ w # drop (Suc n) ?ws"
      using False by (simp_all add: w_def Cons_nth_drop_Suc [symmetric] take_Suc_conv_app_nth id_take_nth_drop [symmetric])
    have split: "watch_seq order s = V @ w # L"
    proof -
      have "rev ?ws = rev (drop (Suc n) ?ws) @ w # rev (take n ?ws)"
        using arg_cong [OF ws, of rev] unfolding rev_append rev.simps by simp
      then show ?thesis using Suc.prems(2) by (simp add: V_def L_def)
    qed
    have inv: "short_ok cd (dg_model s) (dg_last s) V (w # L)"
      using Suc.prems(4) take by (simp add: V_def L_def)
    show ?thesis
    proof (cases "cd_get cd (wa_get w) (dg_model s)")
      case None
      let ?s = "s\<lparr>dg_phase := False\<rparr>"
      have run: "watch_loop cd sc n (d, ?s) = (stopped, d', t)"
        using Suc.prems(5) False None by (simp add: w_def)
      have "short_ok cd (dg_model s) (dg_last s) (V @ [w]) L"
        using inv None by (intro short_ok_pass) (simp_all add: watch_clean_def)
      moreover have "watch_seq scs ?s = watch_seq scs s" for scs by (rule watch_seq_cong) simp
      ultimately show ?thesis
        using Suc.prems drop by (intro Suc.IH [OF _ _ _ _ run]) (simp_all add: V_def L_def watches_ok_same)
    next
      case (Some v)
      show ?thesis
      proof (cases "watch_dirty w v")
        case True
        let ?s = "fire_watch cd sc w v s"
        have run: "watch_loop cd sc n (True, ?s) = (stopped, d', t)"
          using Suc.prems(5) False Some True by (simp add: w_def)
        have ok: "watches_ok order ?s" using Suc.prems(1) by (rule fire_watch_ok)
        have "short_ok cd (dg_model ?s) (dg_last ?s) (watch_seq pre ?s @ rev (drop n (dg_watchers ?s sc)))
            (rev (take n (dg_watchers ?s sc)) @ watch_seq post ?s)"
          using fire_short [OF Suc.prems(1,2) _ w_def] False by simp
        with ok Suc.prems show ?thesis by (intro Suc.IH [OF _ _ _ _ run]) simp_all
      next
        case clean: False
        then have wc: "watch_clean cd (dg_model s) w" using Some by (simp add: watch_clean_def)
        show ?thesis
        proof (cases "dg_last s = Some (wa_id w)")
          case True
          then have t: "stopped" "\<not> d'" "t = s" using Suc.prems(5) False Some clean by (simp_all add: w_def)
          have "all_clean cd order s"
            unfolding all_clean_seq split using short_ok_hit inv True wc by metis
          with t Suc.prems(1) show ?thesis by simp
        next
          case other: False
          have run: "watch_loop cd sc n (d, s) = (stopped, d', t)"
            using Suc.prems(5) False Some clean other by (simp add: w_def)
          from short_ok_pass [OF inv wc] Suc.prems drop show ?thesis
            by (intro Suc.IH [OF _ _ _ _ run]) (simp_all add: V_def L_def)
        qed
      qed
    qed
  qed
qed

section \<open>All scopes, and the rounds\<close>

lemma scopes_loop_short:
  assumes "watches_ok order s" "order = pre @ scs"
    and "short_ok cd (dg_model s) (dg_last s) (watch_seq pre s) (watch_seq scs s)"
    and "scopes_loop cd scs (d, s) = (stopped, d', t)"
  shows "watches_ok order t \<and> (if stopped then \<not> d' \<and> all_clean cd order t
    else short_ok cd (dg_model t) (dg_last t) (watch_seq order t) [])"
  using assms
proof (induction scs arbitrary: pre d s)
  case (Cons sc scs)
  obtain st d1 s1 where run: "watch_loop cd sc (length (dg_watchers s sc)) (d, s) = (st, d1, s1)"
    using prod_cases3 by blast
  have "short_ok cd (dg_model s) (dg_last s) (watch_seq pre s @ rev (drop (length (dg_watchers s sc)) (dg_watchers s sc)))
      (rev (take (length (dg_watchers s sc)) (dg_watchers s sc)) @ watch_seq scs s)"
    using Cons.prems(3) by simp
  from watch_loop_short [OF Cons.prems(1,2) order_refl this run] have one: "watches_ok order s1"
    "if st then \<not> d1 \<and> all_clean cd order s1 else short_ok cd (dg_model s1) (dg_last s1) (watch_seq (pre @ [sc]) s1) (watch_seq scs s1)"
    by blast+
  show ?case
  proof (cases st)
    case True
    with Cons.prems(4) run one show ?thesis by simp
  next
    case False
    with Cons.prems(2,4) run one show ?thesis by (intro Cons.IH [of s1 "pre @ [sc]" d1]) simp_all
  qed
qed simp

text \<open>A loop that ends without a dirty watch has changed nothing but the phase, and saw every watch clean.\<close>

definition same_watches :: "'m digest_state \<Rightarrow> 'm digest_state \<Rightarrow> bool" where
  "same_watches s t \<longleftrightarrow> (\<exists>p. t = s\<lparr>dg_phase := p\<rparr>)"

lemma same_watches_simps:
  "same_watches s s" "same_watches s (s\<lparr>dg_phase := p\<rparr>)"
  "same_watches s t \<Longrightarrow> same_watches t u \<Longrightarrow> same_watches s u"
  by (auto simp: same_watches_def) (metis digest_state.surjective digest_state.update_convs(6))

lemma watch_loop_dirty: "watch_loop cd sc n (True, s) = (False, d', t) \<Longrightarrow> d'"
proof (induction n arbitrary: s)
  case (Suc n)
  then show ?case by (auto simp: Let_def split: if_splits option.splits)
qed simp

lemma watch_loop_quiet:
  "watch_loop cd sc n (False, s) = (False, False, t) \<Longrightarrow> n \<le> length (dg_watchers s sc) \<Longrightarrow>
    same_watches s t \<and> list_all (watch_clean cd (dg_model s)) (take n (dg_watchers s sc))"
proof (induction n arbitrary: s)
  case (Suc n)
  let ?w = "dg_watchers s sc ! n"
  have n: "n < length (dg_watchers s sc)" using Suc.prems by simp
  then have take: "take (Suc n) (dg_watchers s sc) = take n (dg_watchers s sc) @ [?w]" by (rule take_Suc_conv_app_nth)
  show ?case
  proof (cases "cd_get cd (wa_get ?w) (dg_model s)")
    case None
    then have "watch_loop cd sc n (False, s\<lparr>dg_phase := False\<rparr>) = (False, False, t)"
      using Suc.prems n by (simp add: Let_def)
    from Suc.IH [OF this] n have "same_watches (s\<lparr>dg_phase := False\<rparr>) t" "list_all (watch_clean cd (dg_model s)) (take n (dg_watchers s sc))"
      by simp_all
    moreover have "watch_clean cd (dg_model s) ?w" using None by (simp add: watch_clean_def)
    ultimately show ?thesis unfolding take using same_watches_simps(3) [OF same_watches_simps(2)] by simp
  next
    case (Some v)
    show ?thesis
    proof (cases "watch_dirty ?w v")
      case True
      with Some Suc.prems n have "watch_loop cd sc n (True, fire_watch cd sc ?w v s) = (False, False, t)" by (simp add: Let_def)
      from watch_loop_dirty [OF this] show ?thesis by simp
    next
      case False
      with Some Suc.prems n have "watch_loop cd sc n (False, s) = (False, False, t)" by (auto simp: Let_def split: if_splits)
      from Suc.IH [OF this] n Some False show ?thesis unfolding take by (simp add: watch_clean_def)
    qed
  qed
qed (simp add: same_watches_simps)

lemma scopes_loop_dirty: "scopes_loop cd scs (True, s) = (False, d', t) \<Longrightarrow> d'"
proof (induction scs arbitrary: s)
  case (Cons sc scs)
  obtain st d1 s1 where run: "watch_loop cd sc (length (dg_watchers s sc)) (True, s) = (st, d1, s1)"
    using prod_cases3 by blast
  with Cons.prems have "\<not> st" by auto
  with run have "watch_loop cd sc (length (dg_watchers s sc)) (True, s) = (False, d1, s1)" by simp
  from watch_loop_dirty [OF this] Cons run \<open>\<not> st\<close> show ?case by simp
qed simp

lemma scopes_loop_quiet:
  "scopes_loop cd scs (False, s) = (False, False, t) \<Longrightarrow> same_watches s t \<and> all_clean cd scs s"
proof (induction scs arbitrary: s)
  case (Cons sc scs)
  obtain st d1 s1 where run: "watch_loop cd sc (length (dg_watchers s sc)) (False, s) = (st, d1, s1)"
    using prod_cases3 by blast
  with Cons.prems have "\<not> st" by auto
  with Cons.prems run have rest: "scopes_loop cd scs (d1, s1) = (False, False, t)" by simp
  then have d: "\<not> d1" using scopes_loop_dirty by (cases d1) auto
  from watch_loop_quiet [of cd sc "length (dg_watchers s sc)" s s1] run d \<open>\<not> st\<close>
  have one: "same_watches s s1" "list_all (watch_clean cd (dg_model s)) (dg_watchers s sc)" by simp_all
  from Cons.IH rest d have two: "same_watches s1 t" "all_clean cd scs s1" by simp_all
  have "all_clean cd scs s" using one(1) two(2) by (auto simp: same_watches_def all_clean_def)
  with one two show ?case using same_watches_simps(3) by (auto simp: all_clean_def)
qed (simp add: same_watches_simps all_clean_def)

lemma drain_async_empty: "dg_async s = [] \<Longrightarrow> drain_async cd s = Some s"
  by (subst drain_async.simps) simp

lemma drain_async_result:
  assumes ret: "drain_async cd s = Some t"
  shows "dg_async t = [] \<and> (watches_ok order s \<longrightarrow> watches_ok order t) \<and> (t = s \<or> dg_last t = None)"
proof (rule drain_async.raw_induct [where P = "\<lambda>cd s t. dg_async t = [] \<and> (watches_ok order s \<longrightarrow> watches_ok order t) \<and>
    (t = s \<or> dg_last t = None)", OF _ ret])
  fix drain :: "'a code \<Rightarrow> 'a digest_state \<Rightarrow> 'a digest_state option" and cd s t
  assume IH: "\<And>cd s t. drain cd s = Some t \<Longrightarrow> dg_async t = [] \<and> (watches_ok order s \<longrightarrow> watches_ok order t) \<and>
      (t = s \<or> dg_last t = None)"
    and body: "(case dg_async s of [] \<Rightarrow> Some s
      | f # r \<Rightarrow> drain cd ((handled (make_changes (cd_task cd f (dg_model s)) (s\<lparr>dg_async := r\<rparr>)))\<lparr>dg_last := None\<rparr>)) = Some t"
  show "dg_async t = [] \<and> (watches_ok order s \<longrightarrow> watches_ok order t) \<and> (t = s \<or> dg_last t = None)"
  proof (cases "dg_async s")
    case (Cons f r)
    let ?s = "(handled (make_changes (cd_task cd f (dg_model s)) (s\<lparr>dg_async := r\<rparr>)))\<lparr>dg_last := None\<rparr>"
    from body Cons have "drain cd ?s = Some t" by simp
    note res = IH [OF this]
    have "dg_last t = None" using conjunct2 [OF conjunct2 [OF res]] by (elim disjE) simp_all
    moreover have "dg_async t = []" "watches_ok order ?s \<longrightarrow> watches_ok order t" using res by simp_all
    moreover have "watches_ok order ?s" if "watches_ok order s"
    proof -
      have "watches_ok order (s\<lparr>dg_async := r\<rparr>)" using that by (rule watches_ok_same) simp_all
      from make_changes_ok [OF this] show ?thesis by (rule watches_ok_same) simp_all
    qed
    ultimately show ?thesis by auto
  qed (use body in simp)
qed

text \<open>A round that asks for no other leaves every watch clean and no task waiting.\<close>

lemma digest_round_result:
  assumes "watches_ok order s" "short_ok cd (dg_model s) (dg_last s) [] (watch_seq order s)"
    and "digest_round cd order s = Some (again, t)"
  shows "watches_ok order t \<and> (if again then short_ok cd (dg_model t) (dg_last t) [] (watch_seq order t)
    else all_clean cd order t \<and> dg_async t = [])"
proof -
  obtain s1 where drain: "drain_async cd s = Some s1" using assms(3) by (auto simp: digest_round_def split: option.splits)
  obtain st d s2 where run: "scopes_loop cd order (False, s1) = (st, d, s2)" using prod_cases3 by blast
  have t: "t = s2" "again \<longleftrightarrow> d \<or> dg_async t \<noteq> []" using assms(3) drain run by (auto simp: digest_round_def)
  have ok: "watches_ok order s1" using drain_async_result [OF drain, of order] assms(1) by simp
  have "short_ok cd (dg_model s1) (dg_last s1) (watch_seq [] s1) (watch_seq order s1)"
    using drain_async_result [OF drain, of order] assms(2) by auto
  from scopes_loop_short [OF ok _ this run] have res: "watches_ok order t"
    "if st then \<not> d \<and> all_clean cd order t else short_ok cd (dg_model t) (dg_last t) (watch_seq order t) []"
    by (simp_all add: t)
  show ?thesis
  proof (cases st)
    case True
    with res t show ?thesis by (auto simp: all_clean_seq intro: short_ok_clean)
  next
    case False
    have "all_clean cd order t" if "\<not> d"
    proof -
      from run that False have "scopes_loop cd order (False, s1) = (False, False, t)" by (simp add: t)
      from scopes_loop_quiet [OF this] show ?thesis by (auto simp: same_watches_def all_clean_def)
    qed
    with False res t show ?thesis by (auto intro: short_ok_wrap)
  qed
qed

lemma digest_rounds_result:
  "watches_ok order s \<Longrightarrow> short_ok cd (dg_model s) (dg_last s) [] (watch_seq order s) \<Longrightarrow>
    digest_rounds cd order ttl s = Some (Inr t) \<Longrightarrow> watches_ok order t \<and> all_clean cd order t \<and> dg_async t = []"
proof (induction ttl arbitrary: s)
  case 0
  then obtain u where "digest_round cd order s = Some (False, u)" "u = t"
    by (auto split: option.splits if_splits)
  with digest_round_result [OF 0(1,2)] show ?case by force
next
  case (Suc ttl)
  then obtain again u where round: "digest_round cd order s = Some (again, u)" by (auto split: option.splits)
  from digest_round_result [OF Suc.prems(1,2) round] Suc.IH [of u] Suc.prems(3) round show ?case
    by (cases again) simp_all
qed

text \<open>A round over clean watches does nothing.\<close>

lemma watch_loop_clean:
  "list_all (watch_clean cd (dg_model s)) (dg_watchers s sc) \<Longrightarrow> dg_last s = None \<Longrightarrow>
    \<exists>t. watch_loop cd sc n (d, s) = (False, d, t) \<and> same_watches s t"
proof (induction n arbitrary: s)
  case (Suc n)
  show ?case
  proof (cases "length (dg_watchers s sc) \<le> n")
    case True
    with Suc show ?thesis by simp
  next
    case False
    then have w: "watch_clean cd (dg_model s) (dg_watchers s sc ! n)" using Suc.prems by (simp add: list_all_length)
    show ?thesis
    proof (cases "cd_get cd (wa_get (dg_watchers s sc ! n)) (dg_model s)")
      case None
      have "\<exists>t. watch_loop cd sc n (d, s\<lparr>dg_phase := False\<rparr>) = (False, d, t) \<and> same_watches (s\<lparr>dg_phase := False\<rparr>) t"
        using Suc.prems by (intro Suc.IH) simp_all
      then obtain t where t: "watch_loop cd sc n (d, s\<lparr>dg_phase := False\<rparr>) = (False, d, t)" "same_watches (s\<lparr>dg_phase := False\<rparr>) t"
        by blast
      from same_watches_simps(3) [OF same_watches_simps(2) t(2)] t(1) None False show ?thesis by (simp add: Let_def)
    next
      case (Some v)
      with w have "\<not> watch_dirty (dg_watchers s sc ! n) v" by (simp add: watch_clean_def)
      with Some False Suc show ?thesis by (simp add: Let_def)
    qed
  qed
qed (simp add: same_watches_simps)

lemma scopes_loop_clean:
  "all_clean cd scs s \<Longrightarrow> dg_last s = None \<Longrightarrow> \<exists>t. scopes_loop cd scs (d, s) = (False, d, t) \<and> same_watches s t"
proof (induction scs arbitrary: s)
  case (Cons sc scs)
  then obtain s1 where one: "watch_loop cd sc (length (dg_watchers s sc)) (d, s) = (False, d, s1)" "same_watches s s1"
    using watch_loop_clean [of cd s sc "length (dg_watchers s sc)" d] by (auto simp: all_clean_def)
  then have "all_clean cd scs s1" "dg_last s1 = None" using Cons.prems by (auto simp: same_watches_def all_clean_def)
  from Cons.IH [OF this] one show ?case using same_watches_simps(3) by auto
qed (simp add: same_watches_simps)

lemma clean_round:
  assumes "all_clean cd order s" "dg_async s = []" "dg_last s = None"
  shows "\<exists>t. digest_round cd order s = Some (False, t) \<and> same_watches s t"
  using scopes_loop_clean [OF assms(1,3), of False] assms(2)
  by (auto simp: digest_round_def drain_async_empty same_watches_def)

section \<open>Termination\<close>

fun async_tasks :: "'m change list \<Rightarrow> nat list" where
  "async_tasks [] = []"
| "async_tasks (Raise # cs) = []"
| "async_tasks (Eval_Async t # cs) = t # async_tasks cs"
| "async_tasks (c # cs) = async_tasks cs"

fun post_tasks :: "'m change list \<Rightarrow> nat list" where
  "post_tasks [] = []"
| "post_tasks (Raise # cs) = []"
| "post_tasks (Post_Digest t # cs) = t # post_tasks cs"
| "post_tasks (c # cs) = post_tasks cs"

lemma tasks_added:
  "dg_async (snd (make_changes cs s)) = dg_async s @ async_tasks cs"
  "dg_post (snd (make_changes cs s)) = dg_post s @ post_tasks cs"
  by (induction cs s rule: make_changes.induct) (simp_all add: add_watch_def remove_watch_def)

lemma tasks_in: "f \<in> set (async_tasks cs) \<Longrightarrow> Eval_Async f \<in> set cs" "f \<in> set (post_tasks cs) \<Longrightarrow> Post_Digest f \<in> set cs"
proof -
  show "f \<in> set (async_tasks cs) \<Longrightarrow> Eval_Async f \<in> set cs" by (induction cs rule: async_tasks.induct) auto
  show "f \<in> set (post_tasks cs) \<Longrightarrow> Post_Digest f \<in> set cs" by (induction cs rule: post_tasks.induct) auto
qed

text \<open>If tasks only schedule tasks of lower rank, both loops over the queues end.\<close>

definition tasks_ranked :: "(nat \<Rightarrow> nat) \<Rightarrow> 'm code \<Rightarrow> bool" where
  "tasks_ranked rank cd \<longleftrightarrow> (\<forall>f m g. Eval_Async g \<in> set (cd_task cd f m) \<or> Post_Digest g \<in> set (cd_task cd f m) \<longrightarrow> rank g < rank f)"

lemma fewer_ranks:
  assumes "\<forall>g \<in> set gs. rank g < rank f"
  shows "image_mset rank (mset (r @ gs)) < (image_mset rank (mset (f # r)) :: nat multiset)"
proof -
  have "image_mset rank (mset gs) < {#rank f#}"
    by (rule ex_gt_imp_less_multiset) (use assms in auto)
  then show ?thesis by simp
qed

lemma drain_async_returns:
  assumes "tasks_ranked rank cd"
  shows "\<exists>t. drain_async cd s = Some t"
proof (induction "image_mset rank (mset (dg_async s))" arbitrary: s rule: less_induct)
  case less
  show ?case
  proof (cases "dg_async s")
    case (Cons f r)
    let ?s = "(handled (make_changes (cd_task cd f (dg_model s)) (s\<lparr>dg_async := r\<rparr>)))\<lparr>dg_last := None\<rparr>"
    have "dg_async ?s = r @ async_tasks (cd_task cd f (dg_model s))" by (simp add: tasks_added)
    moreover have "\<forall>g \<in> set (async_tasks (cd_task cd f (dg_model s))). rank g < rank f"
      using assms tasks_in(1) unfolding tasks_ranked_def by blast
    ultimately have "image_mset rank (mset (dg_async ?s)) < image_mset rank (mset (dg_async s))"
      using fewer_ranks Cons by metis
    from less [OF this] Cons show ?thesis by (subst drain_async.simps) simp
  qed (simp add: drain_async_empty)
qed

lemma drain_post_returns:
  assumes "tasks_ranked rank cd"
  shows "\<exists>t. drain_post cd s = Some t"
proof (induction "image_mset rank (mset (dg_post s))" arbitrary: s rule: less_induct)
  case less
  show ?case
  proof (cases "dg_post s")
    case (Cons f r)
    let ?s = "snd (make_changes (cd_task cd f (dg_model s)) (s\<lparr>dg_post := r\<rparr>))"
    have "dg_post ?s = r @ post_tasks (cd_task cd f (dg_model s))" by (simp add: tasks_added)
    moreover have "\<forall>g \<in> set (post_tasks (cd_task cd f (dg_model s))). rank g < rank f"
      using assms tasks_in(2) unfolding tasks_ranked_def by blast
    ultimately have "image_mset rank (mset (dg_post ?s)) < image_mset rank (mset (dg_post s))"
      using fewer_ranks Cons by metis
    from less [OF this] Cons show ?thesis by (subst drain_post.simps) simp
  qed (simp add: drain_post.simps)
qed

lemma digest_rounds_returns: "tasks_ranked rank cd \<Longrightarrow> digest_rounds cd order ttl s \<noteq> None"
proof (induction ttl arbitrary: s)
  case 0
  from drain_async_returns [OF 0] obtain t where "drain_async cd s = Some t" by blast
  then show ?case by (simp add: digest_round_def split: prod.split)
next
  case (Suc ttl)
  from drain_async_returns [OF Suc.prems] obtain t where "drain_async cd s = Some t" by blast
  with Suc show ?case by (auto simp: digest_round_def split: prod.split)
qed

section \<open>Properties\<close>

text \<open>C14: when a digest returns without an error, then - although a round is cut short at the watch that was dirty last -
  its rounds ended in a state in which every watch of every scope it walks over is clean, i.e. its expression raises or
  has the value its listener was last called with, and no task is waiting; only the tasks for after the digest run
  then.  A digest in that state finds nothing to do.\<close>

theorem digest_settles:
  assumes "watches_ok order s" "ng_digest cd order s = Some (Inr t)"
  shows "\<exists>u. all_clean cd order u \<and> dg_async u = [] \<and> drain_post cd u = Some t \<and>
    (dg_post u = [] \<longrightarrow> t = u) \<and>
    (\<exists>v p. digest_round cd order (u\<lparr>dg_last := None\<rparr>) = Some (False, v) \<and> v = u\<lparr>dg_last := None, dg_phase := p\<rparr>)"
proof -
  let ?s = "s\<lparr>dg_phase := True, dg_last := None\<rparr>"
  obtain r where r: "digest_rounds cd order digest_ttl ?s = Some (Inr r)" "drain_post cd (r\<lparr>dg_phase := False\<rparr>) = Some t"
    using assms(2) by (auto simp: ng_digest_def split: if_splits option.splits sum.splits)
  let ?u = "r\<lparr>dg_phase := False\<rparr>"
  have "watches_ok order ?s" using assms(1) by (rule watches_ok_same) simp_all
  then have "all_clean cd order r" "dg_async r = []" using digest_rounds_result [OF _ _ r(1)] by simp_all
  then have u: "all_clean cd order ?u" "dg_async ?u = []" by (simp_all add: all_clean_def)
  have "t = ?u" if "dg_post ?u = []" using r(2) that by (simp add: drain_post.simps)
  with u r(2) clean_round [of cd order "?u\<lparr>dg_last := None\<rparr>"] show ?thesis
    by (intro exI [of _ ?u]) (auto simp: all_clean_def same_watches_def)
qed

text \<open>C15: a digest always ends, with a state or an error, if the tasks put into the two queues only schedule tasks of a
  lower rank.  A task that schedules itself makes it run forever.\<close>

theorem digest_returns:
  assumes "tasks_ranked rank cd"
  shows "ng_digest cd order s \<noteq> None"
proof (cases "digest_rounds cd order digest_ttl (s\<lparr>dg_phase := True, dg_last := None\<rparr>)")
  case None
  with digest_rounds_returns [OF assms] show ?thesis by blast
next
  case (Some r)
  then show ?thesis
    using drain_post_returns [OF assms] by (cases r) (auto simp: ng_digest_def)
qed

lemma self_scheduling_drain:
  assumes ret: "drain_async cd s = Some t"
  shows "(\<forall>m. cd_task cd f m = [Eval_Async f]) \<longrightarrow> dg_async s \<noteq> [f]"
proof (rule drain_async.raw_induct [where P = "\<lambda>cd s t. (\<forall>m. cd_task cd f m = [Eval_Async f]) \<longrightarrow> dg_async s \<noteq> [f]", OF _ ret])
  fix drain :: "'a code \<Rightarrow> 'a digest_state \<Rightarrow> 'a digest_state option" and cd s t
  assume IH: "\<And>cd s t. drain cd s = Some t \<Longrightarrow> (\<forall>m. cd_task cd f m = [Eval_Async f]) \<longrightarrow> dg_async s \<noteq> [f]"
    and body: "(case dg_async s of [] \<Rightarrow> Some s
      | g # r \<Rightarrow> drain cd ((handled (make_changes (cd_task cd g (dg_model s)) (s\<lparr>dg_async := r\<rparr>)))\<lparr>dg_last := None\<rparr>)) = Some t"
  show "(\<forall>m. cd_task cd f m = [Eval_Async f]) \<longrightarrow> dg_async s \<noteq> [f]"
  proof (intro impI notI)
    assume f: "\<forall>m. cd_task cd f m = [Eval_Async f]" and q: "dg_async s = [f]"
    let ?s = "(handled (make_changes (cd_task cd f (dg_model s)) (s\<lparr>dg_async := []\<rparr>)))\<lparr>dg_last := None\<rparr>"
    have "drain cd ?s = Some t" using body q by simp
    from IH [OF this] f have "dg_async ?s \<noteq> [f]" by blast
    moreover have "dg_async ?s = [f]" using f by simp
    ultimately show False by blast
  qed
qed

theorem self_scheduling_hangs:
  assumes "\<And>m. cd_task cd f m = [Eval_Async f]" and "dg_async s = [f]" and "\<not> dg_phase s"
  shows "ng_digest cd order s = None"
proof -
  let ?s = "s\<lparr>dg_phase := True, dg_last := None\<rparr>"
  have "drain_async cd ?s = None"
    using self_scheduling_drain [of cd ?s _ f] assms(1,2) by (cases "drain_async cd ?s") simp_all
  then have "digest_rounds cd order digest_ttl ?s = None"
    by (simp add: digest_round_def digest_ttl_def eval_nat_numeral)
  with assms(3) show ?thesis by (simp add: ng_digest_def)
qed

text \<open>A page with a counter and its double: the watch of the counter sets the double, another watch sees the double.\<close>

definition demo_code :: "(int \<times> int) code" where
  "demo_code = \<lparr>cd_get = (\<lambda>g m. Some (Prim (JNum (Fin (of_int (if g = 0 then fst m else snd m)))))),
     cd_listen = (\<lambda>f m v old. if f = 0 then [Set_Model (\<lambda>(a, b). (a, 2 * a))] else []),
     cd_task = (\<lambda>f m. if f = 1 then [Eval_Async 0] else [Set_Model (\<lambda>(a, b). (a + 1, b))])\<rparr>"

definition demo_page :: "(int \<times> int) digest_state" where
  "demo_page = \<lparr>dg_model = (3, 0), dg_watchers = (\<lambda>sc. if sc = 0 then
       [\<lparr>wa_id = 1, wa_get = 0, wa_fn = 0, wa_last = None, wa_eq = False, wa_constant = False\<rparr>]
     else if sc = 1 then [\<lparr>wa_id = 0, wa_get = 1, wa_fn = 1, wa_last = None, wa_eq = False, wa_constant = False\<rparr>] else []),
     dg_async = [1], dg_post = [], dg_last = None, dg_phase = False, dg_next = 2\<rparr>"

lemma demo_ranked: "tasks_ranked (\<lambda>f. f) demo_code"
  by (simp add: tasks_ranked_def demo_code_def)

lemma demo_ok: "watches_ok [0, 1] demo_page"
  by (simp add: watches_ok_def demo_page_def watch_ids_def)

lemma demo_digest: "\<exists>t. ng_digest demo_code [0, 1] demo_page = Some (Inr t) \<and> dg_model t = (4, 8) \<and> dg_post t = []"
  by (simp add: ng_digest_def digest_ttl_def eval_nat_numeral digest_round_def drain_async.simps drain_post.simps
      demo_page_def demo_code_def Let_def fire_watch_def watch_dirty_def handled_def)

theorem digest_settles_witness:
  "\<exists>t u. ng_digest demo_code [0, 1] demo_page = Some (Inr t) \<and> all_clean demo_code [0, 1] u \<and>
    drain_post demo_code u = Some t \<and> dg_model t = (4, 8)"
proof -
  from demo_digest obtain t where "ng_digest demo_code [0, 1] demo_page = Some (Inr t)" "dg_model t = (4, 8)" by blast
  with digest_settles [OF demo_ok this(1)] show ?thesis by blast
qed

theorem digest_returns_witness: "ng_digest demo_code [0, 1] demo_page \<noteq> None"
  by (rule digest_returns [OF demo_ranked])

end
