(* ===== verification/Spec2Isabelle.thy ===== *)
theory Spec2Isabelle
  imports App_Authority App_Dialogs App_Order DT_Visible DT_Dom DT_Select DT_Api DT_Details Ng_Route Ng_Digest
begin

text \<open>
  Verification library of the Wigo monitoring web client and of the table engine it ships.

  \<^bold>\<open>The program.\<close>  Wigo is a monitoring daemon (Go, \<open>src/src/\<close>) with a web client (JavaScript,
  \<open>src/public/\<close>).  The client's own code is \<open>public/js/app.js\<close>: filters that turn a numeric status
  into a level and its styles, one controller per page (hosts, group, host, logs, authority), and the
  services for refresh, navigation and dialogs.  It asks the daemon through Restangular
  (\<open>public/bower_components/restangular\<close>), whose URLs the daemon's router answers
  (\<open>src/wigo.go\<close>, \<open>src/wigo/http.go\<close>, \<open>src/wigo/authority.go\<close>).  Tables are DataTables 1.10
  (\<open>public/js/plugins/dataTables/jquery.dataTables.js\<close>), which keeps rows, two index lists (the order
  of all rows, and the rows shown), an ordering, searches and a page.  Pages, addresses and navigation
  rest on AngularJS (\<open>bower_components/angular\<close>, \<open>angular-route\<close>).

  \<^bold>\<open>The web client.\<close>
  \<^item> App_Levels: \<open>getLevel\<close>, the style tables and every filter of \<open>wigo-filters\<close>; levels are monotone
    in the status, styles separate levels.
  \<^item> App_Counters: the counter objects, and the locale every controller's tallies are proved in.
  \<^item> App_Status: \<open>HostsCtrl\<close>, \<open>GroupCtrl\<close>, \<open>HostCtrl\<close>.  A state is the scope with the outstanding
    requests; a load, an answer in any order and a failure are steps of an inductive relation.  The
    counters agree with what is shown in every reachable state; a load answered completely shows
    everything once; when loads overlap, in any interleaving of the answers, the groups of every list that
    arrives are shown and counted.
  \<^item> Rest_Client, Api_Server: URL building with percent encoding, the route table and the log handler.  The
    router itself (martini, not in the repository) is a parameter, with its documented behaviour as the
    hypothesis \<open>martini_router\<close>: a parameter of a pattern matches a nonempty text without slash, number sign
    and question mark, and the first route that matches is taken.  \<open>plain_router\<close> is an instance.
  \<^item> App_Logs: menu, URL, paging and requests of \<open>LogsCtrl\<close>; requests are followed to the handler.
    The browser may change the URL (Back) at any time, which the page does not notice: URL and menu agree from
    one use of the menu to the next change by the browser.
  \<^item> App_Authority: the authority page and the server's lists and tokens, end to end.
  \<^item> App_Services: the refresh timer over Angular's \<open>$timeout\<close>, navigation over the route table, dialogs.

  \<^bold>\<open>Locations and routes.\<close>
  \<^item> Ng_Url: encoding and parsing of paths and queries (\<open>encodeUriQuery\<close>, \<open>parseKeyValue\<close>, \<open>toKeyValue\<close>);
    what a query string says is stated apart from the code (\<open>said_of\<close>), and parsing gives exactly that.
  \<^item> Ng_Location: \<open>LocationHashbangUrl\<close> and \<open>urlResolve\<close>; an address the client writes is read back as
    the same path, search and hash; the queries that break reading are characterised.
  \<^item> Ng_Route: \<open>$routeProvider\<close> and \<open>updateRoute\<close> of angular-route.js.  The navigation of App_Services is
    refined by it (\<open>goto_refines\<close>); a step relation interleaves changes of the location with the
    resolution of promises, and the page shown in the end is that of the last location.

  \<^item> Ng_Scope: the links of scopes (\<open>$new\<close>, \<open>$destroy\<close>, the traversal of \<open>$digest\<close>), refined to a tree.
  \<^item> Ng_Digest: \<open>angular.equals\<close> and \<open>copy\<close>, watches, the queues and \<open>$digest\<close>; its short circuit is sound, and it
    ends when queued tasks are well-founded.

  \<^item> Ng_OrderBy: the filter \<open>orderBy\<close> sorts by its predicates; when the keys tell the elements apart, its
    result depends on nothing else.  App_Order: with it, the hosts page shows its groups in one order, worse
    status first, whatever the order of the answers.

  \<^bold>\<open>Dialogs.\<close>
  \<^item> Ui_Modal: the window stack of angular-bootstrap (\<open>$$stackedMap\<close>, \<open>$modalStack\<close>, \<open>$modal.open\<close>) with what the
    page sees of it.  App_Dialogs: the client's \<open>$dialog\<close> over that stack, with windows dismissed behind its back.

  \<^bold>\<open>The table engine.\<close>
  \<^item> DT_Values, DT_Util: cell values, the detectors and formatters of \<open>ext.type\<close>, the page numbers.
  \<^item> DT_Objects, DT_Options: the data sources behind \<open>mData\<close>, option names and their merging.
  \<^item> DT_Table: the settings, column, row and search records; column indexes, types and cell access.
    DT_Columns: definitions of columns (\<open>_fnAddColumn\<close>, \<open>_fnColumnOptions\<close>, \<open>_fnApplyColumnDefs\<close>).
  \<^item> Sorter_Spec, DT_Sort: the platform's sort as a locale; \<open>_fnSort\<close> gives the one stable order.
  \<^item> DT_Regex, DT_Filter: the patterns a search makes and what they match; filtering with its caches and
    its incremental case equals a filter of all rows.
  \<^item> Pager_Spec, DT_Paging: the paging contract as a locale, page actions as its refinement, buttons and
    information text.
  \<^item> DT_Rows: reading, creating, adding, invalidating, selecting and removing rows.
  \<^item> DT_Ajax: server-side requests and the rows of an answer.
  \<^item> DT_Draw: draws and redraws, which compose the above; a step relation of all operations of a
    client-side table and the invariant of its lists.
  \<^item> DT_Server: answers of a server, in and out of order.
  \<^item> DT_State: saving the state and a later visit of the page that restores it.
  \<^item> DT_Header: the layout grid of header and footer, read from the document and redrawn with columns
    hidden; DT_Visible: showing and hiding columns in header, footer, rows and saved state.
  \<^item> DT_Dom: the control string \<open>sDom\<close>, when reading it ends, when it succeeds, and that it gives the
    nesting it describes.  Whether jQuery puts an element it builds into a document fragment is the parameter
    \<open>df_fragment\<close>; every theorem holds for both values.
  \<^item> DT_Select: row and column selectors.  DT_Details: child rows shown below their rows, and lost on a
    redraw: events are delivered as jQuery documents it, to the handlers of the same type whose namespaces
    include those of the event.
  \<^item> DT_Api: the registry of API names as a map, and instances in a heap, since a name without a
    function is one object for all instances.

  \<^bold>\<open>Conventions.\<close>  Wigo_Prelude holds the shared vocabulary: association lists for objects, options
  for absent values.  A definition has the name of its function without the prefix \<open>_fn\<close>, and a
  raised exception is a value of \<open>js_err\<close>.  \<open>Unsupported\<close> marks an input outside the model (for
  example a pattern with syntax DT_Regex does not read); no theorem counts it as success.
  \<open>dt_env\<close> collects what the page supplies: date parsing, custom search and order functions, entity
  decoding, the sort of the platform and pre-draw callbacks.

  \<^bold>\<open>Fuel.\<close>  The nested data sources recurse on strings rebuilt from their parts; they get the length of
  the source as fuel, and DT_Objects proves that it never runs out.  The pattern reader of DT_Regex
  uses one unit for each token and starts with more than the length of the pattern.  Routing in Ng_Route
  is followed for a number of rounds; with the client's routes three always suffice.  The walk over
  scopes in Ng_Scope has a bound for its length and one for each climb; the number of scopes plus two
  suffices for both.  The loops over queues in Ng_Digest have no bound in the code and none in the model:
  \<open>None\<close> is a loop that never ends.

  \<^bold>\<open>Not modelled.\<close>  Markup, styles and measured sizes; the rest of AngularJS (its compiler,
  injector, events and HTTP client), jQuery and lodash, whose behaviour is stated where it is used; the
  minified copies; the charts (flot, morris); the Go daemon apart from
  the parts above.  Numbers are rationals with infinities and \<open>NaN\<close>, without rounding.  Text is
  a sequence of bytes: \<open>toLowerCase\<close> changes ASCII letters only, comparison is by bytes, and the line ends of
  patterns are line feed and carriage return (JavaScript also knows U+2028 and U+2029).  Callbacks
  that may change the table while it draws are not modelled.

  \<^bold>\<open>Plan.\<close>  Left for an extension: the numeric core of flot (ticks and axes), the rest of the API of
  DataTables, and listeners that change scopes during a digest.
\<close>

end
